(* ===== verification/Prelude.thy ===== *)
theory Prelude
  imports Complex_Main "HOL-Library.Sublist"
begin

text \<open>
  What every theory of the development shares: the Python exceptions the code raises or
  catches as one datatype, results as a sum of an exception and a value, the sequencing of
  fallible steps, and generic lemmas on lists and maps. The collection \<open>result_simps\<close>
  unfolds the sequencing combinators.
\<close>

named_theorems result_simps "sequencing of fallible steps"

section \<open>Exceptions and results\<close>

text \<open>
  The exception classes that reach a handler of the program. \<open>ValidationError\<close> (pydantic)
  and \<open>CommandNotAllowed\<close> are subclasses of \<open>ValueError\<close> in the code;
  \<open>TransportError\<close> carries its message, \<open>HTTPException\<close> its status code.
\<close>

datatype py_error =
    ValueError
  | ValidationError
  | CommandNotAllowed string
  | KeyError
  | TypeError
  | AttributeError
  | IndexError
  | OverflowError
  | ZeroDivisionError
  | OSError
  | TransportError string
  | RedisError
  | HTTPException int string
  | CancelledError

type_synonym 'a result = "py_error + 'a"

text \<open>Which exceptions an \<open>except ValueError\<close> clause catches.\<close>

fun is_value_error :: "py_error \<Rightarrow> bool" where
  "is_value_error ValueError = True"
| "is_value_error ValidationError = True"
| "is_value_error (CommandNotAllowed c) = True"
| "is_value_error e = False"

fun is_transport_error :: "py_error \<Rightarrow> bool" where
  "is_transport_error (TransportError m) = True"
| "is_transport_error e = False"

text \<open>\<open>except (TransportError, ValueError)\<close>, the clause of every sampling loop.\<close>

definition caught_by_cycle :: "py_error \<Rightarrow> bool" where
  "caught_by_cycle e \<longleftrightarrow> is_transport_error e \<or> is_value_error e"

lemma caught_by_cycle_simps [simp]:
  "caught_by_cycle ValueError" "caught_by_cycle ValidationError"
  "caught_by_cycle (CommandNotAllowed c)" "caught_by_cycle (TransportError m)"
  "\<not> caught_by_cycle KeyError" "\<not> caught_by_cycle TypeError"
  "\<not> caught_by_cycle AttributeError" "\<not> caught_by_cycle IndexError"
  "\<not> caught_by_cycle OverflowError" "\<not> caught_by_cycle ZeroDivisionError"
  "\<not> caught_by_cycle OSError"
  "\<not> caught_by_cycle RedisError" "\<not> caught_by_cycle (HTTPException n d)"
  "\<not> caught_by_cycle CancelledError"
  by (simp_all add: caught_by_cycle_def)

definition bind_r :: "'a result \<Rightarrow> ('a \<Rightarrow> 'b result) \<Rightarrow> 'b result" where
  "bind_r m f = (case m of Inl e \<Rightarrow> Inl e | Inr x \<Rightarrow> f x)"

lemma bind_r_simps [simp, result_simps]:
  "bind_r (Inl e) f = Inl e" "bind_r (Inr x) f = f x"
  by (simp_all add: bind_r_def)

lemma bind_r_eq_Inr:
  "bind_r m f = Inr y \<longleftrightarrow> (\<exists>x. m = Inr x \<and> f x = Inr y)"
  by (cases m) auto

lemma bind_r_eq_Inl:
  "bind_r m f = Inl e \<longleftrightarrow> m = Inl e \<or> (\<exists>x. m = Inr x \<and> f x = Inl e)"
  by (cases m) auto

lemma bind_r_assoc: "bind_r (bind_r m f) g = bind_r m (\<lambda>x. bind_r (f x) g)"
  by (cases m) auto

text \<open>A body run over every element of a list, in order, stopping at the first exception.\<close>

fun map_r :: "('a \<Rightarrow> 'b result) \<Rightarrow> 'a list \<Rightarrow> 'b list result" where
  "map_r f [] = Inr []"
| "map_r f (x # xs) = bind_r (f x) (\<lambda>y. bind_r (map_r f xs) (\<lambda>ys. Inr (y # ys)))"

lemma map_r_Inr: "(\<And>x. x \<in> set xs \<Longrightarrow> f x = Inr (g x)) \<Longrightarrow> map_r f xs = Inr (map g xs)"
  by (induction xs) auto

lemma map_r_length: "map_r f xs = Inr ys \<Longrightarrow> length ys = length xs"
  by (induction xs arbitrary: ys) (auto simp: bind_r_eq_Inr)

fun fold_r :: "('s \<Rightarrow> 'a \<Rightarrow> 's result) \<Rightarrow> 's \<Rightarrow> 'a list \<Rightarrow> 's result" where
  "fold_r f s [] = Inr s"
| "fold_r f s (x # xs) = bind_r (f s x) (\<lambda>s'. fold_r f s' xs)"

lemma fold_r_append: "fold_r f s (xs @ ys) = bind_r (fold_r f s xs) (\<lambda>s'. fold_r f s' ys)"
  by (induction xs arbitrary: s) (auto simp: bind_r_assoc)

text \<open>An exception of the loop is the first one a step raised.\<close>

lemma fold_r_Inl:
  "fold_r f s xs = Inl e \<longleftrightarrow>
   (\<exists>pre x post s'. xs = pre @ x # post \<and> fold_r f s pre = Inr s' \<and> f s' x = Inl e)"
proof
  assume "fold_r f s xs = Inl e"
  then show "\<exists>pre x post s'. xs = pre @ x # post \<and> fold_r f s pre = Inr s' \<and> f s' x = Inl e"
  proof (induction xs arbitrary: s)
    case (Cons x xs)
    show ?case
    proof (cases "f s x")
      case (Inl e')
      then show ?thesis using Cons.prems by (intro exI [of _ "[]"]) auto
    next
      case (Inr t)
      then have "fold_r f t xs = Inl e" using Cons.prems by simp
      from Cons.IH [OF this] obtain pre y post s' where
        "xs = pre @ y # post" "fold_r f t pre = Inr s'" "f s' y = Inl e" by blast
      then show ?thesis using Inr by (intro exI [of _ "x # pre"]) auto
    qed
  qed simp
qed (auto simp: fold_r_append)

lemma fold_r_invariant:
  assumes "fold_r f s xs = Inr t" and "P s"
    and "\<And>s x s'. P s \<Longrightarrow> x \<in> set xs \<Longrightarrow> f s x = Inr s' \<Longrightarrow> P s'"
  shows "P t"
  using assms
proof (induction xs arbitrary: s)
  case Nil
  then show ?case by simp
next
  case (Cons x xs)
  from Cons.prems(1) obtain s' where "f s x = Inr s'" and "fold_r f s' xs = Inr t"
    by (auto simp: bind_r_eq_Inr)
  with Cons show ?case by (metis list.set_intros)
qed

section \<open>Lists and maps\<close>

definition last_option :: "'a list \<Rightarrow> 'a option" where
  "last_option xs = (if xs = [] then None else Some (last xs))"

lemma last_option_simps [simp]:
  "last_option [] = None" "last_option (xs @ [x]) = Some x"
  by (simp_all add: last_option_def)

lemma last_option_eq_None [simp]: "last_option xs = None \<longleftrightarrow> xs = []"
  by (simp add: last_option_def)

lemma sorted_wrt_nth_last:
  "sorted_wrt P xs \<Longrightarrow> xs \<noteq> [] \<Longrightarrow> x \<in> set xs \<Longrightarrow> x = last xs \<or> P x (last xs)"
  by (induction xs) auto

lemma map_filter_Cons:
  "List.map_filter f (x # xs) = (case f x of None \<Rightarrow> List.map_filter f xs | Some y \<Rightarrow> y # List.map_filter f xs)"
  by (simp add: List.map_filter_def split: option.splits)

lemma map_filter_append:
  "List.map_filter f (xs @ ys) = List.map_filter f xs @ List.map_filter f ys"
  by (simp add: List.map_filter_def)

lemma map_filter_Nil_iff: "List.map_filter f xs = [] \<longleftrightarrow> (\<forall>x\<in>set xs. f x = None)"
  by (auto simp: List.map_filter_def filter_empty_conv)

text \<open>The last element of a list that a partial function maps to something.\<close>

lemma map_filter_last:
  assumes "List.map_filter f xs \<noteq> []"
  shows "\<exists>a v b y. xs = a @ v # b \<and> f v = Some y \<and> List.map_filter f b = [] \<and>
    List.map_filter f xs = List.map_filter f a @ [y]"
  using assms
proof (induction xs rule: rev_induct)
  case Nil
  then show ?case by (simp add: List.map_filter_def)
next
  case (snoc x xs)
  show ?case
  proof (cases "f x")
    case None
    then obtain a v b y where "xs = a @ v # b" "f v = Some y" "List.map_filter f b = []"
      "List.map_filter f xs = List.map_filter f a @ [y]"
      using snoc by (auto simp: map_filter_append List.map_filter_def)
    then show ?thesis using None
      by (intro exI [of _ a] exI [of _ v] exI [of _ "b @ [x]"]) (simp add: map_filter_append List.map_filter_def)
  next
    case (Some y)
    then show ?thesis
      by (intro exI [of _ xs] exI [of _ x] exI [of _ "[]"]) (simp add: map_filter_append List.map_filter_def)
  qed
qed

lemma map_filter_set: "set (List.map_filter f xs) = {y. \<exists>x\<in>set xs. f x = Some y}"
  by (force simp: List.map_filter_def)

lemma length_map_filter_le: "length (List.map_filter f xs) \<le> length xs"
  by (simp add: List.map_filter_def)

lemma take_takeWhile_prefix: "length xs \<le> n \<Longrightarrow> take n xs = xs"
  by simp

lemma takeWhile_append_stop:
  "\<forall>x\<in>set xs. P x \<Longrightarrow> \<not> P y \<Longrightarrow> takeWhile P (xs @ y # ys) = xs"
  by (induction xs) auto

lemma dropWhile_append_stop:
  "\<forall>x\<in>set xs. P x \<Longrightarrow> \<not> P y \<Longrightarrow> dropWhile P (xs @ y # ys) = y # ys"
  by (induction xs) auto

lemma takeWhile_append_subset: "set (takeWhile P xs) \<subseteq> set (takeWhile P (xs @ ys))"
  by (induction xs) auto

lemma dom_fold_upd: "dom (m(k := v)) = (if v = None then dom m - {k} else insert k (dom m))"
  by (cases v) auto

end
