(* ===== verification/Registry.thy ===== *)
theory Registry
  imports Prelude
begin

text \<open>
  \<^verbatim>\<open>log_sump_listener/registry.py\<close>: the latest \<open>docker ps\<close> listing of every daemon, with a
  listing counter and the counter's value when each container was last listed. \<open>update\<close>
  returns the refs the callback is then awaited with, in that order (none when no callback is
  registered); \<open>misses\<close> is the arithmetic \<open>container_tracker\<close> does on the two counters. The
  iteration order of the \<open>set\<close> a listing is passed as is the order of the list here.

  The locale \<open>liveness_register\<close> is the contract the tracker relies on: how a container's
  miss count moves with each listing and each \<open>forget\<close>. Its lemmas are about whole listing
  histories; \<open>reg\<close> interprets it on the registry.
\<close>

record container_ref =
  ref_id :: string
  ref_name :: string

record container_state =
  cs_ref :: container_ref
  last_seen_seq :: int

record daemon_state =
  listing_seq :: int
  containers :: "string \<rightharpoonup> container_state"

record 'cb registry =
  daemons :: "string \<rightharpoonup> daemon_state"
  callback :: "'cb option"

definition new_daemon_state :: daemon_state where
  "new_daemon_state = \<lparr>listing_seq = 0, containers = Map.empty\<rparr>"

definition new_registry :: "'cb registry" where
  "new_registry = \<lparr>daemons = Map.empty, callback = None\<rparr>"

definition on_new_container :: "'cb registry \<Rightarrow> 'cb \<Rightarrow> 'cb registry" where
  "on_new_container r cb = r\<lparr>callback := Some cb\<rparr>"

definition state_for :: "'cb registry \<Rightarrow> string \<Rightarrow> daemon_state \<times> 'cb registry" where
  "state_for r h =
     (case daemons r h of
        Some st \<Rightarrow> (st, r)
      | None \<Rightarrow> (new_daemon_state, r\<lparr>daemons := (daemons r)(h \<mapsto> new_daemon_state)\<rparr>))"

definition put_ref :: "daemon_state \<Rightarrow> container_ref \<Rightarrow> daemon_state" where
  "put_ref st ref = st\<lparr>containers := (containers st)(ref_id ref \<mapsto>
     \<lparr>cs_ref = ref, last_seen_seq = listing_seq st\<rparr>)\<rparr>"

text \<open>The loop of \<open>update\<close> over the listing: the new state and the refs seen for the first time.\<close>

fun record_refs :: "daemon_state \<Rightarrow> container_ref list \<Rightarrow> daemon_state \<times> container_ref list" where
  "record_refs st [] = (st, [])"
| "record_refs st (ref # refs) =
     (case record_refs (put_ref st ref) refs of (st', new_refs) \<Rightarrow>
        (st', if containers st (ref_id ref) = None then ref # new_refs else new_refs))"

definition update :: "'cb registry \<Rightarrow> string \<Rightarrow> container_ref list \<Rightarrow> 'cb registry \<times> container_ref list" where
  "update r h listing =
     (let (st, r1) = state_for r h;
          st1 = st\<lparr>listing_seq := listing_seq st + 1\<rparr>;
          (st2, new_refs) = record_refs st1 listing
      in (r1\<lparr>daemons := (daemons r1)(h \<mapsto> st2)\<rparr>,
          case callback r1 of None \<Rightarrow> [] | Some cb \<Rightarrow> new_refs))"

definition forget :: "'cb registry \<Rightarrow> string \<Rightarrow> string \<Rightarrow> 'cb registry" where
  "forget r h cid =
     (case daemons r h of
        None \<Rightarrow> r
      | Some st \<Rightarrow> r\<lparr>daemons := (daemons r)(h \<mapsto> st\<lparr>containers := (containers st)(cid := None)\<rparr>)\<rparr>)"

text \<open>Readings of a registry: what it knows of a container, and the count of missed listings.\<close>

definition known :: "'cb registry \<Rightarrow> string \<Rightarrow> string \<Rightarrow> container_state option" where
  "known r h cid = (case daemons r h of None \<Rightarrow> None | Some st \<Rightarrow> containers st cid)"

definition seq_of :: "'cb registry \<Rightarrow> string \<Rightarrow> int" where
  "seq_of r h = (case daemons r h of None \<Rightarrow> 0 | Some st \<Rightarrow> listing_seq st)"

definition misses :: "'cb registry \<Rightarrow> string \<Rightarrow> string \<Rightarrow> int option" where
  "misses r h cid = map_option (\<lambda>cs. seq_of r h - last_seen_seq cs) (known r h cid)"

lemmas registry_defs = known_def seq_of_def misses_def

section \<open>The operations on the readings\<close>

lemma put_ref_simps [simp]:
  "listing_seq (put_ref st ref) = listing_seq st"
  "containers (put_ref st ref) cid =
     (if cid = ref_id ref then Some \<lparr>cs_ref = ref, last_seen_seq = listing_seq st\<rparr> else containers st cid)"
  by (simp_all add: put_ref_def)

lemma record_refs_Cons [simp]:
  "fst (record_refs st (ref # refs)) = fst (record_refs (put_ref st ref) refs)"
  "snd (record_refs st (ref # refs)) =
     (if containers st (ref_id ref) = None then ref # snd (record_refs (put_ref st ref) refs)
      else snd (record_refs (put_ref st ref) refs))"
  by (simp_all split: prod.splits)

declare record_refs.simps(2) [simp del]

lemma record_refs_seq [simp]: "listing_seq (fst (record_refs st refs)) = listing_seq st"
  by (induction refs arbitrary: st) auto

lemma record_refs_unlisted:
  "cid \<notin> ref_id ` set refs \<Longrightarrow> containers (fst (record_refs st refs)) cid = containers st cid"
  by (induction refs arbitrary: st) auto

lemma record_refs_listed:
  "cid \<in> ref_id ` set refs \<Longrightarrow>
   \<exists>ref\<in>set refs. ref_id ref = cid \<and>
     containers (fst (record_refs st refs)) cid = Some \<lparr>cs_ref = ref, last_seen_seq = listing_seq st\<rparr>"
proof (induction refs arbitrary: st)
  case (Cons ref refs)
  show ?case
  proof (cases "cid \<in> ref_id ` set refs")
    case True
    from Cons.IH [OF True, of "put_ref st ref"] show ?thesis by auto
  next
    case False
    then have "cid = ref_id ref" using Cons.prems by auto
    with False show ?thesis using record_refs_unlisted [OF False, of "put_ref st ref"] by auto
  qed
qed simp

text \<open>The new refs: the first ref of every container the state did not hold, in listing order.\<close>

lemma record_refs_new_ids:
  "ref_id ` set (snd (record_refs st refs)) = ref_id ` set refs - dom (containers st)"
proof (induction refs arbitrary: st)
  case (Cons ref refs)
  have d: "dom (containers (put_ref st ref)) = insert (ref_id ref) (dom (containers st))"
    by (auto split: if_splits)
  have "ref_id ` set (snd (record_refs (put_ref st ref) refs)) =
      ref_id ` set refs - insert (ref_id ref) (dom (containers st))"
    using Cons.IH [of "put_ref st ref"] unfolding d .
  then show ?case by (cases "containers st (ref_id ref)") auto
qed simp

lemma record_refs_new_distinct: "distinct (map ref_id (snd (record_refs st refs)))"
proof (induction refs arbitrary: st)
  case (Cons ref refs)
  have "ref_id ref \<notin> ref_id ` set (snd (record_refs (put_ref st ref) refs))"
    by (simp only: record_refs_new_ids) (simp add: domIff)
  then show ?case using Cons.IH [of "put_ref st ref"] by auto
qed simp

lemma record_refs_new_subset: "set (snd (record_refs st refs)) \<subseteq> set refs"
proof (induction refs arbitrary: st)
  case (Cons ref refs)
  then show ?case using Cons.IH [of "put_ref st ref"] by auto
qed simp

text \<open>\<open>update\<close> by its parts: the state it starts from and what it leaves.\<close>

definition bumped :: "'cb registry \<Rightarrow> string \<Rightarrow> daemon_state" where
  "bumped r h = (fst (state_for r h))\<lparr>listing_seq := listing_seq (fst (state_for r h)) + 1\<rparr>"

lemma bumped_simps [simp]:
  "listing_seq (bumped r h) = seq_of r h + 1"
  "containers (bumped r h) = known r h"
  by (auto simp: bumped_def state_for_def seq_of_def known_def new_daemon_state_def
      split: option.splits)

lemma update_parts:
  "daemons (fst (update r h l)) = (daemons r)(h \<mapsto> fst (record_refs (bumped r h) l))"
  "callback (fst (update r h l)) = callback r"
  "snd (update r h l) = (if callback r = None then [] else snd (record_refs (bumped r h) l))"
  by (auto simp: update_def bumped_def state_for_def Let_def split: option.splits prod.splits)

lemma seq_of_update: "seq_of (fst (update r h l)) h' = (if h' = h then seq_of r h + 1 else seq_of r h')"
  by (simp add: seq_of_def [of "fst (update r h l)"] update_parts) (simp add: seq_of_def)

lemma known_update:
  "known (fst (update r h l)) h' cid =
     (if h' = h then containers (fst (record_refs (bumped r h) l)) cid else known r h' cid)"
  by (simp add: known_def [of "fst (update r h l)"] update_parts) (simp add: known_def)

lemma known_update_mono: "known r h' c \<noteq> None \<Longrightarrow> known (fst (update r h l)) h' c \<noteq> None"
  using record_refs_listed [of c l "bumped r h"] record_refs_unlisted [of c l "bumped r h"]
  by (cases "c \<in> ref_id ` set l") (auto simp: known_update)

lemma update_notifies: "callback r \<noteq> None \<Longrightarrow>
    ref_id ` set (snd (update r h l)) = {c \<in> ref_id ` set l. known r h c = None}"
  using record_refs_new_ids [of "bumped r h" l] by (auto simp: update_parts)

lemma update_notifies_unknown: "ref \<in> set (snd (update r h l)) \<Longrightarrow> known r h (ref_id ref) = None"
  using record_refs_new_ids [of "bumped r h" l] by (auto simp: update_parts split: if_splits)

lemma known_forget: "known (forget r h c) h' c' = (if h' = h \<and> c' = c then None else known r h' c')"
  by (auto simp: known_def forget_def split: option.splits)

lemma seq_of_forget [simp]: "seq_of (forget r h c) h' = seq_of r h'"
  by (auto simp: seq_of_def forget_def split: option.splits)

lemma known_state_for [simp]: "known (snd (state_for r h)) h' c = known r h' c"
  by (auto simp: known_def state_for_def new_daemon_state_def split: option.splits)

lemma seq_of_state_for [simp]: "seq_of (snd (state_for r h)) h' = seq_of r h'"
  by (auto simp: seq_of_def state_for_def new_daemon_state_def split: option.splits)

lemma callback_state_for [simp]: "callback (snd (state_for r h)) = callback r"
  by (auto simp: state_for_def split: option.splits)

lemma callback_forget [simp]: "callback (forget r h c) = callback r"
  by (auto simp: forget_def split: option.splits)

section \<open>The contract the tracker relies on\<close>

locale liveness_register =
  fixes upd :: "'r \<Rightarrow> string \<Rightarrow> container_ref list \<Rightarrow> 'r"
    and fgt :: "'r \<Rightarrow> string \<Rightarrow> string \<Rightarrow> 'r"
    and miss :: "'r \<Rightarrow> string \<Rightarrow> string \<Rightarrow> int option"
  assumes miss_listed: "cid \<in> ref_id ` set l \<Longrightarrow> miss (upd r h l) h cid = Some 0"
    and miss_unlisted: "cid \<notin> ref_id ` set l \<Longrightarrow>
      miss (upd r h l) h cid = map_option (\<lambda>n. n + 1) (miss r h cid)"
    and miss_other_host: "h' \<noteq> h \<Longrightarrow> miss (upd r h l) h' cid = miss r h' cid"
    and miss_forgotten: "miss (fgt r h cid) h' cid' =
      (if h' = h \<and> cid' = cid then None else miss r h' cid')"
begin

text \<open>A run of listings of one daemon, and of listings of any daemons.\<close>

lemma miss_absences:
  "\<forall>l\<in>set ls. cid \<notin> ref_id ` set l \<Longrightarrow>
   miss (foldl (\<lambda>r l. upd r h l) r ls) h cid = map_option (\<lambda>n. n + int (length ls)) (miss r h cid)"
proof (induction ls arbitrary: r)
  case Nil
  then show ?case by (simp add: option.map_ident)
next
  case (Cons l ls)
  then show ?case by (simp add: miss_unlisted option.map_comp comp_def algebra_simps)
qed

lemma miss_since_listed:
  assumes "cid \<in> ref_id ` set l" and "\<forall>l'\<in>set ls. cid \<notin> ref_id ` set l'"
  shows "miss (foldl (\<lambda>r l. upd r h l) r (pre @ l # ls)) h cid = Some (int (length ls))"
  using miss_absences [OF assms(2), of h "upd (foldl (\<lambda>r l. upd r h l) r pre) h l"]
  by (simp add: miss_listed [OF assms(1)])

lemma miss_other_hosts:
  "\<forall>hl\<in>set hls. fst hl \<noteq> h \<Longrightarrow> miss (foldl (\<lambda>r hl. upd r (fst hl) (snd hl)) r hls) h cid = miss r h cid"
  by (induction hls arbitrary: r) (auto simp: miss_other_host)

end

interpretation reg: liveness_register "\<lambda>r h l. fst (update r h l)" forget misses
proof (unfold_locales, goal_cases)
  case (1 cid l r h)
  then show ?case
    using record_refs_listed [of cid l "bumped r h"] by (auto simp: misses_def known_update seq_of_update)
next
  case (2 cid l r h)
  then show ?case
    using record_refs_unlisted [of cid l "bumped r h"]
    by (simp add: misses_def known_update seq_of_update option.map_comp comp_def algebra_simps)
next
  case (3 h' h r l cid)
  then show ?case by (simp add: misses_def known_update seq_of_update)
next
  case (4 r h cid h' cid')
  then show ?case by (simp add: misses_def known_forget)
qed

section \<open>The registry as a table of miss counters\<close>

text \<open>
  What the registry promises, without sequence numbers: a counter per container, zero when it
  is listed, one more at every listing of its daemon without it, gone when it is forgotten; a
  listing announces the containers without a counter.
\<close>

datatype reg_op = Listing string "container_ref list" | Forget string string

type_synonym counters = "string \<Rightarrow> string \<Rightarrow> int option"

fun counters_step :: "counters \<Rightarrow> reg_op \<Rightarrow> counters \<times> string set" where
  "counters_step m (Listing h l) =
     ((\<lambda>h' c. if h' \<noteq> h then m h' c else if c \<in> ref_id ` set l then Some 0 else map_option (\<lambda>n. n + 1) (m h c)),
      {c \<in> ref_id ` set l. m h c = None})"
| "counters_step m (Forget h c) = ((\<lambda>h' c'. if h' = h \<and> c' = c then None else m h' c'), {})"

fun registry_step :: "'cb registry \<Rightarrow> reg_op \<Rightarrow> 'cb registry \<times> string set" where
  "registry_step r (Listing h l) = (fst (update r h l), ref_id ` set (snd (update r h l)))"
| "registry_step r (Forget h c) = (forget r h c, {})"

fun run_ops :: "('s \<Rightarrow> reg_op \<Rightarrow> 's \<times> string set) \<Rightarrow> 's \<Rightarrow> reg_op list \<Rightarrow> 's \<times> string set list" where
  "run_ops step s [] = (s, [])"
| "run_ops step s (op # ops) =
     (case step s op of (s', ann) \<Rightarrow> (case run_ops step s' ops of (s'', anns) \<Rightarrow> (s'', ann # anns)))"

lemma misses_None [simp]: "misses r h c = None \<longleftrightarrow> known r h c = None"
  by (simp add: misses_def)

lemma registry_step_refines:
  assumes "callback r \<noteq> None" and "registry_step r op = (r', ann)"
  shows "counters_step (misses r) op = (misses r', ann)" and "callback r' = callback r"
proof -
  have "counters_step (misses r) op = (misses (fst (registry_step r op)), snd (registry_step r op)) \<and>
      callback (fst (registry_step r op)) = callback r"
  proof (cases op)
    case (Listing h l)
    have "(if h' \<noteq> h then misses r h' c else if c \<in> ref_id ` set l then Some 0 else map_option (\<lambda>n. n + 1) (misses r h c)) =
        misses (fst (update r h l)) h' c" for h' c
      by (simp add: reg.miss_listed reg.miss_unlisted reg.miss_other_host)
    then show ?thesis using update_notifies [OF assms(1), of h l] by (simp add: Listing update_parts(2))
  next
    case (Forget h c)
    then show ?thesis using reg.miss_forgotten [of r h c] by (auto simp: fun_eq_iff)
  qed
  then show "counters_step (misses r) op = (misses r', ann)" "callback r' = callback r" using assms(2) by simp_all
qed

text \<open>
  C37. The registry implements the table of miss counters: for every sequence of listings and
  removals, of any daemons, the misses it holds are the table's counters and every listing
  announces to the callback exactly the containers the table announces.
\<close>

theorem registry_refines_miss_counters:
  assumes "callback r \<noteq> None" and "run_ops registry_step r ops = (r', anns)"
  shows "run_ops counters_step (misses r) ops = (misses r', anns)"
  using assms
proof (induction ops arbitrary: r r' anns)
  case Nil
  then show ?case by simp
next
  case (Cons op ops)
  obtain r1 ann where s: "registry_step r op = (r1, ann)" by (cases "registry_step r op")
  obtain r2 anns2 where t: "run_ops registry_step r1 ops = (r2, anns2)" by (cases "run_ops registry_step r1 ops")
  note st = registry_step_refines [OF Cons.prems(1) s]
  have "run_ops counters_step (misses r1) ops = (misses r2, anns2)" using Cons.IH [of r1] t Cons.prems(1) st(2) by simp
  then show ?case using Cons.prems(2) s t st(1) by simp
qed

theorem registry_refines_miss_counters_witness:
  "let web = \<lparr>ref_id = ''c1'', ref_name = ''web''\<rparr>;
       r = on_new_container new_registry ();
       ops = [Listing ''d'' [web], Listing ''d'' [], Listing ''d'' [], Forget ''d'' ''c2'']
   in misses (fst (run_ops registry_step r ops)) ''d'' ''c1'' = Some 2"
proof -
  let ?r = "on_new_container new_registry ()"
  let ?ops = "[Listing ''d'' [\<lparr>ref_id = ''c1'', ref_name = ''web''\<rparr>], Listing ''d'' [], Listing ''d'' [], Forget ''d'' ''c2'']"
  have cb: "callback ?r \<noteq> None" by (simp add: on_new_container_def)
  obtain r' anns where run: "run_ops registry_step ?r ?ops = (r', anns)" by (rule prod.exhaust)
  have "misses r' = fst (run_ops counters_step (misses ?r) ?ops)"
    using registry_refines_miss_counters [OF cb run] by (simp only: fst_conv)
  then have "misses r' ''d'' ''c1'' = fst (run_ops counters_step (misses ?r) ?ops) ''d'' ''c1''" by (rule arg_cong)
  also have "\<dots> = Some 2" by simp
  finally have "misses r' ''d'' ''c1'' = Some 2" .
  then show ?thesis unfolding Let_def run by simp
qed

end
