(* ===== verification/Container_Tracker.thy ===== *)
theory Container_Tracker
  imports Registry
begin

text \<open>
  \<^verbatim>\<open>log_sump_listener/container_tracker.py\<close>: the reconciliation of active listeners with the
  registry. \<open>run_once\<close> walks the snapshot of active ids; the listener pool it stops
  listeners in is its parameter (the two callables the constructor takes), and the locale
  \<open>listener_pool\<close> is what it needs of it. The lemmas of the locale say which listeners one
  run stops, what it forgets and what it leaves alone.
\<close>

definition tracker_misses :: "int \<Rightarrow> 'cb registry \<Rightarrow> string \<Rightarrow> string \<Rightarrow> int" where
  "tracker_misses threshold r h cid =
     (let st = fst (state_for r h) in
      case containers st cid of
        None \<Rightarrow> threshold
      | Some cs \<Rightarrow> listing_seq st - last_seen_seq cs)"

text \<open>The loop over the snapshot: registry, pool, and the ids stopped, in order.\<close>

fun run_loop :: "int \<Rightarrow> string \<Rightarrow> (string \<Rightarrow> 'p \<Rightarrow> 'p) \<Rightarrow> 'cb registry \<Rightarrow> 'p \<Rightarrow> string list
    \<Rightarrow> 'cb registry \<times> 'p \<times> string list" where
  "run_loop threshold h stop r p [] = (r, p, [])"
| "run_loop threshold h stop r p (cid # cids) =
     (if threshold \<le> tracker_misses threshold r h cid
      then (case run_loop threshold h stop (forget r h cid) (stop cid p) cids of
              (r', p', stopped) \<Rightarrow> (r', p', cid # stopped))
      else run_loop threshold h stop r p cids)"

definition run_once :: "int \<Rightarrow> string \<Rightarrow> (string \<Rightarrow> 'p \<Rightarrow> 'p) \<Rightarrow> 'cb registry \<Rightarrow> 'p \<Rightarrow> string list
    \<Rightarrow> 'cb registry \<times> 'p \<times> string list" where
  "run_once threshold h stop r p snapshot = run_loop threshold h stop (snd (state_for r h)) p snapshot"

text \<open>A container is overdue when the registry does not know it or it missed enough listings.\<close>

definition overdue :: "int \<Rightarrow> 'cb registry \<Rightarrow> string \<Rightarrow> string \<Rightarrow> bool" where
  "overdue threshold r h cid =
     (case misses r h cid of None \<Rightarrow> True | Some n \<Rightarrow> threshold \<le> n)"

lemma tracker_misses_overdue: "threshold \<le> tracker_misses threshold r h cid \<longleftrightarrow> overdue threshold r h cid"
  by (auto simp: tracker_misses_def overdue_def misses_def known_def seq_of_def state_for_def
      new_daemon_state_def Let_def split: option.splits)

lemma overdue_forget:
  "overdue threshold (forget r h c) h' c' \<longleftrightarrow> h' = h \<and> c' = c \<or> overdue threshold r h' c'"
  using reg.miss_forgotten [of r h c h' c'] by (auto simp: overdue_def)

lemma overdue_state_for [simp]: "overdue threshold (snd (state_for r h)) h' c = overdue threshold r h' c"
  by (simp add: overdue_def misses_def)

locale listener_pool =
  fixes active_ids :: "'p \<Rightarrow> string set"
    and stop_one :: "string \<Rightarrow> 'p \<Rightarrow> 'p"
  assumes stop_removes: "active_ids (stop_one c p) = active_ids p - {c}"
begin

lemma run_loop_result:
  "run_loop threshold h stop_one r p cids = (r', p', stopped) \<Longrightarrow>
   set stopped = {c \<in> set cids. overdue threshold r h c} \<and>
   active_ids p' = active_ids p - set stopped \<and>
   (\<forall>h' c. known r' h' c = (if h' = h \<and> c \<in> set stopped then None else known r h' c)) \<and>
   (\<forall>h'. seq_of r' h' = seq_of r h') \<and> callback r' = callback r"
proof (induction cids arbitrary: r p r' p' stopped)
  case Nil
  then show ?case by auto
next
  case (Cons c cids)
  show ?case
  proof (cases "overdue threshold r h c")
    case True
    obtain r2 p2 st2 where
      rec: "run_loop threshold h stop_one (forget r h c) (stop_one c p) cids = (r2, p2, st2)"
      by (metis prod_cases3)
    then have "r' = r2" "p' = p2" "stopped = c # st2"
      using Cons.prems True by (simp_all add: tracker_misses_overdue)
    then show ?thesis
      using Cons.IH [OF rec] True by (auto simp: stop_removes known_forget overdue_forget)
  next
    case False
    then have "run_loop threshold h stop_one r p cids = (r', p', stopped)"
      using Cons.prems by (simp add: tracker_misses_overdue)
    from Cons.IH [OF this] False show ?thesis by auto
  qed
qed

lemma run_once_result:
  assumes "run_once threshold h stop_one r p snapshot = (r', p', stopped)"
    and "set snapshot = active_ids p"
  shows "active_ids p' = {c \<in> active_ids p. \<not> overdue threshold r h c}"
    and "set stopped = {c \<in> active_ids p. overdue threshold r h c}"
    and "known r' h' c = (if h' = h \<and> c \<in> set stopped then None else known r h' c)"
  using run_loop_result [OF assms(1) [unfolded run_once_def]] assms(2) by auto

text \<open>A second run right after changes nothing: the survivors are not overdue.\<close>

lemma run_once_idempotent:
  assumes "run_once threshold h stop_one r p snapshot = (r', p', stopped)"
    and "set snapshot = active_ids p" and "set snapshot' = active_ids p'"
  shows "snd (snd (run_once threshold h stop_one r' p' snapshot')) = []"
proof -
  obtain r2 p2 st2 where second: "run_once threshold h stop_one r' p' snapshot' = (r2, p2, st2)"
    by (metis prod_cases3)
  have "overdue threshold r' h c = overdue threshold r h c" if "c \<in> active_ids p'" for c
  proof -
    have "known r' h c = known r h c"
      using run_once_result [OF assms(1,2)] that by auto
    moreover have "seq_of r' h = seq_of r h"
      using run_loop_result [OF assms(1) [unfolded run_once_def]] by simp
    ultimately show ?thesis by (simp add: overdue_def misses_def)
  qed
  then have "set st2 = {}"
    using run_once_result(2) [OF second assms(3)] run_once_result(1) [OF assms(1,2)] by auto
  then show ?thesis using second by simp
qed

end

end
