(* ===== verification/Listener_Manager.thy ===== *)
theory Listener_Manager
  imports Container_Tracker
begin

text \<open>
  \<open>ListenerManager\<close> of \<^verbatim>\<open>log_sump_listener/app.py\<close>, one per daemon, over the part of the
  event loop it uses: a table of tasks and the spawn semaphore's permits. Each definition is
  a stretch of a method between two \<open>await\<close>s, which asyncio runs without interruption; the
  theory \<open>Orchestrator\<close> interleaves them. A task that ended is \<open>Done\<close> until its done
  callback has run, then \<open>Collected\<close>.

  \<open>stop\<close> is the whole method when nothing runs between its \<open>await\<close>s; with it the manager
  is a \<open>listener_pool\<close> for the tracker (interpretation \<open>pool\<close>).
\<close>

datatype outcome = Finished | Cancelled | Failed py_error

datatype task_state = Running | Cancelling | Done outcome | Collected outcome

record task =
  task_host :: string
  task_cid :: string
  task_cname :: string
  task_st :: task_state

record evloop =
  task_table :: "nat \<rightharpoonup> task"
  next_task :: nat
  permits :: int

record manager =
  mgr_host :: string
  mgr_tasks :: "string \<rightharpoonup> nat"

definition new_manager :: "string \<Rightarrow> manager" where
  "new_manager h = \<lparr>mgr_host = h, mgr_tasks = Map.empty\<rparr>"

definition active_container_ids :: "manager \<Rightarrow> string set" where
  "active_container_ids m = dom (mgr_tasks m)"

text \<open>\<open>asyncio.create_task(run_container_listener(...))\<close>.\<close>

definition create_task :: "evloop \<Rightarrow> string \<Rightarrow> string \<Rightarrow> string \<Rightarrow> nat \<times> evloop" where
  "create_task ev h cid cn =
     (next_task ev,
      ev\<lparr>task_table := (task_table ev)(next_task ev \<mapsto> \<lparr>task_host = h, task_cid = cid, task_cname = cn, task_st = Running\<rparr>),
         next_task := Suc (next_task ev)\<rparr>)"

text \<open>\<open>spawn\<close> before the semaphore, and inside it up to the logging call.\<close>

definition spawn_is_known :: "manager \<Rightarrow> container_ref \<Rightarrow> bool" where
  "spawn_is_known m ref \<longleftrightarrow> ref_id ref \<in> active_container_ids m"

definition spawn_locked :: "manager \<Rightarrow> evloop \<Rightarrow> container_ref \<Rightarrow> (manager \<times> evloop) option" where
  "spawn_locked m ev ref =
     (if spawn_is_known m ref then None
      else case create_task ev (mgr_host m) (ref_id ref) (ref_name ref) of (tid, ev') \<Rightarrow>
        Some (m\<lparr>mgr_tasks := (mgr_tasks m)(ref_id ref \<mapsto> tid)\<rparr>, ev'))"

text \<open>The done callback: the entry is dropped only when it is this very task's.\<close>

definition on_done :: "manager \<Rightarrow> string \<Rightarrow> nat \<Rightarrow> manager" where
  "on_done m cid tid =
     (if mgr_tasks m cid = Some tid then m\<lparr>mgr_tasks := (mgr_tasks m)(cid := None)\<rparr> else m)"

definition stop_pop :: "manager \<Rightarrow> string \<Rightarrow> nat option \<times> manager" where
  "stop_pop m cid = (mgr_tasks m cid, m\<lparr>mgr_tasks := (mgr_tasks m)(cid := None)\<rparr>)"

text \<open>\<open>task.cancel()\<close>: no effect on a task that has already ended.\<close>

definition cancel_task :: "evloop \<Rightarrow> nat \<Rightarrow> evloop" where
  "cancel_task ev tid =
     (case task_table ev tid of
        Some t \<Rightarrow>
          if task_st t = Running
          then ev\<lparr>task_table := (task_table ev)(tid \<mapsto> t\<lparr>task_st := Cancelling\<rparr>)\<rparr> else ev
      | None \<Rightarrow> ev)"

definition stop :: "string \<Rightarrow> manager \<times> evloop \<Rightarrow> manager \<times> evloop" where
  "stop cid p =
     (case stop_pop (fst p) cid of
        (None, m') \<Rightarrow> (fst p, snd p)
      | (Some tid, m') \<Rightarrow> (m', cancel_task (snd p) tid))"

lemma mgr_host_ops [simp]:
  "mgr_host (on_done m c tid) = mgr_host m" "mgr_host (snd (stop_pop m c)) = mgr_host m"
  by (simp_all add: on_done_def stop_pop_def)

lemma mgr_tasks_on_done:
  "mgr_tasks (on_done m c tid) c' = (if c' = c \<and> mgr_tasks m c = Some tid then None else mgr_tasks m c')"
  by (simp add: on_done_def)

lemma mgr_tasks_stop_pop [simp]:
  "mgr_tasks (snd (stop_pop m c)) c' = (if c' = c then None else mgr_tasks m c')"
  "fst (stop_pop m c) = mgr_tasks m c"
  by (simp_all add: stop_pop_def)

interpretation pool: listener_pool "\<lambda>p. active_container_ids (fst p)" stop
  by unfold_locales (auto simp: stop_def stop_pop_def active_container_ids_def split: option.splits)

text \<open>
  One run of the tracker stops exactly the active listeners whose container the registry
  does not know or has missed for \<open>threshold\<close> listings; the others stay active, the
  registry forgets exactly the stopped containers, and no other daemon's entry changes.
\<close>

lemma tracker_stops_exactly_overdue:
  assumes "run_once threshold h stop r (m, ev) snapshot = (r', (m', ev'), stopped)"
    and "set snapshot = active_container_ids m"
  shows "active_container_ids m' = {c \<in> active_container_ids m. \<not> overdue threshold r h c} \<and>
    set stopped = {c \<in> active_container_ids m. overdue threshold r h c} \<and>
    (\<forall>h' c. known r' h' c = (if h' = h \<and> c \<in> set stopped then None else known r h' c))"
  using pool.run_once_result [OF assms(1)] assms(2) by simp

lemma tracker_stops_exactly_overdue_example:
  "let m = \<lparr>mgr_host = ''d'', mgr_tasks = [''c'' \<mapsto> 0]\<rparr>;
       ev = \<lparr>task_table = [0 \<mapsto> \<lparr>task_host = ''d'', task_cid = ''c'', task_cname = ''web'', task_st = Running\<rparr>],
             next_task = 1, permits = 10\<rparr>;
       out = run_once 3 ''d'' stop (new_registry :: unit registry) (m, ev) [''c'']
   in active_container_ids (fst (fst (snd out))) = {}"
proof -
  let ?m = "\<lparr>mgr_host = ''d'', mgr_tasks = [''c'' \<mapsto> 0]\<rparr>"
  let ?ev = "\<lparr>task_table = [0 \<mapsto> \<lparr>task_host = ''d'', task_cid = ''c'', task_cname = ''web'', task_st = Running\<rparr>],
             next_task = 1, permits = 10\<rparr>"
  obtain r' m' ev' stopped where
    run: "run_once 3 ''d'' stop (new_registry :: unit registry) (?m, ?ev) [''c''] = (r', (m', ev'), stopped)"
    by (metis prod.exhaust)
  have "overdue 3 (new_registry :: unit registry) ''d'' ''c''"
    by (simp add: overdue_def misses_def known_def new_registry_def)
  then have "active_container_ids m' = {}"
    using tracker_stops_exactly_overdue [OF run] by (auto simp: active_container_ids_def)
  then show ?thesis unfolding Let_def run by simp
qed

text \<open>
  C12. The miss count of the specification, for a whole history of \<open>docker ps\<close> cycles: a
  container last seen in listing \<open>l\<close> and absent from the \<open>length ls\<close> listings after it is
  stopped by the next run exactly when that number has reached the threshold, whatever was
  listed before \<open>l\<close>. A flaky cycle therefore never tears down a healthy listener, and a
  reappearance starts the count again.
\<close>

theorem stopped_after_threshold_absences:
  assumes "c \<in> ref_id ` set l" and "\<forall>l'\<in>set ls. c \<notin> ref_id ` set l'"
    and "set snapshot = active_container_ids m" and "c \<in> active_container_ids m"
    and "r' = foldl (\<lambda>r l. fst (update r h l)) r (pre @ l # ls)"
  shows "c \<in> set (snd (snd (run_once threshold h stop r' (m, ev) snapshot))) \<longleftrightarrow>
    threshold \<le> int (length ls)"
proof -
  have "misses r' h c = Some (int (length ls))"
    unfolding assms(5) using assms(1,2) by (rule reg.miss_since_listed)
  then have "overdue threshold r' h c \<longleftrightarrow> threshold \<le> int (length ls)"
    by (simp add: overdue_def)
  moreover obtain r2 p2 st2 where run: "run_once threshold h stop r' (m, ev) snapshot = (r2, p2, st2)"
    by (metis prod_cases3)
  ultimately show ?thesis using pool.run_once_result(2) [OF run] assms(3,4) by simp
qed

theorem stopped_after_threshold_absences_witness:
  "let web = \<lparr>ref_id = ''c1'', ref_name = ''web''\<rparr>;
       m = \<lparr>mgr_host = ''d'', mgr_tasks = [''c1'' \<mapsto> 0]\<rparr>;
       ev = \<lparr>task_table = Map.empty, next_task = 1, permits = 10\<rparr>;
       two = foldl (\<lambda>r l. fst (update r ''d'' l)) (new_registry :: unit registry) ([] @ [web] # [[], []]);
       three = foldl (\<lambda>r l. fst (update r ''d'' l)) (new_registry :: unit registry) ([] @ [web] # [[], [], []])
   in ''c1'' \<notin> set (snd (snd (run_once 3 ''d'' stop two (m, ev) [''c1'']))) \<and>
      ''c1'' \<in> set (snd (snd (run_once 3 ''d'' stop three (m, ev) [''c1''])))"
proof -
  let ?web = "\<lparr>ref_id = ''c1'', ref_name = ''web''\<rparr>"
  let ?m = "\<lparr>mgr_host = ''d'', mgr_tasks = [''c1'' \<mapsto> 0]\<rparr> :: manager"
  have act: "set [''c1''] = active_container_ids ?m" "''c1'' \<in> active_container_ids ?m"
    and listed: "''c1'' \<in> ref_id ` set [?web]"
    by (simp_all add: active_container_ids_def)
  note inst = stopped_after_threshold_absences
    [OF listed _ act refl, where threshold = 3 and h = "''d''" and pre = "[]" and
      r = "new_registry :: unit registry" and
      ev = "\<lparr>task_table = Map.empty, next_task = 1, permits = 10\<rparr>"]
  show ?thesis
    unfolding Let_def using inst [of "[[], []]"] inst [of "[[], [], []]"] by (simp del: append.simps foldl_append)
qed

end
