(* ===== verification/Orchestrator.thy ===== *)
theory Orchestrator
  imports Listener_Manager
begin

text \<open>
  The listener process as one transition system: for every daemon a containers-listing loop
  and a container-tracker loop, the managers, the shared registry and the event loop. A step
  is what asyncio runs between two \<open>await\<close>s: \<^verbatim>\<open>registry.py\<close> \<open>update\<close> and the dispatcher of
  \<^verbatim>\<open>app.py\<close> walking the new refs, \<open>spawn\<close> before, at and after the semaphore, \<open>run_once\<close>
  before and after each logging call and \<open>stop\<close>, a listener task ending, its done callback.
  The program counters of the two loops hold what the coroutine has left to do.

  Lemmas: an invariant by rule induction (registered task and running task correspond), the
  semaphore's account, progress of the notification loop, and what becomes of a container
  whose listener ended by itself.
\<close>

datatype listing_pc =
    LIdle
  | LNotify "container_ref list"
  | LAcquire container_ref "container_ref list"
  | LLog container_ref "container_ref list"
  | LDead py_error

datatype tracker_pc =
    TIdle
  | TLoop "string list"
  | TLog string "string list"
  | TAwait string nat "string list"
  | TDead py_error

record system =
  sys_reg :: "unit registry"
  sys_mgrs :: "string \<rightharpoonup> manager"
  sys_ev :: evloop
  sys_lpc :: "string \<Rightarrow> listing_pc"
  sys_tpc :: "string \<Rightarrow> tracker_pc"

definition set_lpc :: "system \<Rightarrow> string \<Rightarrow> listing_pc \<Rightarrow> system" where
  "set_lpc s h pc = s\<lparr>sys_lpc := (sys_lpc s)(h := pc)\<rparr>"

definition set_tpc :: "system \<Rightarrow> string \<Rightarrow> tracker_pc \<Rightarrow> system" where
  "set_tpc s h pc = s\<lparr>sys_tpc := (sys_tpc s)(h := pc)\<rparr>"

definition set_mgr :: "system \<Rightarrow> string \<Rightarrow> manager \<Rightarrow> system" where
  "set_mgr s h m = s\<lparr>sys_mgrs := (sys_mgrs s)(h \<mapsto> m)\<rparr>"

definition set_ev :: "system \<Rightarrow> evloop \<Rightarrow> system" where
  "set_ev s ev = s\<lparr>sys_ev := ev\<rparr>"

definition set_reg :: "system \<Rightarrow> unit registry \<Rightarrow> system" where
  "set_reg s r = s\<lparr>sys_reg := r\<rparr>"

lemmas setter_defs = set_lpc_def set_tpc_def set_mgr_def set_ev_def set_reg_def

lemma setter_simps [simp]:
  "sys_lpc (set_lpc s h pc) = (sys_lpc s)(h := pc)" "sys_tpc (set_lpc s h pc) = sys_tpc s"
  "sys_mgrs (set_lpc s h pc) = sys_mgrs s" "sys_ev (set_lpc s h pc) = sys_ev s"
  "sys_reg (set_lpc s h pc) = sys_reg s"
  "sys_tpc (set_tpc s h tp) = (sys_tpc s)(h := tp)" "sys_lpc (set_tpc s h tp) = sys_lpc s"
  "sys_mgrs (set_tpc s h tp) = sys_mgrs s" "sys_ev (set_tpc s h tp) = sys_ev s"
  "sys_reg (set_tpc s h tp) = sys_reg s"
  "sys_mgrs (set_mgr s h m) = (sys_mgrs s)(h \<mapsto> m)" "sys_lpc (set_mgr s h m) = sys_lpc s"
  "sys_tpc (set_mgr s h m) = sys_tpc s" "sys_ev (set_mgr s h m) = sys_ev s"
  "sys_reg (set_mgr s h m) = sys_reg s"
  "sys_ev (set_ev s ev) = ev" "sys_lpc (set_ev s ev) = sys_lpc s"
  "sys_tpc (set_ev s ev) = sys_tpc s" "sys_mgrs (set_ev s ev) = sys_mgrs s"
  "sys_reg (set_ev s ev) = sys_reg s"
  "sys_reg (set_reg s r) = r" "sys_lpc (set_reg s r) = sys_lpc s"
  "sys_tpc (set_reg s r) = sys_tpc s" "sys_mgrs (set_reg s r) = sys_mgrs s"
  "sys_ev (set_reg s r) = sys_ev s"
  by (simp_all add: setter_defs)

definition end_task :: "evloop \<Rightarrow> nat \<Rightarrow> task_state \<Rightarrow> evloop" where
  "end_task ev tid st =
     ev\<lparr>task_table := (\<lambda>i. if i = tid then map_option (task_st_update (\<lambda>_. st)) (task_table ev tid)
        else task_table ev i)\<rparr>"

definition acquire :: "evloop \<Rightarrow> evloop" where
  "acquire ev = ev\<lparr>permits := permits ev - 1\<rparr>"

definition release :: "evloop \<Rightarrow> evloop" where
  "release ev = ev\<lparr>permits := permits ev + 1\<rparr>"

text \<open>
  \<open>run\<close>: one manager per enabled daemon, one registry, one semaphore, one dispatcher. \<open>hosts\<close>
  are the ids of the enabled daemons, taken as distinct: \<open>sys_lpc\<close> and \<open>sys_tpc\<close> hold one listing
  and one tracker loop per id. (The code does not check it: of two daemons configured with the
  same id it would start two of each loop over one manager.)
\<close>

definition init_system :: "string list \<Rightarrow> int \<Rightarrow> system" where
  "init_system hosts cap =
     \<lparr>sys_reg = on_new_container new_registry (),
      sys_mgrs = (\<lambda>h. if h \<in> set hosts then Some (new_manager h) else None),
      sys_ev = \<lparr>task_table = Map.empty, next_task = 0, permits = cap\<rparr>,
      sys_lpc = (\<lambda>h. LIdle), sys_tpc = (\<lambda>h. TIdle)\<rparr>"

inductive sys_step :: "string list \<Rightarrow> int \<Rightarrow> system \<Rightarrow> system \<Rightarrow> bool" for hosts thr where
  listing: "\<lbrakk>h \<in> set hosts; sys_lpc s h = LIdle; update (sys_reg s) h l = (r', refs)\<rbrakk> \<Longrightarrow>
    sys_step hosts thr s (set_reg (set_lpc s h (LNotify refs)) r')"
| notify_done: "sys_lpc s h = LNotify [] \<Longrightarrow> sys_step hosts thr s (set_lpc s h LIdle)"
| notify_unrouted: "\<lbrakk>sys_lpc s h = LNotify (ref # refs); sys_mgrs s h = None\<rbrakk> \<Longrightarrow>
    sys_step hosts thr s (set_lpc s h (LDead KeyError))"
| notify_known: "\<lbrakk>sys_lpc s h = LNotify (ref # refs); sys_mgrs s h = Some m; spawn_is_known m ref\<rbrakk> \<Longrightarrow>
    sys_step hosts thr s (set_lpc s h (LNotify refs))"
| notify_new: "\<lbrakk>sys_lpc s h = LNotify (ref # refs); sys_mgrs s h = Some m; \<not> spawn_is_known m ref\<rbrakk> \<Longrightarrow>
    sys_step hosts thr s (set_lpc s h (LAcquire ref refs))"
| acquire_lost: "\<lbrakk>sys_lpc s h = LAcquire ref refs; 0 < permits (sys_ev s); sys_mgrs s h = Some m;
    spawn_locked m (sys_ev s) ref = None\<rbrakk> \<Longrightarrow>
    sys_step hosts thr s (set_lpc s h (LNotify refs))"
| acquire_spawn: "\<lbrakk>sys_lpc s h = LAcquire ref refs; 0 < permits (sys_ev s); sys_mgrs s h = Some m;
    spawn_locked m (sys_ev s) ref = Some (m', ev')\<rbrakk> \<Longrightarrow>
    sys_step hosts thr s (set_ev (set_mgr (set_lpc s h (LLog ref refs)) h m') (acquire ev'))"
| logged: "sys_lpc s h = LLog ref refs \<Longrightarrow>
    sys_step hosts thr s (set_ev (set_lpc s h (LNotify refs)) (release (sys_ev s)))"
| tick: "\<lbrakk>h \<in> set hosts; sys_tpc s h = TIdle; sys_mgrs s h = Some m;
    set cids = active_container_ids m; distinct cids\<rbrakk> \<Longrightarrow>
    sys_step hosts thr s (set_reg (set_tpc s h (TLoop cids)) (snd (state_for (sys_reg s) h)))"
| track_end: "sys_tpc s h = TLoop [] \<Longrightarrow> sys_step hosts thr s (set_tpc s h TIdle)"
| track_keep: "\<lbrakk>sys_tpc s h = TLoop (c # cs); \<not> thr \<le> tracker_misses thr (sys_reg s) h c\<rbrakk> \<Longrightarrow>
    sys_step hosts thr s (set_tpc s h (TLoop cs))"
| track_stop: "\<lbrakk>sys_tpc s h = TLoop (c # cs); thr \<le> tracker_misses thr (sys_reg s) h c\<rbrakk> \<Longrightarrow>
    sys_step hosts thr s (set_tpc s h (TLog c cs))"
| stop_gone: "\<lbrakk>sys_tpc s h = TLog c cs; sys_mgrs s h = Some m; stop_pop m c = (None, m')\<rbrakk> \<Longrightarrow>
    sys_step hosts thr s (set_reg (set_tpc s h (TLoop cs)) (forget (sys_reg s) h c))"
| stop_cancel: "\<lbrakk>sys_tpc s h = TLog c cs; sys_mgrs s h = Some m; stop_pop m c = (Some tid, m')\<rbrakk> \<Longrightarrow>
    sys_step hosts thr s
      (set_ev (set_mgr (set_tpc s h (TAwait c tid cs)) h m') (cancel_task (sys_ev s) tid))"
| awaited: "\<lbrakk>sys_tpc s h = TAwait c tid cs; task_table (sys_ev s) tid = Some t;
    task_st t \<in> {Done Finished, Done Cancelled, Collected Finished, Collected Cancelled}\<rbrakk> \<Longrightarrow>
    sys_step hosts thr s (set_reg (set_tpc s h (TLoop cs)) (forget (sys_reg s) h c))"
| awaited_crash: "\<lbrakk>sys_tpc s h = TAwait c tid cs; task_table (sys_ev s) tid = Some t;
    task_st t \<in> {Done (Failed e), Collected (Failed e)}\<rbrakk> \<Longrightarrow>
    sys_step hosts thr s (set_tpc s h (TDead e))"
| task_end: "\<lbrakk>task_table (sys_ev s) tid = Some t; task_st t \<in> {Running, Cancelling};
    task_st t = Running \<longrightarrow> out \<noteq> Cancelled\<rbrakk> \<Longrightarrow>
    sys_step hosts thr s (set_ev s (end_task (sys_ev s) tid (Done out)))"
| done_cb: "\<lbrakk>task_table (sys_ev s) tid = Some t; task_st t = Done out;
    sys_mgrs s (task_host t) = Some m\<rbrakk> \<Longrightarrow>
    sys_step hosts thr s
      (set_ev (set_mgr s (task_host t) (on_done m (task_cid t) tid))
        (end_task (sys_ev s) tid (Collected out)))"

abbreviation sys_steps :: "string list \<Rightarrow> int \<Rightarrow> system \<Rightarrow> system \<Rightarrow> bool" where
  "sys_steps hosts thr \<equiv> (sys_step hosts thr)\<^sup>*\<^sup>*"

definition reachable :: "string list \<Rightarrow> int \<Rightarrow> int \<Rightarrow> system \<Rightarrow> bool" where
  "reachable hosts thr cap s \<longleftrightarrow> sys_steps hosts thr (init_system hosts cap) s"

section \<open>Registered and running tasks correspond\<close>

definition registered :: "system \<Rightarrow> string \<Rightarrow> string \<Rightarrow> nat option" where
  "registered s h c = (case sys_mgrs s h of None \<Rightarrow> None | Some m \<Rightarrow> mgr_tasks m c)"

definition task_of :: "system \<Rightarrow> nat \<Rightarrow> task option" where
  "task_of s tid = task_table (sys_ev s) tid"

definition runs :: "system \<Rightarrow> nat \<Rightarrow> string \<Rightarrow> string \<Rightarrow> bool" where
  "runs s tid h c \<longleftrightarrow> (\<exists>t. task_of s tid = Some t \<and> task_host t = h \<and> task_cid t = c \<and> task_st t = Running)"

definition task_inv :: "system \<Rightarrow> bool" where
  "task_inv s \<longleftrightarrow>
     (\<forall>h m. sys_mgrs s h = Some m \<longrightarrow> mgr_host m = h) \<and>
     (\<forall>h c tid. registered s h c = Some tid \<longrightarrow>
        (\<exists>t. task_of s tid = Some t \<and> task_host t = h \<and> task_cid t = c \<and>
             (task_st t = Running \<or> (\<exists>out. task_st t = Done out)))) \<and>
     (\<forall>tid h c. runs s tid h c \<longrightarrow> registered s h c = Some tid) \<and>
     (\<forall>tid. task_of s tid \<noteq> None \<longrightarrow> tid < next_task (sys_ev s))"

lemma task_inv_D:
  assumes "task_inv s"
  shows "sys_mgrs s h = Some m \<Longrightarrow> mgr_host m = h"
    and "registered s h c = Some tid \<Longrightarrow> \<exists>t. task_of s tid = Some t \<and> task_host t = h \<and>
      task_cid t = c \<and> (task_st t = Running \<or> (\<exists>out. task_st t = Done out))"
    and "runs s tid h c \<Longrightarrow> registered s h c = Some tid"
    and "task_of s tid \<noteq> None \<Longrightarrow> tid < next_task (sys_ev s)"
  using assms unfolding task_inv_def by blast+

lemma task_inv_frame:
  assumes "task_inv s" and "sys_mgrs s' = sys_mgrs s" and "task_table (sys_ev s') = task_table (sys_ev s)"
    and "next_task (sys_ev s') = next_task (sys_ev s)"
  shows "task_inv s'"
  using assms unfolding task_inv_def registered_def runs_def task_of_def by simp

lemma task_inv_init: "task_inv (init_system hosts cap)"
  by (auto simp: task_inv_def init_system_def registered_def runs_def task_of_def new_manager_def
      split: option.splits if_splits)


text \<open>The four steps that touch a manager or the task table.\<close>

lemma spawn_locked_Some:
  assumes "spawn_locked m ev ref = Some (m', ev')"
  shows "mgr_tasks m (ref_id ref) = None"
    and "m' = m\<lparr>mgr_tasks := (mgr_tasks m)(ref_id ref \<mapsto> next_task ev)\<rparr>"
    and "task_table ev' = (task_table ev)(next_task ev \<mapsto>
      \<lparr>task_host = mgr_host m, task_cid = ref_id ref, task_cname = ref_name ref, task_st = Running\<rparr>)"
    and "next_task ev' = Suc (next_task ev)" and "permits ev' = permits ev"
  using assms
  by (auto simp: spawn_locked_def spawn_is_known_def active_container_ids_def create_task_def
      split: if_splits)

lemma acquire_simps [simp]:
  "task_table (acquire ev) = task_table ev" "next_task (acquire ev) = next_task ev"
  "permits (acquire ev) = permits ev - 1" "task_table (release ev) = task_table ev"
  "next_task (release ev) = next_task ev" "permits (release ev) = permits ev + 1"
  by (simp_all add: acquire_def release_def)

lemma end_task_simps [simp]:
  "next_task (end_task ev tid st) = next_task ev" "permits (end_task ev tid st) = permits ev"
  "task_table (end_task ev tid st) i =
    (if i = tid then map_option (task_st_update (\<lambda>_. st)) (task_table ev tid) else task_table ev i)"
  by (simp_all add: end_task_def)

lemma cancel_task_simps [simp]:
  "next_task (cancel_task ev tid) = next_task ev" "permits (cancel_task ev tid) = permits ev"
  "task_table (cancel_task ev tid) i =
    (if i = tid then map_option (\<lambda>t. if task_st t = Running then t\<lparr>task_st := Cancelling\<rparr> else t)
       (task_table ev tid) else task_table ev i)"
  by (auto simp: cancel_task_def split: option.splits)

lemma task_inv_spawn:
  assumes inv: "task_inv s" and m: "sys_mgrs s h = Some m"
    and sp: "spawn_locked m (sys_ev s) ref = Some (m', ev')"
    and s': "sys_mgrs s' = (sys_mgrs s)(h \<mapsto> m')" "task_table (sys_ev s') = task_table ev'"
      "next_task (sys_ev s') = next_task ev'"
  shows "task_inv s'"
proof -
  note sp' = spawn_locked_Some [OF sp]
  let ?n = "next_task (sys_ev s)"
  have host: "mgr_host m = h" using task_inv_D(1) [OF inv m] .
  have fresh: "task_of s ?n = None" using task_inv_D(4) [OF inv, of ?n] by (cases "task_of s ?n") auto
  have none: "registered s h (ref_id ref) = None" using sp'(1) m by (simp add: registered_def)
  have reg: "registered s' h' c = (if h' = h \<and> c = ref_id ref then Some ?n else registered s h' c)" for h' c
    using m by (auto simp: registered_def s'(1) sp'(2))
  have tsk: "task_of s' i = (if i = ?n then Some \<lparr>task_host = h, task_cid = ref_id ref, task_cname = ref_name ref, task_st = Running\<rparr>
      else task_of s i)" for i
    by (simp add: task_of_def s'(2) sp'(3) host)
  have runs: "runs s' i h' c \<longleftrightarrow> (if i = ?n then h' = h \<and> c = ref_id ref else runs s i h' c)" for i h' c
    by (auto simp: runs_def tsk)
  have "\<exists>t. task_of s' tid = Some t \<and> task_host t = h' \<and> task_cid t = c \<and>
      (task_st t = Running \<or> (\<exists>out. task_st t = Done out))" if "registered s' h' c = Some tid" for h' c tid
  proof (cases "h' = h \<and> c = ref_id ref")
    case False
    then have r: "registered s h' c = Some tid" using that by (auto simp: reg)
    then have "tid \<noteq> ?n" using task_inv_D(2) [OF inv r] fresh by auto
    then show ?thesis using task_inv_D(2) [OF inv r] by (simp add: tsk)
  qed (use that in \<open>auto simp: reg tsk\<close>)
  moreover have "registered s' h' c = Some i" if "runs s' i h' c" for i h' c
    using that task_inv_D(3) [OF inv, of i h' c] none by (auto simp: runs reg split: if_splits)
  moreover have "i < next_task (sys_ev s')" if "task_of s' i \<noteq> None" for i
    using that task_inv_D(4) [OF inv, of i] by (auto simp: tsk s'(3) sp'(4) split: if_splits)
  moreover have "mgr_host m2 = h'" if "sys_mgrs s' h' = Some m2" for h' m2
    using that task_inv_D(1) [OF inv, of h' m2] host by (auto simp: s'(1) sp'(2) split: if_splits)
  ultimately show ?thesis unfolding task_inv_def by blast
qed

text \<open>Dropping the entry of a task that is no longer (or will not stay) running.\<close>

lemma task_inv_drop:
  assumes inv: "task_inv s" and m: "sys_mgrs s h = Some m"
    and m': "mgr_host m' = mgr_host m"
      "\<And>c'. mgr_tasks m' c' = (if c' = c \<and> mgr_tasks m c = Some tid then None else mgr_tasks m c')"
    and s': "sys_mgrs s' = (sys_mgrs s)(h \<mapsto> m')" "next_task (sys_ev s') = next_task (sys_ev s)"
      "\<And>i. i \<noteq> tid \<Longrightarrow> task_of s' i = task_of s i"
      "task_of s' tid = map_option f (task_of s tid)"
    and f: "\<And>t. task_of s tid = Some t \<Longrightarrow> task_st (f t) = Running \<Longrightarrow> False"
      "\<And>h' c'. registered s h' c' = Some tid \<Longrightarrow> h' = h \<and> c' = c"
  shows "task_inv s'"
proof -
  have reg: "registered s' h' c' = (if h' = h \<and> c' = c \<and> mgr_tasks m c = Some tid then None
      else registered s h' c')" for h' c'
    using m by (auto simp: registered_def s'(1) m')
  have "\<exists>t. task_of s' i = Some t \<and> task_host t = h' \<and> task_cid t = c' \<and>
      (task_st t = Running \<or> (\<exists>out. task_st t = Done out))" if r': "registered s' h' c' = Some i" for h' c' i
  proof -
    have r: "registered s h' c' = Some i" using r' by (auto simp: reg split: if_splits)
    have "i \<noteq> tid"
    proof
      assume "i = tid"
      with r f(2) have "h' = h" "c' = c" by auto
      moreover from this r m have "mgr_tasks m c = Some tid" using \<open>i = tid\<close> by (simp add: registered_def)
      ultimately show False using r' reg [of h' c'] by simp
    qed
    with task_inv_D(2) [OF inv r] show ?thesis by (simp add: s'(3))
  qed
  moreover have "registered s' h' c' = Some i" if run: "runs s' i h' c'" for i h' c'
  proof -
    have i: "i \<noteq> tid" using run f(1) by (auto simp: runs_def s'(4))
    then have "runs s i h' c'" using run by (simp add: runs_def s'(3))
    then have "registered s h' c' = Some i" by (rule task_inv_D(3) [OF inv])
    then show ?thesis using i m reg [of h' c'] by (auto simp: registered_def [of s])
  qed
  moreover have "i < next_task (sys_ev s')" if "task_of s' i \<noteq> None" for i
    using that task_inv_D(4) [OF inv, of i] by (cases "i = tid") (auto simp: s')
  moreover have "mgr_host m2 = h'" if "sys_mgrs s' h' = Some m2" for h' m2
    using that task_inv_D(1) [OF inv] m m' by (auto simp: s'(1) split: if_splits)
  ultimately show ?thesis unfolding task_inv_def by blast
qed

lemma task_inv_end:
  assumes inv: "task_inv s" and t: "task_table (sys_ev s) tid = Some t"
    and s': "s' = set_ev s (end_task (sys_ev s) tid (Done out))"
  shows "task_inv s'"
  unfolding task_inv_def
proof (intro conjI allI impI)
  fix h m assume "sys_mgrs s' h = Some m"
  then show "mgr_host m = h" using task_inv_D(1) [OF inv] by (simp add: s')
next
  fix h c i assume "registered s' h c = Some i"
  then have "registered s h c = Some i" by (simp add: s' registered_def)
  from task_inv_D(2) [OF inv this]
  show "\<exists>t. task_of s' i = Some t \<and> task_host t = h \<and> task_cid t = c \<and>
      (task_st t = Running \<or> (\<exists>out. task_st t = Done out))"
    by (auto simp: s' task_of_def)
next
  fix i h c assume "runs s' i h c"
  then have "runs s i h c" by (auto simp: s' runs_def task_of_def split: if_splits)
  then show "registered s' h c = Some i" using task_inv_D(3) [OF inv] by (simp add: s' registered_def)
next
  fix i assume "task_of s' i \<noteq> None"
  then show "i < next_task (sys_ev s')"
    using task_inv_D(4) [OF inv, of i] by (auto simp: s' task_of_def split: if_splits)
qed

lemma task_inv_step:
  assumes "sys_step hosts thr s s'" and inv: "task_inv s"
  shows "task_inv s'"
  using assms
proof (cases rule: sys_step.cases)
  case (acquire_spawn h ref refs m m' ev')
  then show ?thesis by (intro task_inv_spawn [OF inv]) auto
next
  case (stop_cancel h c cs m tid m')
  have r: "registered s h c = Some tid" using stop_cancel by (simp add: registered_def stop_pop_def)
  have only: "h' = h \<and> c' = c" if "registered s h' c' = Some tid" for h' c'
    using task_inv_D(2) [OF inv that] task_inv_D(2) [OF inv r] by auto
  show ?thesis
    by (rule task_inv_drop [OF inv stop_cancel(3), of m' c tid s'
          "\<lambda>t. if task_st t = Running then t\<lparr>task_st := Cancelling\<rparr> else t"])
      (use stop_cancel only in \<open>auto simp: task_of_def stop_pop_def split: if_splits\<close>)
next
  case (task_end tid t out)
  then show ?thesis using task_inv_end [OF inv] by blast
next
  case (done_cb tid t out m)
  have only: "h' = task_host t \<and> c' = task_cid t" if "registered s h' c' = Some tid" for h' c'
    using task_inv_D(2) [OF inv that] done_cb by (auto simp: task_of_def)
  show ?thesis
    by (rule task_inv_drop [OF inv done_cb(4), of "on_done m (task_cid t) tid" "task_cid t" tid s'
          "task_st_update (\<lambda>_. Collected out)"])
      (use done_cb only in \<open>auto simp: task_of_def mgr_tasks_on_done split: if_splits\<close>)
qed (rule task_inv_frame [OF inv]; simp)+

lemma task_inv_steps: "sys_steps hosts thr s s' \<Longrightarrow> task_inv s \<Longrightarrow> task_inv s'"
  by (induction rule: rtranclp_induct) (auto intro: task_inv_step)

lemma task_inv_reachable: "reachable hosts thr cap s \<Longrightarrow> task_inv s"
  unfolding reachable_def using task_inv_steps task_inv_init by blast


section \<open>The semaphore\<close>

definition in_flight :: "string list \<Rightarrow> system \<Rightarrow> string set" where
  "in_flight hosts s = {h \<in> set hosts. case sys_lpc s h of LLog ref refs \<Rightarrow> True | _ \<Rightarrow> False}"

definition sem_inv :: "string list \<Rightarrow> int \<Rightarrow> system \<Rightarrow> bool" where
  "sem_inv hosts cap s \<longleftrightarrow>
     permits (sys_ev s) + int (card (in_flight hosts s)) = cap \<and> 0 \<le> permits (sys_ev s) \<and>
     (\<forall>h. h \<notin> set hosts \<longrightarrow> sys_lpc s h = LIdle)"

lemma in_flight_iff: "h \<in> in_flight hosts s \<longleftrightarrow> h \<in> set hosts \<and> (\<exists>ref refs. sys_lpc s h = LLog ref refs)"
  by (auto simp: in_flight_def split: listing_pc.splits)

lemma in_flight_upd:
  assumes "h \<in> set hosts"
  shows "in_flight hosts (set_lpc s h (LLog ref refs)) = insert h (in_flight hosts s)"
    and "(\<nexists>ref refs. pc = LLog ref refs) \<Longrightarrow>
      in_flight hosts (set_lpc s h pc) = in_flight hosts s - {h}"
  using assms by (auto simp: in_flight_iff split: if_splits)

lemma in_flight_frame [simp]:
  "in_flight hosts (set_tpc s h tp) = in_flight hosts s"
  "in_flight hosts (set_mgr s h m) = in_flight hosts s"
  "in_flight hosts (set_ev s ev) = in_flight hosts s"
  "in_flight hosts (set_reg s r) = in_flight hosts s"
  by (simp_all add: in_flight_def)

lemma finite_in_flight [simp]: "finite (in_flight hosts s)"
  by (simp add: in_flight_def)

lemma sem_inv_host: "sem_inv hosts cap s \<Longrightarrow> sys_lpc s h \<noteq> LIdle \<Longrightarrow> h \<in> set hosts"
  by (auto simp: sem_inv_def)

lemma sem_inv_frame:
  assumes "sem_inv hosts cap s" and "sys_lpc s' = sys_lpc s" and "permits (sys_ev s') = permits (sys_ev s)"
  shows "sem_inv hosts cap s'"
proof -
  have "in_flight hosts s' = in_flight hosts s" using assms(2) by (simp add: in_flight_def)
  then show ?thesis using assms by (simp add: sem_inv_def)
qed

text \<open>A listing loop moving between two points outside the logging call keeps the account.\<close>

lemma sem_inv_move:
  assumes inv: "sem_inv hosts cap s" and "h \<in> set hosts"
    and "\<nexists>ref refs. sys_lpc s h = LLog ref refs" "\<nexists>ref refs. pc = LLog ref refs"
    and "sys_lpc s' = (sys_lpc s)(h := pc)" "permits (sys_ev s') = permits (sys_ev s)"
  shows "sem_inv hosts cap s'"
proof -
  have "in_flight hosts s' = in_flight hosts s"
    using assms(3-5) by (auto simp: in_flight_iff split: if_splits)
  then show ?thesis using assms by (auto simp: sem_inv_def)
qed

lemma sem_inv_step:
  assumes "sys_step hosts thr s s'" and inv: "sem_inv hosts cap s"
  shows "sem_inv hosts cap s'"
  using assms(1)
proof (cases rule: sys_step.cases)
  case (acquire_spawn h ref refs m m' ev')
  have h: "h \<in> set hosts" using sem_inv_host [OF inv] acquire_spawn by simp
  have "h \<notin> in_flight hosts s" using acquire_spawn by (simp add: in_flight_iff)
  then show ?thesis using inv acquire_spawn h spawn_locked_Some(5) [OF acquire_spawn(5)]
    by (auto simp: sem_inv_def in_flight_upd)
next
  case (logged h ref refs)
  have h: "h \<in> set hosts" using sem_inv_host [OF inv] logged by simp
  then have "h \<in> in_flight hosts s" using logged by (simp add: in_flight_iff)
  then have "int (card (in_flight hosts s - {h})) = int (card (in_flight hosts s)) - 1"
    by (simp add: of_nat_diff card_gt_0_iff Suc_le_eq)
      (metis Suc_pred card_gt_0_iff empty_iff finite_in_flight of_nat_Suc add_diff_cancel_left' Suc_leI of_nat_1 of_nat_diff)
  then show ?thesis using inv logged h by (auto simp: sem_inv_def in_flight_upd)
next
  case (listing h l r' refs)
  then show ?thesis by (intro sem_inv_move [OF inv]) auto
next
  case (notify_done h)
  then show ?thesis using sem_inv_host [OF inv, of h] by (intro sem_inv_move [OF inv]) auto
next
  case (notify_unrouted h ref refs)
  then show ?thesis using sem_inv_host [OF inv, of h] by (intro sem_inv_move [OF inv]) auto
next
  case (notify_known h ref refs m)
  then show ?thesis using sem_inv_host [OF inv, of h] by (intro sem_inv_move [OF inv]) auto
next
  case (notify_new h ref refs m)
  then show ?thesis using sem_inv_host [OF inv, of h] by (intro sem_inv_move [OF inv]) auto
next
  case (acquire_lost h ref refs m)
  then show ?thesis using sem_inv_host [OF inv, of h] by (intro sem_inv_move [OF inv]) auto
qed (rule sem_inv_frame [OF inv]; simp)+

lemma sem_inv_init: "0 \<le> cap \<Longrightarrow> sem_inv hosts cap (init_system hosts cap)"
  by (simp add: sem_inv_def init_system_def in_flight_def)

lemma sem_inv_reachable:
  assumes "reachable hosts thr cap s" and "0 \<le> cap"
  shows "sem_inv hosts cap s"
  using assms(1) unfolding reachable_def
  by (induction rule: rtranclp_induct) (auto intro: sem_inv_step sem_inv_init assms(2))

section \<open>A listener that ended by itself\<close>

fun pending_ids :: "listing_pc \<Rightarrow> string set" where
  "pending_ids (LNotify refs) = ref_id ` set refs"
| "pending_ids (LAcquire ref refs) = insert (ref_id ref) (ref_id ` set refs)"
| "pending_ids (LLog ref refs) = ref_id ` set refs"
| "pending_ids _ = {}"

fun tracked_ids :: "tracker_pc \<Rightarrow> string set" where
  "tracked_ids (TLoop cs) = set cs"
| "tracked_ids (TLog c cs) = insert c (set cs)"
| "tracked_ids (TAwait c tid cs) = insert c (set cs)"
| "tracked_ids _ = {}"

text \<open>
  The registry still holds the container, no listener is registered for it, and neither loop
  is about to handle it.
\<close>

definition abandoned :: "system \<Rightarrow> string \<Rightarrow> string \<Rightarrow> bool" where
  "abandoned s h c \<longleftrightarrow> known (sys_reg s) h c \<noteq> None \<and> registered s h c = None \<and>
     c \<notin> pending_ids (sys_lpc s h) \<and> c \<notin> tracked_ids (sys_tpc s h)"

lemma registered_frame [simp]:
  "registered (set_lpc s h0 pc) h c = registered s h c"
  "registered (set_tpc s h0 tp) h c = registered s h c"
  "registered (set_ev s ev) h c = registered s h c"
  "registered (set_reg s r) h c = registered s h c"
  "registered (set_mgr s h0 m) h c = (if h = h0 then mgr_tasks m c else registered s h c)"
  by (simp_all add: registered_def)

lemma abandoned_step:
  assumes "sys_step hosts thr s s'" and ab: "abandoned s h c"
  shows "abandoned s' h c"
  using assms(1)
proof (cases rule: sys_step.cases)
  case (listing h' l r' refs)
  have r': "r' = fst (update (sys_reg s) h' l)" and refs: "refs = snd (update (sys_reg s) h' l)"
    using listing(4) by simp_all
  have "c \<notin> ref_id ` set refs" if "h = h'"
    using ab that update_notifies_unknown [of _ "sys_reg s" h' l] by (auto simp: refs abandoned_def)
  moreover have "known r' h c \<noteq> None" using ab known_update_mono unfolding r' abandoned_def by blast
  ultimately show ?thesis using ab listing(1) by (auto simp: abandoned_def)
next
  case (acquire_spawn h' ref refs m m' ev')
  then show ?thesis using ab spawn_locked_Some(2) [OF acquire_spawn(5)]
    by (auto simp: abandoned_def registered_def)
next
  case (tick h' m cids)
  have "c \<notin> set cids" if "h = h'"
    using ab that tick(4,5) by (auto simp: abandoned_def registered_def active_container_ids_def)
  then show ?thesis using ab tick(1) by (auto simp: abandoned_def)
next
  case (stop_cancel h' c' cs m tid m')
  then show ?thesis using ab mgr_tasks_stop_pop(1) [of m c' c]
    by (auto simp: abandoned_def registered_def)
next
  case (done_cb tid t out m)
  then show ?thesis using ab by (auto simp: abandoned_def registered_def mgr_tasks_on_done)
qed (use ab in \<open>auto simp: abandoned_def known_forget\<close>)

lemma abandoned_steps: "sys_steps hosts thr s s' \<Longrightarrow> abandoned s h c \<Longrightarrow> abandoned s' h c"
  by (induction rule: rtranclp_induct) (auto intro: abandoned_step)


section \<open>Routing and progress\<close>

definition routed :: "string list \<Rightarrow> system \<Rightarrow> bool" where
  "routed hosts s \<longleftrightarrow> (\<forall>h. h \<in> set hosts \<longrightarrow> sys_mgrs s h \<noteq> None) \<and>
     (\<forall>h. (sys_lpc s h \<noteq> LIdle \<longrightarrow> h \<in> set hosts) \<and> (\<forall>e. sys_lpc s h \<noteq> LDead e))"

lemma routed_init: "routed hosts (init_system hosts cap)"
  by (simp add: routed_def init_system_def)

lemma routed_step:
  assumes "sys_step hosts thr s s'" and r: "routed hosts s"
  shows "routed hosts s'"
  using assms(1)
proof (cases rule: sys_step.cases)
  case (notify_unrouted h ref refs)
  then have "h \<in> set hosts" using r by (simp add: routed_def)
  then show ?thesis using r notify_unrouted(3) by (auto simp: routed_def)
next
  case (logged h ref refs)
  then have "h \<in> set hosts" using r by (simp add: routed_def)
  then show ?thesis using r logged by (auto simp: routed_def)
next
  case (notify_known h ref refs m)
  then have "h \<in> set hosts" using r by (simp add: routed_def)
  then show ?thesis using r notify_known by (auto simp: routed_def)
next
  case (notify_new h ref refs m)
  then have "h \<in> set hosts" using r by (simp add: routed_def)
  then show ?thesis using r notify_new by (auto simp: routed_def)
next
  case (acquire_lost h ref refs m)
  then have "h \<in> set hosts" using r by (simp add: routed_def)
  then show ?thesis using r acquire_lost by (auto simp: routed_def)
next
  case (acquire_spawn h ref refs m)
  then have "h \<in> set hosts" using r by (simp add: routed_def)
  then show ?thesis using r acquire_spawn by (auto simp: routed_def)
qed (use r in \<open>auto simp: routed_def\<close>)

lemma routed_reachable: "reachable hosts thr cap s \<Longrightarrow> routed hosts s"
  unfolding reachable_def by (induction rule: rtranclp_induct) (auto intro: routed_step routed_init)

lemma reachable_steps: "reachable hosts thr cap s \<Longrightarrow> sys_steps hosts thr s s' \<Longrightarrow> reachable hosts thr cap s'"
  unfolding reachable_def by (rule rtranclp_trans)

text \<open>One new ref handled with nothing else running: its listener is registered and runs.\<close>

lemma notify_one:
  assumes "sys_lpc s h = LNotify (ref # refs)" and m: "sys_mgrs s h = Some m" and "0 < permits (sys_ev s)"
  shows "\<exists>s1. sys_steps hosts thr s s1 \<and> sys_lpc s1 h = LNotify refs \<and> sys_mgrs s1 h \<noteq> None \<and>
    permits (sys_ev s1) = permits (sys_ev s) \<and> sys_reg s1 = sys_reg s \<and> sys_tpc s1 = sys_tpc s \<and>
    (\<forall>c. registered s1 h c \<noteq> None \<longleftrightarrow> registered s h c \<noteq> None \<or> c = ref_id ref)"
proof (cases "spawn_is_known m ref")
  case True
  have "sys_step hosts thr s (set_lpc s h (LNotify refs))"
    using notify_known [OF assms(1) m True] .
  moreover have "registered s h (ref_id ref) \<noteq> None"
    using True m by (simp add: spawn_is_known_def active_container_ids_def registered_def domIff)
  ultimately show ?thesis using m
    by (intro exI [of _ "set_lpc s h (LNotify refs)"]) auto
next
  case False
  let ?s1 = "set_lpc s h (LAcquire ref refs)"
  obtain m' ev' where sp: "spawn_locked m (sys_ev s) ref = Some (m', ev')"
    using False by (simp add: spawn_locked_def create_task_def)
  note sp' = spawn_locked_Some [OF sp]
  let ?s2 = "set_ev (set_mgr (set_lpc ?s1 h (LLog ref refs)) h m') (acquire ev')"
  let ?s3 = "set_ev (set_lpc ?s2 h (LNotify refs)) (release (sys_ev ?s2))"
  have 1: "sys_step hosts thr s ?s1" using notify_new [OF assms(1) m False] .
  have 2: "sys_step hosts thr ?s1 ?s2" using acquire_spawn [of ?s1 h ref refs m m' ev'] m sp assms(3) by simp
  have 3: "sys_step hosts thr ?s2 ?s3" using logged [of ?s2 h ref refs] by simp
  have "sys_steps hosts thr s ?s3" using 1 2 3 by (meson converse_rtranclp_into_rtranclp r_into_rtranclp)
  moreover have "registered ?s3 h c \<noteq> None \<longleftrightarrow> registered s h c \<noteq> None \<or> c = ref_id ref" for c
    using m by (auto simp: sp'(2) registered_def)
  moreover have "sys_lpc ?s3 h = LNotify refs" "sys_mgrs ?s3 h \<noteq> None" "sys_reg ?s3 = sys_reg s"
    "sys_tpc ?s3 = sys_tpc s" "permits (sys_ev ?s3) = permits (sys_ev s)"
    by (simp_all add: sp'(5))
  ultimately show ?thesis by blast
qed

lemma notify_all:
  assumes "sys_lpc s h = LNotify refs" and "sys_mgrs s h \<noteq> None" and "0 < permits (sys_ev s)"
  shows "\<exists>s'. sys_steps hosts thr s s' \<and> sys_lpc s' h = LIdle \<and> sys_reg s' = sys_reg s \<and>
    sys_tpc s' = sys_tpc s \<and> permits (sys_ev s') = permits (sys_ev s) \<and>
    (\<forall>c. registered s' h c \<noteq> None \<longleftrightarrow> registered s h c \<noteq> None \<or> c \<in> ref_id ` set refs)"
  using assms
proof (induction refs arbitrary: s)
  case Nil
  show ?case
    by (rule exI [of _ "set_lpc s h LIdle"]) (use notify_done [OF Nil(1)] in auto)
next
  case (Cons ref refs)
  from Cons.prems(2) obtain m where "sys_mgrs s h = Some m" by auto
  from notify_one [OF Cons.prems(1) this Cons.prems(3)]
  obtain s1 where s1: "sys_steps hosts thr s s1" "sys_lpc s1 h = LNotify refs" "sys_mgrs s1 h \<noteq> None"
    "permits (sys_ev s1) = permits (sys_ev s)" "sys_reg s1 = sys_reg s" "sys_tpc s1 = sys_tpc s"
    "\<And>c. registered s1 h c \<noteq> None \<longleftrightarrow> registered s h c \<noteq> None \<or> c = ref_id ref"
    by blast
  have "0 < permits (sys_ev s1)" using Cons.prems(3) s1(4) by simp
  from Cons.IH [OF s1(2,3) this] obtain s2 where s2: "sys_steps hosts thr s1 s2" "sys_lpc s2 h = LIdle"
    "sys_reg s2 = sys_reg s1" "sys_tpc s2 = sys_tpc s1" "permits (sys_ev s2) = permits (sys_ev s1)"
    "\<And>c. registered s2 h c \<noteq> None \<longleftrightarrow> registered s1 h c \<noteq> None \<or> c \<in> ref_id ` set refs"
    by blast
  show ?case
    by (rule exI [of _ s2]) (use s1 s2 rtranclp_trans [OF s1(1) s2(1)] in auto)
qed

lemma listing_progress:
  assumes "h \<in> set hosts" and "sys_lpc s h = LIdle" and "sys_mgrs s h \<noteq> None"
    and "0 < permits (sys_ev s)" and "callback (sys_reg s) \<noteq> None"
  shows "\<exists>s'. sys_steps hosts thr s s' \<and> sys_lpc s' h = LIdle \<and> sys_tpc s' = sys_tpc s \<and>
    permits (sys_ev s') = permits (sys_ev s) \<and> sys_reg s' = fst (update (sys_reg s) h l) \<and>
    (\<forall>c. registered s' h c \<noteq> None \<longleftrightarrow>
      registered s h c \<noteq> None \<or> c \<in> ref_id ` set l \<and> known (sys_reg s) h c = None)"
proof -
  obtain r' refs where u: "update (sys_reg s) h l = (r', refs)" by (cases "update (sys_reg s) h l")
  let ?s1 = "set_reg (set_lpc s h (LNotify refs)) r'"
  have step: "sys_step hosts thr s ?s1" using listing [OF assms(1,2) u] .
  have "\<exists>s'. sys_steps hosts thr ?s1 s' \<and> sys_lpc s' h = LIdle \<and> sys_reg s' = sys_reg ?s1 \<and>
    sys_tpc s' = sys_tpc ?s1 \<and> permits (sys_ev s') = permits (sys_ev ?s1) \<and>
    (\<forall>c. registered s' h c \<noteq> None \<longleftrightarrow> registered ?s1 h c \<noteq> None \<or> c \<in> ref_id ` set refs)"
    by (rule notify_all) (use assms in simp_all)
  then obtain s' where s': "sys_steps hosts thr ?s1 s'" "sys_lpc s' h = LIdle" "sys_reg s' = r'"
    "sys_tpc s' = sys_tpc s" "permits (sys_ev s') = permits (sys_ev s)"
    "\<And>c. registered s' h c \<noteq> None \<longleftrightarrow> registered s h c \<noteq> None \<or> c \<in> ref_id ` set refs"
    by auto
  have new: "ref_id ` set refs = {c \<in> ref_id ` set l. known (sys_reg s) h c = None}"
    using update_notifies [OF assms(5), of h l] u by simp
  show ?thesis
    by (rule exI [of _ s']) (use s' u converse_rtranclp_into_rtranclp [OF step s'(1)] in \<open>auto simp: new\<close>)
qed

lemma callback_step: "sys_step hosts thr s s' \<Longrightarrow> callback (sys_reg s') = callback (sys_reg s)"
proof (induction rule: sys_step.induct)
  case (listing h s l r' refs)
  then show ?case using update_parts(2) [of "sys_reg s" h l] by simp
qed simp_all

lemma callback_reachable: "reachable hosts thr cap s \<Longrightarrow> callback (sys_reg s) = Some ()"
  unfolding reachable_def
  by (induction rule: rtranclp_induct) (auto simp: callback_step init_system_def on_new_container_def)


section \<open>Between the two loops of a daemon\<close>

fun pending_list :: "listing_pc \<Rightarrow> string list" where
  "pending_list (LNotify refs) = map ref_id refs"
| "pending_list (LAcquire ref refs) = ref_id ref # map ref_id refs"
| "pending_list (LLog ref refs) = map ref_id refs"
| "pending_list _ = []"

fun tracked_list :: "tracker_pc \<Rightarrow> string list" where
  "tracked_list (TLoop cs) = cs"
| "tracked_list (TLog c cs) = c # cs"
| "tracked_list (TAwait c tid cs) = c # cs"
| "tracked_list _ = []"

lemma set_lists [simp]: "set (pending_list lp) = pending_ids lp" "set (tracked_list tp) = tracked_ids tp"
  by (cases lp; simp)+ (cases tp; simp)

text \<open>
  Between the loops of a daemon: what is registered, announced or in the tracker's snapshot is
  known, and what is still to be announced is neither registered nor in the snapshot.
\<close>

definition loops_apart :: "system \<Rightarrow> string \<Rightarrow> bool" where
  "loops_apart s h \<longleftrightarrow>
     distinct (pending_list (sys_lpc s h)) \<and> distinct (tracked_list (sys_tpc s h)) \<and>
     (\<forall>c. registered s h c \<noteq> None \<or> c \<in> pending_ids (sys_lpc s h) \<or> c \<in> tracked_ids (sys_tpc s h) \<longrightarrow>
        known (sys_reg s) h c \<noteq> None) \<and>
     (\<forall>c\<in>pending_ids (sys_lpc s h). registered s h c = None \<and> c \<notin> tracked_ids (sys_tpc s h)) \<and>
     (\<forall>c tid cs. sys_tpc s h = TAwait c tid cs \<longrightarrow> registered s h c = None)"

lemma loops_apartD:
  assumes "loops_apart s h"
  shows "distinct (pending_list (sys_lpc s h))" and "distinct (tracked_list (sys_tpc s h))"
    and "registered s h c \<noteq> None \<Longrightarrow> known (sys_reg s) h c \<noteq> None"
    and "c \<in> pending_ids (sys_lpc s h) \<Longrightarrow>
      known (sys_reg s) h c \<noteq> None \<and> registered s h c = None \<and> c \<notin> tracked_ids (sys_tpc s h)"
    and "c \<in> tracked_ids (sys_tpc s h) \<Longrightarrow> known (sys_reg s) h c \<noteq> None"
    and "sys_tpc s h = TAwait c tid cs \<Longrightarrow> registered s h c = None"
  using assms unfolding loops_apart_def by blast+

lemma update_new_ids:
  "distinct (map ref_id (snd (update r h l)))"
  "c \<in> ref_id ` set (snd (update r h l)) \<Longrightarrow> known r h c = None \<and> known (fst (update r h l)) h c \<noteq> None"
proof -
  show "distinct (map ref_id (snd (update r h l)))" by (simp add: update_parts record_refs_new_distinct)
  show "known r h c = None \<and> known (fst (update r h l)) h c \<noteq> None" if "c \<in> ref_id ` set (snd (update r h l))"
    using that record_refs_new_ids [of "bumped r h" l] record_refs_listed [of c l "bumped r h"]
    by (auto simp: update_parts known_update split: if_splits)
qed

lemma loops_apart_step:
  assumes "sys_step hosts thr s s'" and ap: "loops_apart s h"
  shows "loops_apart s' h"
  using assms(1)
proof (cases rule: sys_step.cases)
  case (listing h' l r' refs)
  have r': "r' = fst (update (sys_reg s) h' l)" and refs: "refs = snd (update (sys_reg s) h' l)"
    using listing(4) by simp_all
  show ?thesis
  proof (cases "h' = h")
    case True
    have n: "known (sys_reg s) h c = None \<and> known r' h c \<noteq> None" if "c \<in> ref_id ` set refs" for c
      using update_new_ids(2) [of c "sys_reg s" h l] that r' refs True by simp
    have "known r' h c \<noteq> None" if "known (sys_reg s) h c \<noteq> None" for c
      using known_update_mono [OF that] r' by simp
    moreover have "distinct (map ref_id refs)" unfolding refs by (rule update_new_ids(1))
    moreover have "registered s h c = None \<and> c \<notin> tracked_ids (sys_tpc s h)" if "c \<in> ref_id ` set refs" for c
      using n [OF that] loops_apartD(3,5) [OF ap, of c] by blast
    ultimately show ?thesis using loops_apartD(2,3,5,6) [OF ap] n
      unfolding loops_apart_def listing(1) True by simp
  next
    case False
    then show ?thesis using ap listing(1) by (simp add: loops_apart_def r' known_update)
  qed
next
  case (acquire_spawn h' ref refs m m' ev')
  note m' = spawn_locked_Some(2) [OF acquire_spawn(5)]
  show ?thesis
  proof (cases "h' = h")
    case True
    then show ?thesis using loops_apartD [OF ap] m' acquire_spawn(1-4)
      unfolding loops_apart_def by (auto simp: registered_def split: if_splits; metis image_eqI)
  next
    case False
    then show ?thesis using ap m' acquire_spawn(1) by (simp add: loops_apart_def registered_def)
  qed
next
  case (tick h' m cids)
  show ?thesis
  proof (cases "h' = h")
    case True
    have "c \<in> set cids \<longleftrightarrow> registered s h c \<noteq> None" for c
      using tick(4,5) True by (auto simp: registered_def active_container_ids_def)
    then show ?thesis using loops_apartD [OF ap] True tick(1,6) unfolding loops_apart_def by auto
  next
    case False
    then show ?thesis using ap tick(1) by (simp add: loops_apart_def)
  qed
next
  case (stop_gone h' c cs m m')
  then show ?thesis using loops_apartD [OF ap] unfolding loops_apart_def
    by (cases "h' = h") (auto simp: known_forget registered_def stop_pop_def)
next
  case (stop_cancel h' c cs m tid m')
  then show ?thesis using loops_apartD [OF ap] mgr_tasks_stop_pop(1) [of m c] unfolding loops_apart_def
    by (cases "h' = h") (auto simp: registered_def split: if_splits)
next
  case (awaited h' c tid cs t)
  then show ?thesis using loops_apartD [OF ap] unfolding loops_apart_def
    by (cases "h' = h") (auto simp: known_forget)
next
  case (done_cb tid t out m)
  then show ?thesis using loops_apartD [OF ap] unfolding loops_apart_def
    by (cases "h = task_host t") (auto simp: registered_def mgr_tasks_on_done split: if_splits)
qed (use ap in \<open>auto simp: loops_apart_def split: if_splits\<close>)


lemma loops_apart_reachable: "reachable hosts thr cap s \<Longrightarrow> loops_apart s h"
  unfolding reachable_def
proof (induction rule: rtranclp_induct)
  case base
  then show ?case by (auto simp: loops_apart_def init_system_def registered_def new_manager_def split: option.splits if_splits)
qed (rule loops_apart_step)

text \<open>Known, without a listener, and not announced.\<close>

definition listed_only :: "system \<Rightarrow> string \<Rightarrow> string \<Rightarrow> bool" where
  "listed_only s h c \<longleftrightarrow> known (sys_reg s) h c \<noteq> None \<and> registered s h c = None \<and> c \<notin> pending_ids (sys_lpc s h)"

lemma abandoned_iff: "abandoned s h c \<longleftrightarrow> listed_only s h c \<and> c \<notin> tracked_ids (sys_tpc s h)"
  by (auto simp: abandoned_def listed_only_def)

text \<open>Such a container leaves the registry, if at all, by the tracker run that holds it, and starts over.\<close>

lemma listed_only_step:
  assumes "sys_step hosts thr s s'" and lo: "listed_only s h c"
  shows "listed_only s' h c \<and> (c \<in> tracked_ids (sys_tpc s' h) \<longrightarrow> c \<in> tracked_ids (sys_tpc s h)) \<or>
    known (sys_reg s') h c = None \<and> c \<in> tracked_ids (sys_tpc s h)"
  using assms(1)
proof (cases rule: sys_step.cases)
  case (listing h' l r' refs)
  have r': "r' = fst (update (sys_reg s) h' l)" and refs: "refs = snd (update (sys_reg s) h' l)"
    using listing(4) by simp_all
  have "c \<notin> ref_id ` set refs" if "h' = h"
    using lo that update_new_ids(2) [of c "sys_reg s" h l] by (auto simp: refs listed_only_def)
  moreover have "known r' h c \<noteq> None" using lo known_update_mono unfolding r' listed_only_def by blast
  ultimately show ?thesis using lo listing(1) by (auto simp: listed_only_def)
next
  case (acquire_spawn h' ref refs m m' ev')
  then show ?thesis using lo spawn_locked_Some(2) [OF acquire_spawn(5)]
    by (auto simp: listed_only_def registered_def)
next
  case (tick h' m cids)
  have "c \<notin> set cids" if "h' = h"
    using lo that tick(4,5) by (auto simp: listed_only_def registered_def active_container_ids_def)
  then show ?thesis using lo tick(1) by (auto simp: listed_only_def)
next
  case (stop_cancel h' c' cs m tid m')
  then show ?thesis using lo mgr_tasks_stop_pop(1) [of m c' c] by (auto simp: listed_only_def registered_def)
next
  case (done_cb tid t out m)
  then show ?thesis using lo by (auto simp: listed_only_def registered_def mgr_tasks_on_done)
qed (use lo in \<open>auto simp: listed_only_def known_forget\<close>)

definition forgets :: "string list \<Rightarrow> int \<Rightarrow> string \<Rightarrow> string \<Rightarrow> system \<Rightarrow> system \<Rightarrow> bool" where
  "forgets hosts thr h c s s' \<longleftrightarrow>
     sys_step hosts thr s s' \<and> c \<in> tracked_ids (sys_tpc s h) \<and>
     known (sys_reg s) h c \<noteq> None \<and> known (sys_reg s') h c = None"

lemma listed_only_steps:
  assumes "sys_steps hosts thr s s'" and "listed_only s h c"
  shows "listed_only s' h c \<and> (c \<in> tracked_ids (sys_tpc s' h) \<longrightarrow> c \<in> tracked_ids (sys_tpc s h)) \<or>
    c \<in> tracked_ids (sys_tpc s h) \<and>
    (\<exists>s2 s3. sys_steps hosts thr s s2 \<and> forgets hosts thr h c s2 s3 \<and> sys_steps hosts thr s3 s')"
  using assms(1)
proof (induction rule: rtranclp_induct)
  case base
  then show ?case using assms(2) by simp
next
  case (step s1 s')
  show ?case
  proof (cases "listed_only s1 h c \<and> (c \<in> tracked_ids (sys_tpc s1 h) \<longrightarrow> c \<in> tracked_ids (sys_tpc s h))")
    case True
    then have k: "known (sys_reg s1) h c \<noteq> None" by (simp add: listed_only_def)
    from listed_only_step [OF step.hyps(2) conjunct1 [OF True]] show ?thesis
    proof
      assume "listed_only s' h c \<and> (c \<in> tracked_ids (sys_tpc s' h) \<longrightarrow> c \<in> tracked_ids (sys_tpc s1 h))"
      then show ?thesis using True by blast
    next
      assume a: "known (sys_reg s') h c = None \<and> c \<in> tracked_ids (sys_tpc s1 h)"
      then have "forgets hosts thr h c s1 s'" using k step.hyps(2) by (simp add: forgets_def)
      then show ?thesis using True a step.hyps(1) by blast
    qed
  next
    case False
    then show ?thesis using step.IH rtranclp.rtrancl_into_rtrancl step.hyps(2) by metis
  qed
qed

text \<open>The done callback of a task that ended by itself: its manager still holds it.\<close>

lemma ended_listed_only:
  assumes r: "reachable hosts thr cap s" and reg: "registered s h c = Some tid" and m: "sys_mgrs s h = Some m"
  shows "listed_only (set_ev (set_mgr s h (on_done m c tid)) ev) h c"
proof -
  have "mgr_tasks m c = Some tid" using reg m by (simp add: registered_def)
  moreover have "known (sys_reg s) h c \<noteq> None" "c \<notin> pending_ids (sys_lpc s h)"
    using loops_apartD(3,4) [OF loops_apart_reachable [OF r, of h], of c] reg by auto
  ultimately show ?thesis by (simp add: listed_only_def on_done_def)
qed

text \<open>The exception is real: the tracker run that was about to stop the listener opens the way back.\<close>

lemma forgotten_container_respawned:
  assumes "reachable hosts thr cap s" and "sys_tpc s h = TLog c cs" and "registered s h c = None"
    and "h \<in> set hosts" and "sys_lpc s h = LIdle" and "0 < permits (sys_ev s)"
  shows "\<exists>s2 s'. forgets hosts thr h c s s2 \<and> sys_steps hosts thr s2 s' \<and> registered s' h c \<noteq> None"
proof -
  obtain m where m: "sys_mgrs s h = Some m" using routed_reachable [OF assms(1)] assms(4) by (auto simp: routed_def)
  obtain m' where sp: "stop_pop m c = (None, m')" using assms(3) m by (simp add: stop_pop_def registered_def)
  let ?s2 = "set_reg (set_tpc s h (TLoop cs)) (forget (sys_reg s) h c)"
  have step: "sys_step hosts thr s ?s2" by (rule stop_gone [OF assms(2) m sp])
  have "known (sys_reg s) h c \<noteq> None" using loops_apartD(5) [OF loops_apart_reachable [OF assms(1)], of c h] assms(2) by simp
  then have f: "forgets hosts thr h c s ?s2" using step assms(2) by (simp add: forgets_def known_forget)
  have "reachable hosts thr cap ?s2" using reachable_steps [OF assms(1) r_into_rtranclp [of "sys_step hosts thr"], OF step] .
  then have cb: "callback (sys_reg ?s2) \<noteq> None" using callback_reachable by fastforce
  obtain s' where "sys_steps hosts thr ?s2 s'" "registered s' h c \<noteq> None"
    using listing_progress [of h hosts ?s2 thr "[\<lparr>ref_id = c, ref_name = []\<rparr>]"] assms(4-6) m cb
    by (fastforce simp: known_forget)
  then show ?thesis using f by blast
qed

section \<open>Properties\<close>

text \<open>A first listing of one container on one daemon: its listener is task 0 and runs.\<close>

lemma one_listener:
  "\<exists>s. reachable [''d''] 3 1 s \<and> runs s 0 ''d'' ''c'' \<and> known (sys_reg s) ''d'' ''c'' \<noteq> None \<and>
     sys_lpc s ''d'' = LIdle \<and> sys_tpc s ''d'' = TIdle \<and> sys_mgrs s ''d'' \<noteq> None"
proof -
  let ?ref = "\<lparr>ref_id = ''c'', ref_name = ''web''\<rparr>"
  let ?s0 = "init_system [''d''] 1"
  let ?m = "new_manager ''d''"
  have m: "sys_mgrs ?s0 ''d'' = Some ?m" by (simp add: init_system_def)
  have cb: "callback (sys_reg ?s0) \<noteq> None" and unk: "known (sys_reg ?s0) ''d'' ''c'' = None"
    by (simp_all add: init_system_def on_new_container_def new_registry_def known_def)
  obtain r' refs where u: "update (sys_reg ?s0) ''d'' [?ref] = (r', refs)"
    by (cases "update (sys_reg ?s0) ''d'' [?ref]")
  have "snd (update (sys_reg ?s0) ''d'' [?ref]) = [?ref]"
    using cb unk by (simp add: update_parts split: prod.splits)
  then have refs: "refs = [?ref]" using u by simp
  have "known (fst (update (sys_reg ?s0) ''d'' [?ref])) ''d'' ''c'' \<noteq> None"
    by (simp add: known_update)
  then have kn: "known r' ''d'' ''c'' \<noteq> None" using u by simp
  let ?s1 = "set_reg (set_lpc ?s0 ''d'' (LNotify [?ref])) r'"
  let ?s2 = "set_lpc ?s1 ''d'' (LAcquire ?ref [])"
  have 1: "sys_step [''d''] 3 ?s0 ?s1"
    using listing [of "''d''" "[''d'']" ?s0 "[?ref]" r' "[?ref]" 3] u refs by (simp add: init_system_def)
  have nk: "\<not> spawn_is_known ?m ?ref"
    by (simp add: spawn_is_known_def active_container_ids_def new_manager_def)
  have 2: "sys_step [''d''] 3 ?s1 ?s2"
    using notify_new [of ?s1 "''d''" ?ref "[]" ?m] m nk by simp
  obtain m' ev' where sp: "spawn_locked ?m (sys_ev ?s0) ?ref = Some (m', ev')"
    using nk by (simp add: spawn_locked_def create_task_def)
  note sp' = spawn_locked_Some [OF sp]
  let ?s3 = "set_ev (set_mgr (set_lpc ?s2 ''d'' (LLog ?ref [])) ''d'' m') (acquire ev')"
  let ?s4 = "set_ev (set_lpc ?s3 ''d'' (LNotify [])) (release (sys_ev ?s3))"
  let ?s5 = "set_lpc ?s4 ''d'' LIdle"
  have p: "permits (sys_ev ?s0) = 1" "next_task (sys_ev ?s0) = 0" by (simp_all add: init_system_def)
  have 3: "sys_step [''d''] 3 ?s2 ?s3"
    using acquire_spawn [of ?s2 "''d''" ?ref "[]" ?m m' ev'] m sp p by simp
  have 4: "sys_step [''d''] 3 ?s3 ?s4" using logged [of ?s3 "''d''" ?ref "[]"] by simp
  have 5: "sys_step [''d''] 3 ?s4 ?s5" using notify_done [of ?s4 "''d''"] by simp
  have "reachable [''d''] 3 1 ?s5"
    unfolding reachable_def using 1 2 3 4 5 by (meson converse_rtranclp_into_rtranclp rtranclp.rtrancl_refl)
  moreover have "runs ?s5 0 ''d'' ''c''"
    by (simp add: runs_def task_of_def sp'(3) p new_manager_def)
  moreover have "sys_tpc ?s5 ''d'' = TIdle" by (simp add: init_system_def)
  ultimately show ?thesis using kn by (intro exI [of _ ?s5]) simp
qed

text \<open>
  C1. However listing, tracking, spawning, stopping and task endings interleave, two running
  listener tasks never follow the same container of the same daemon, and a running one is the
  one its manager holds, so the tracker can stop it.
\<close>

theorem at_most_one_listener_per_container:
  assumes "reachable hosts thr cap s" and "runs s i h c"
  shows "registered s h c = Some i \<and> {j. runs s j h c} = {i}"
proof -
  note only = task_inv_D(3) [OF task_inv_reachable [OF assms(1)]]
  have i: "registered s h c = Some i" using only [OF assms(2)] .
  moreover have "j = i" if "runs s j h c" for j using only [OF that] i by simp
  ultimately show ?thesis using assms(2) by blast
qed

theorem at_most_one_listener_per_container_witness:
  "\<exists>s. reachable [''d''] 3 1 s \<and> runs s 0 ''d'' ''c'' \<and> {j. runs s j ''d'' ''c''} = {0}"
  using one_listener at_most_one_listener_per_container by blast

text \<open>
  C22. A listing cycle can always be completed: from any reachable state in which the listing
  loop of an enabled daemon is idle and a semaphore permit is free, the loop reaches idle again
  with the registry updated, and the daemon's listeners are those it had and one for every
  listed container the registry did not know.
\<close>

theorem listing_spawns_every_new_container:
  assumes "reachable hosts thr cap s" and "h \<in> set hosts" and "sys_lpc s h = LIdle"
    and "0 < permits (sys_ev s)"
  shows "\<exists>s'. sys_steps hosts thr s s' \<and> sys_lpc s' h = LIdle \<and>
    sys_reg s' = fst (update (sys_reg s) h l) \<and>
    {c. registered s' h c \<noteq> None} =
      {c. registered s h c \<noteq> None} \<union> {c \<in> ref_id ` set l. known (sys_reg s) h c = None}"
proof -
  have "sys_mgrs s h \<noteq> None" using routed_reachable [OF assms(1)] assms(2) by (simp add: routed_def)
  moreover have "callback (sys_reg s) \<noteq> None" using callback_reachable [OF assms(1)] by simp
  ultimately obtain s' where s': "sys_steps hosts thr s s'" "sys_lpc s' h = LIdle"
    "sys_reg s' = fst (update (sys_reg s) h l)"
    "\<And>c. registered s' h c \<noteq> None \<longleftrightarrow>
      registered s h c \<noteq> None \<or> c \<in> ref_id ` set l \<and> known (sys_reg s) h c = None"
    using listing_progress [OF assms(2,3) _ assms(4), of thr l] by metis
  from s'(4) have "{c. registered s' h c \<noteq> None} =
      {c. registered s h c \<noteq> None} \<union> {c \<in> ref_id ` set l. known (sys_reg s) h c = None}"
    by blast
  with s'(1-3) show ?thesis by metis
qed

theorem listing_spawns_every_new_container_witness:
  "\<exists>s'. reachable [''d''] 3 1 s' \<and>
     {c. registered s' ''d'' c \<noteq> None} = {''c1'', ''c2''}"
proof -
  let ?l = "[\<lparr>ref_id = ''c1'', ref_name = ''web''\<rparr>, \<lparr>ref_id = ''c2'', ref_name = ''db''\<rparr>]"
  let ?s = "init_system [''d''] 1"
  have r: "reachable [''d''] 3 1 ?s" by (simp add: reachable_def)
  have "known (sys_reg ?s) ''d'' c = None" "registered ?s ''d'' c = None" for c
    by (simp_all add: init_system_def on_new_container_def new_registry_def known_def registered_def
        new_manager_def)
  moreover have "sys_lpc ?s ''d'' = LIdle" "0 < permits (sys_ev ?s)" "''d'' \<in> set [''d'']"
    by (simp_all add: init_system_def)
  note ex = listing_spawns_every_new_container [OF r this(3,1,2), of ?l]
  obtain s' where s': "sys_steps [''d''] 3 ?s s'" "{c. registered s' ''d'' c \<noteq> None} =
      {c. registered ?s ''d'' c \<noteq> None} \<union> {c \<in> ref_id ` set ?l. known (sys_reg ?s) ''d'' c = None}"
    using ex by (elim exE conjE) (rule that)
  ultimately have "{c. registered s' ''d'' c \<noteq> None} = {''c1'', ''c2''}"
    unfolding s'(2) by (simp only: simp_thms) auto
  then show ?thesis using reachable_steps [OF r s'(1)] by blast
qed

text \<open>
  C30. Process-wide, the spawns inside the semaphore never exceed
  \<open>max_concurrent_listener_spawns\<close>, and every permit taken is accounted for by one of them.
\<close>

theorem spawns_bounded_by_semaphore:
  assumes "reachable hosts thr cap s" and "0 \<le> cap"
  shows "int (card (in_flight hosts s)) \<le> cap \<and>
    permits (sys_ev s) = cap - int (card (in_flight hosts s))"
  using sem_inv_reachable [OF assms] by (auto simp: sem_inv_def)

theorem spawns_bounded_by_semaphore_witness:
  "\<exists>s. reachable [''d''] 3 1 s \<and> runs s 0 ''d'' ''c'' \<and> card (in_flight [''d''] s) \<le> 1"
proof -
  obtain s where s: "reachable [''d''] 3 1 s" "runs s 0 ''d'' ''c''" using one_listener by blast
  then show ?thesis using spawns_bounded_by_semaphore [OF s(1)] by auto
qed

text \<open>
  Every callback finds its daemon's manager, whatever the daemons and the interleaving: no
  listing loop dies of the dispatcher's lookup.
\<close>

lemma every_new_container_is_routed:
  assumes "reachable hosts thr cap s"
  shows "sys_lpc s h \<noteq> LDead KeyError"
  using routed_reachable [OF assms] by (simp add: routed_def)

lemma every_new_container_is_routed_example:
  "\<exists>s. reachable [''d''] 3 1 s \<and> runs s 0 ''d'' ''c'' \<and> sys_lpc s ''d'' \<noteq> LDead KeyError"
  using one_listener every_new_container_is_routed by blast

text \<open>
  C11. When a listener ended by itself (its container exited, or the transport failed), its done
  callback drops the entry, and from then on its container gets no listener in that process,
  whatever happens: the registry keeps the container and calls back only for containers it does
  not hold. The one way back is a tracker run that was in progress at that moment, with the
  container in its snapshot, and that forgets it: if no such run holds it, the container stays
  without a listener forever, and otherwise a new one comes only after that forgetting. The
  comment in \<open>_make_done_callback\<close> says a later re-discovery can respawn it.
\<close>

theorem self_ended_listener_never_respawned:
  assumes "reachable hosts thr cap s" and "registered s h c = Some tid"
    and "task_of s tid = Some t" and "task_st t = Done out" and "sys_mgrs s h = Some m"
    and "s1 = set_ev (set_mgr s h (on_done m c tid)) (end_task (sys_ev s) tid (Collected out))"
    and "sys_steps hosts thr s1 s'"
  shows "sys_step hosts thr s s1 \<and>
    (c \<notin> tracked_ids (sys_tpc s h) \<longrightarrow> known (sys_reg s') h c \<noteq> None \<and> (\<nexists>i. runs s' i h c)) \<and>
    ((\<exists>i. runs s' i h c) \<longrightarrow>
      (\<exists>s2 s3. sys_steps hosts thr s1 s2 \<and> forgets hosts thr h c s2 s3 \<and> sys_steps hosts thr s3 s'))"
proof -
  have t: "task_host t = h" "task_cid t = c"
    using task_inv_D(2) [OF task_inv_reachable [OF assms(1)] assms(2)] assms(3) by auto
  have step: "sys_step hosts thr s s1"
    unfolding assms(6) using done_cb [of s tid t out m hosts thr] assms(3-5) t by (simp add: task_of_def)
  have r: "reachable hosts thr cap s'"
    using reachable_steps [OF assms(1)] step assms(7) by (meson converse_rtranclp_into_rtranclp)
  have no: "\<nexists>i. runs s' i h c" if "listed_only s' h c"
    using that task_inv_D(3) [OF task_inv_reachable [OF r]] by (fastforce simp: listed_only_def)
  have tr: "tracked_ids (sys_tpc s1 h) = tracked_ids (sys_tpc s h)" by (simp add: assms(6))
  have "listed_only s1 h c" unfolding assms(6) by (rule ended_listed_only [OF assms(1,2,5)])
  from listed_only_steps [OF assms(7) this] have cases: "listed_only s' h c \<or> c \<in> tracked_ids (sys_tpc s h) \<and>
    (\<exists>s2 s3. sys_steps hosts thr s1 s2 \<and> forgets hosts thr h c s2 s3 \<and> sys_steps hosts thr s3 s')"
    unfolding tr by blast
  moreover have "known (sys_reg s') h c \<noteq> None" if "listed_only s' h c" using that by (simp add: listed_only_def)
  ultimately show ?thesis using step no by blast
qed

theorem self_ended_listener_never_respawned_witness:
  "\<exists>s1. reachable [''d''] 3 1 s1 \<and> known (sys_reg s1) ''d'' ''c'' \<noteq> None \<and>
     {s'. sys_steps [''d''] 3 s1 s' \<and> (\<exists>i. runs s' i ''d'' ''c'')} = {}"
proof -
  obtain s0 where s0: "reachable [''d''] 3 1 s0" "runs s0 0 ''d'' ''c''"
      "known (sys_reg s0) ''d'' ''c'' \<noteq> None" "sys_tpc s0 ''d'' = TIdle" "sys_mgrs s0 ''d'' \<noteq> None"
    using one_listener by blast
  then obtain t m where t: "task_of s0 0 = Some t" "task_st t = Running" and m: "sys_mgrs s0 ''d'' = Some m"
    by (auto simp: runs_def)
  let ?s = "set_ev s0 (end_task (sys_ev s0) 0 (Done Finished))"
  let ?s1 = "set_ev (set_mgr ?s ''d'' (on_done m ''c'' 0)) (end_task (sys_ev ?s) 0 (Collected Finished))"
  have "sys_step [''d''] 3 s0 ?s" using task_end [of s0 0 t Finished] t by (simp add: task_of_def)
  then have r: "reachable [''d''] 3 1 ?s" using reachable_steps [OF s0(1)] by blast
  have reg: "registered ?s ''d'' ''c'' = Some 0" using task_inv_D(3) [OF task_inv_reachable [OF s0(1)] s0(2)] by simp
  have tk: "task_of ?s 0 = Some (t\<lparr>task_st := Done Finished\<rparr>)" using t by (simp add: task_of_def)
  have "sys_mgrs ?s ''d'' = Some m" using m by simp
  note th = self_ended_listener_never_respawned [OF r reg tk _ this refl]
  have "sys_step [''d''] 3 ?s ?s1" using th [of Finished ?s1] by simp
  then have "reachable [''d''] 3 1 ?s1" using reachable_steps [OF r] by blast
  moreover have "{s'. sys_steps [''d''] 3 ?s1 s' \<and> (\<exists>i. runs s' i ''d'' ''c'')} = {}"
    using th [of Finished] s0(4) by auto
  ultimately show ?thesis using s0(3) by (intro exI [of _ ?s1]) simp
qed

end
