(* ===== verification/Redis_Keys.thy ===== *)
theory Redis_Keys
  imports Prelude
begin

text \<open>
  \<^verbatim>\<open>log_sump_common/redis_keys.py\<close>: the Redis key formats every other component uses, and
  \<open>Kind\<close> of \<^verbatim>\<open>schema.py\<close>, which names the two streams of a daemon. The lemmas show that the
  four key families never collide and that a stream key determines its daemon and kind,
  whatever characters a daemon id holds. The SHA-256 of an API key is a parameter
  (\<open>hexdigest\<close>): hashing itself is not modelled.
\<close>

datatype kind = LOG | METRIC

fun kind_value :: "kind \<Rightarrow> string" where
  "kind_value LOG = ''log''"
| "kind_value METRIC = ''metric''"

definition PREFIX :: string where
  "PREFIX = ''logsump''"

definition INGEST_LIST :: string where
  "INGEST_LIST = PREFIX @ '':ingest:v1''"

definition stream_key :: "string \<Rightarrow> kind \<Rightarrow> string" where
  "stream_key docker_host k = PREFIX @ '':stream:'' @ docker_host @ '':'' @ kind_value k"

definition daemon_status_key :: "string \<Rightarrow> string" where
  "daemon_status_key docker_host = PREFIX @ '':daemon:'' @ docker_host @ '':status''"

definition auth_key :: "(string \<Rightarrow> string) \<Rightarrow> string \<Rightarrow> string" where
  "auth_key hexdigest api_key = PREFIX @ '':auth:'' @ hexdigest api_key"

lemmas redis_key_defs = PREFIX_def INGEST_LIST_def stream_key_def daemon_status_key_def auth_key_def

lemma kind_value_inj [simp]: "kind_value k = kind_value k' \<longleftrightarrow> k = k'"
  by (cases k; cases k') simp_all

lemma stream_suffix_inj:
  assumes "h @ '':'' @ kind_value k = h' @ '':'' @ kind_value k'"
  shows "h = h' \<and> k = k'"
proof -
  have "rev (h @ '':'' @ kind_value k) = rev (h' @ '':'' @ kind_value k')"
    using assms by simp
  then show ?thesis
    by (cases k; cases k') simp_all
qed

lemma stream_key_inject [simp]: "stream_key h k = stream_key h' k' \<longleftrightarrow> h = h' \<and> k = k'"
  using stream_suffix_inj [of h k h' k'] by (auto simp: stream_key_def)

lemma key_families_differ [simp]:
  "stream_key h k \<noteq> INGEST_LIST" "INGEST_LIST \<noteq> stream_key h k"
  "stream_key h k \<noteq> daemon_status_key h'" "daemon_status_key h' \<noteq> stream_key h k"
  "stream_key h k \<noteq> auth_key hx a" "auth_key hx a \<noteq> stream_key h k"
  "daemon_status_key h' \<noteq> INGEST_LIST" "auth_key hx a \<noteq> INGEST_LIST"
  "daemon_status_key h' \<noteq> auth_key hx a"
  by (simp_all add: redis_key_defs)

lemma daemon_status_key_inject: "daemon_status_key h = daemon_status_key h' \<longleftrightarrow> h = h'"
  by (auto simp: daemon_status_key_def)

text \<open>
  A stream key names its daemon and its kind: two keys are equal only when both agree,
  even for daemon ids that contain the separator \<open>:\<close> or look like a kind, and no stream
  key is the ingest list, a status key or a credential key.
\<close>

lemma stream_keys_never_collide:
  "(stream_key h k = stream_key h' k' \<longleftrightarrow> h = h' \<and> k = k') \<and>
   stream_key h k \<noteq> INGEST_LIST \<and>
   stream_key h k \<noteq> daemon_status_key h'' \<and>
   stream_key h k \<noteq> auth_key hexdigest api_key"
  by simp

end
