(* ===== verification/Py_Floats.thy ===== *)
theory Py_Floats
  imports Prelude
begin

text \<open>
  Python's \<open>float\<close> (IEEE 754 binary64, round to nearest, ties to even), which the unit
  parsers, the CPU percentage and the stream-id boundaries compute with. A finite value is
  \<open>Fin m e\<close>, standing for \<open>m * 2 ^ e\<close>; every operation computes the exact rational
  result with integers and rounds it once (\<open>round_ratio\<close>), which is what the hardware does.
  \<open>rnd\<close> is the same rounding stated over the reals; \<open>round_ratio_refines\<close> connects the two,
  and monotonicity, exactness and the error bound are proved for \<open>rnd\<close>. The sign of zero is
  not kept (no result of the program depends on it).
\<close>

section \<open>Integer rounding\<close>

definition rne :: "int \<Rightarrow> int \<Rightarrow> int" where
  "rne n d = (let q = n div d; r = n mod d in
     if 2 * r < d then q else if d < 2 * r then q + 1 else if even q then q else q + 1)"

definition rne_real :: "real \<Rightarrow> int" where
  "rne_real x = (let f = \<lfloor>x\<rfloor>; r = x - of_int f in
     if 2 * r < 1 then f else if 1 < 2 * r then f + 1 else if even f then f else f + 1)"

lemma rne_refines:
  assumes "0 < d"
  shows "rne n d = rne_real (of_int n / of_int d)"
proof -
  have f: "\<lfloor>real_of_int n / real_of_int d\<rfloor> = n div d"
    by (rule floor_divide_of_int_eq)
  have "real_of_int n = of_int (n div d) * of_int d + of_int (n mod d)"
    by (metis div_mult_mod_eq of_int_add of_int_mult)
  then have r: "real_of_int n / of_int d - of_int (n div d) = of_int (n mod d) / of_int d"
    using assms by (simp add: field_simps)
  have lt: "2 * (real_of_int (n mod d) / of_int d) < 1 \<longleftrightarrow> 2 * (n mod d) < d"
  proof -
    have "2 * (real_of_int (n mod d) / of_int d) < 1 \<longleftrightarrow> real_of_int (2 * (n mod d)) < of_int d"
      using assms by (simp add: field_simps)
    then show ?thesis by (simp only: of_int_less_iff)
  qed
  have gt: "1 < 2 * (real_of_int (n mod d) / of_int d) \<longleftrightarrow> d < 2 * (n mod d)"
  proof -
    have "1 < 2 * (real_of_int (n mod d) / of_int d) \<longleftrightarrow> of_int d < real_of_int (2 * (n mod d))"
      using assms by (simp add: field_simps)
    then show ?thesis by (simp only: of_int_less_iff)
  qed
  show ?thesis unfolding rne_def rne_real_def Let_def f r lt gt ..
qed

lemma rne_real_cases: "rne_real x = \<lfloor>x\<rfloor> \<or> rne_real x = \<lfloor>x\<rfloor> + 1"
  by (simp add: rne_real_def Let_def)

lemma rne_real_of_int [simp]: "rne_real (of_int k) = k"
  by (simp add: rne_real_def)

lemma rne_real_dist: "\<bar>of_int (rne_real x) - x\<bar> \<le> 1 / 2"
proof -
  have "of_int \<lfloor>x\<rfloor> \<le> x" "x < of_int \<lfloor>x\<rfloor> + 1" by linarith+
  then show ?thesis by (auto simp: rne_real_def Let_def abs_le_iff)
qed

lemma rne_real_mono:
  assumes "x \<le> y"
  shows "rne_real x \<le> rne_real y"
proof (cases "\<lfloor>x\<rfloor> = \<lfloor>y\<rfloor>")
  case True
  then show ?thesis using assms by (auto simp: rne_real_def Let_def)
next
  case False
  then have "\<lfloor>x\<rfloor> + 1 \<le> \<lfloor>y\<rfloor>" using floor_mono [OF assms] by linarith
  then show ?thesis using rne_real_cases [of x] rne_real_cases [of y] by linarith
qed

lemma rne_real_nearest_int:
  assumes "\<bar>x - of_int k\<bar> < 1 / 2"
  shows "rne_real x = k"
proof -
  have "\<bar>real_of_int (rne_real x) - of_int k\<bar> < 1"
    using assms rne_real_dist [of x] by linarith
  then show ?thesis by linarith
qed

lemma rne_real_minus: "rne_real (- x) = - rne_real x"
proof (cases "x = of_int \<lfloor>x\<rfloor>")
  case True
  then show ?thesis by (metis of_int_minus rne_real_of_int)
next
  case False
  then have "of_int \<lfloor>x\<rfloor> < x" "x < of_int \<lfloor>x\<rfloor> + 1" by linarith+
  then have "\<lfloor>- x\<rfloor> = - \<lfloor>x\<rfloor> - 1" by linarith
  then show ?thesis by (auto simp: rne_real_def Let_def)
qed

section \<open>The rounding function over the reals\<close>

definition quantum :: "real \<Rightarrow> int" where
  "quantum x = max (\<lfloor>log 2 \<bar>x\<bar>\<rfloor> - 52) (-1074)"

definition rnd :: "real \<Rightarrow> real" where
  "rnd x = of_int (rne_real (x / 2 powi quantum x)) * 2 powi quantum x"

lemma powi_pos [simp]: "0 < (2::real) powi e"
  by simp

lemma log2_bounds:
  assumes "0 < x"
  shows "2 powi \<lfloor>log 2 x\<rfloor> \<le> x" and "x < 2 powi (\<lfloor>log 2 x\<rfloor> + 1)"
proof -
  have "2 powr of_int \<lfloor>log 2 x\<rfloor> \<le> 2 powr log 2 x" by (intro powr_mono) auto
  then show "2 powi \<lfloor>log 2 x\<rfloor> \<le> x" using assms by (simp add: powr_real_of_int')
  have "2 powr log 2 x < 2 powr of_int (\<lfloor>log 2 x\<rfloor> + 1)"
    by (intro powr_less_mono) linarith+
  then show "x < 2 powi (\<lfloor>log 2 x\<rfloor> + 1)" using assms
    by (simp add: powr_real_of_int' del: of_int_add)
qed

lemma floor_log2_unique:
  assumes "2 powi k \<le> x" and "x < 2 powi (k + 1)"
  shows "\<lfloor>log 2 x\<rfloor> = k"
proof -
  have "0 < x" using assms(1) powi_pos [of k] by linarith
  moreover have "2 powr of_int k \<le> x" "x < 2 powr of_int (k + 1)"
    using assms by (simp_all add: powr_real_of_int' del: of_int_add)
  ultimately have "of_int k \<le> log 2 x" "log 2 x < of_int (k + 1)"
    by (simp_all add: le_log_iff log_less_iff)
  then show ?thesis by linarith
qed

lemma quantum_minus [simp]: "quantum (- x) = quantum x"
  by (simp add: quantum_def)

lemma rnd_minus: "rnd (- x) = - rnd x"
  by (simp add: rnd_def rne_real_minus)

lemma rnd_0 [simp]: "rnd 0 = 0"
  using rne_real_of_int [of 0] by (simp add: rnd_def)

lemma powi_grid:
  assumes "e \<le> k"
  shows "(2::real) powi k = of_int (2 ^ nat (k - e)) * 2 powi e"
proof -
  have "(2::real) powi k = 2 powi (k - e) * 2 powi e"
    by (simp flip: power_int_add)
  moreover have "(2::real) powi (k - e) = of_int (2 ^ nat (k - e))"
    using assms by (simp add: power_int_def)
  ultimately show ?thesis by simp
qed

lemma rnd_error: "\<bar>rnd x - x\<bar> \<le> 2 powi quantum x / 2"
proof -
  let ?q = "2 powi quantum x :: real"
  have "rnd x - x = (of_int (rne_real (x / ?q)) - x / ?q) * ?q"
    by (simp add: rnd_def left_diff_distrib)
  then have "\<bar>rnd x - x\<bar> = \<bar>of_int (rne_real (x / ?q)) - x / ?q\<bar> * ?q"
    by (simp add: abs_mult)
  also have "\<dots> \<le> 1 / 2 * ?q"
    by (intro mult_right_mono rne_real_dist) simp
  finally show ?thesis by simp
qed

lemma rnd_grid_le: "x \<le> of_int j * 2 powi quantum x \<Longrightarrow> rnd x \<le> of_int j * 2 powi quantum x"
proof -
  assume "x \<le> of_int j * 2 powi quantum x"
  then have "x / 2 powi quantum x \<le> of_int j" by (simp add: field_simps)
  then have "rne_real (x / 2 powi quantum x) \<le> j"
    by (metis rne_real_mono rne_real_of_int)
  then show ?thesis by (simp add: rnd_def)
qed

lemma rnd_grid_ge: "of_int j * 2 powi quantum x \<le> x \<Longrightarrow> of_int j * 2 powi quantum x \<le> rnd x"
proof -
  assume "of_int j * 2 powi quantum x \<le> x"
  then have "of_int j \<le> x / 2 powi quantum x" by (simp add: field_simps)
  then have "j \<le> rne_real (x / 2 powi quantum x)"
    by (metis rne_real_mono rne_real_of_int)
  then show ?thesis by (simp add: rnd_def)
qed

lemma rnd_nearest_grid:
  assumes "\<bar>x - of_int j * 2 powi quantum x\<bar> < 2 powi quantum x / 2"
  shows "rnd x = of_int j * 2 powi quantum x"
proof -
  let ?q = "2 powi quantum x :: real"
  have "x / ?q - of_int j = (x - of_int j * ?q) / ?q" by (simp add: diff_divide_distrib)
  then have "\<bar>x / ?q - of_int j\<bar> = \<bar>x - of_int j * ?q\<bar> / ?q" by simp
  also have "\<dots> < 1 / 2" using assms by (simp add: field_simps)
  finally have "rne_real (x / ?q) = j" by (rule rne_real_nearest_int)
  then show ?thesis by (simp add: rnd_def)
qed

lemma rnd_grid_fix:
  assumes "x = of_int j * 2 powi quantum x"
  shows "rnd x = x"
proof -
  have "\<bar>x - of_int j * 2 powi quantum x\<bar> = 0" using assms by linarith
  then have "rnd x = of_int j * 2 powi quantum x" by (intro rnd_nearest_grid) simp
  with assms show ?thesis by linarith
qed

lemma rnd_mono_pos:
  assumes "0 < x" and "x \<le> y"
  shows "rnd x \<le> rnd y"
proof (cases "quantum x = quantum y")
  case True
  have "x / 2 powi quantum y \<le> y / 2 powi quantum y" using assms by (simp add: divide_right_mono)
  then show ?thesis using rne_real_mono by (simp add: rnd_def True)
next
  case False
  let ?k = "\<lfloor>log 2 y\<rfloor>"
  have "log 2 x \<le> log 2 y" using assms by simp
  then have kk: "\<lfloor>log 2 x\<rfloor> \<le> ?k" by (rule floor_mono)
  have q: "quantum x = max (\<lfloor>log 2 x\<rfloor> - 52) (-1074)" "quantum y = max (?k - 52) (-1074)"
    using assms by (simp_all add: quantum_def)
  have lt: "\<lfloor>log 2 x\<rfloor> + 1 \<le> ?k" and qy: "quantum y = ?k - 52" and qx: "quantum x \<le> ?k"
    using False kk unfolding q by linarith+
  have "x < 2 powi (\<lfloor>log 2 x\<rfloor> + 1)" using assms by (intro log2_bounds)
  also have "\<dots> \<le> 2 powi ?k" using lt by (intro power_int_increasing) auto
  finally have "rnd x \<le> 2 powi ?k"
    using rnd_grid_le [of x "2 ^ nat (?k - quantum x)"] powi_grid [OF qx] by simp
  moreover have "2 powi ?k \<le> rnd y"
    using rnd_grid_ge [of "2 ^ nat (?k - quantum y)" y] powi_grid [of "quantum y" ?k]
      log2_bounds(1) [of y] assms qy by simp
  ultimately show ?thesis by simp
qed

lemma rnd_nonneg: "0 \<le> x \<Longrightarrow> 0 \<le> rnd x"
  using rnd_grid_ge [of 0 x] by simp

lemma rnd_mono: "x \<le> y \<Longrightarrow> rnd x \<le> rnd y"
proof -
  assume xy: "x \<le> y"
  consider "0 < x" | "x \<le> 0" "0 \<le> y" | "y < 0" using xy by linarith
  then show ?thesis
  proof cases
    case 1
    then show ?thesis using xy by (rule rnd_mono_pos)
  next
    case 2
    have "0 \<le> rnd (- x)" "0 \<le> rnd y" using 2 by (auto intro: rnd_nonneg)
    then show ?thesis by (simp add: rnd_minus)
  next
    case 3
    have "rnd (- y) \<le> rnd (- x)" using 3 xy by (intro rnd_mono_pos) auto
    then show ?thesis by (simp add: rnd_minus)
  qed
qed

text \<open>Every \<open>m * 2 ^ e\<close> with at most 53 significant bits is a fixed point.\<close>

lemma rnd_exact:
  assumes "\<bar>m\<bar> \<le> 2 ^ 53" and "-1074 \<le> e"
  shows "rnd (of_int m * 2 powi e) = of_int m * 2 powi e"
proof -
  have pos: "rnd (of_int m * 2 powi e) = of_int m * 2 powi e" if m: "0 < m" "m < 2 ^ 53" "-1074 \<le> e" for m e :: int
  proof -
    let ?x = "of_int m * 2 powi e :: real"
    have x0: "0 < ?x" using m by simp
    have "real_of_int m < real_of_int (2 ^ 53)" using m(2) by (simp only: of_int_less_iff)
    then have "?x < real_of_int (2 ^ 53) * 2 powi e" by (intro mult_strict_right_mono) auto
    also have "real_of_int (2 ^ 53) * 2 powi e = 2 ^ 53 * 2 powi e" by simp
    also have "\<dots> = 2 powi (53 + e)" by (simp add: power_int_add)
    finally have "2 powi \<lfloor>log 2 ?x\<rfloor> < (2::real) powi (53 + e)"
      using log2_bounds(1) [OF x0] by linarith
    then have "\<lfloor>log 2 ?x\<rfloor> < 53 + e"
      by (metis not_less power_int_increasing one_le_numeral)
    then have q: "quantum ?x \<le> e" using m x0 by (simp add: quantum_def)
    have x: "?x = of_int (m * 2 ^ nat (e - quantum ?x)) * 2 powi quantum ?x"
      using powi_grid [OF q] by simp
    show ?thesis by (rule rnd_grid_fix [OF x])
  qed
  have all_pos: "rnd (of_int m * 2 powi e) = of_int m * 2 powi e" if m: "0 < m" "m \<le> 2 ^ 53" "-1074 \<le> e" for m e :: int
  proof (cases "m = 2 ^ 53")
    case True
    have "real_of_int m * 2 powi e = of_int (2 ^ 52) * 2 powi (e + 1)"
      by (simp add: True power_int_add)
    then show ?thesis using pos [of "2 ^ 52" "e + 1"] m by (simp only:) simp
  next
    case False
    then show ?thesis using pos m by simp
  qed
  consider "m = 0" | "0 < m" | "m < 0" by linarith
  then show ?thesis
  proof cases
    case 3
    then show ?thesis using all_pos [of "- m" e] assms rnd_minus [of "of_int (- m) * 2 powi e"] by simp
  qed (use all_pos assms in auto)
qed

lemma rnd_of_int: "\<bar>m\<bar> \<le> 2 ^ 53 \<Longrightarrow> rnd (of_int m) = of_int m"
  using rnd_exact [of m 0] by simp

section \<open>The executable representation\<close>

datatype pyfloat = Fin int int | PInf | NInf | NaN

fun fval :: "pyfloat \<Rightarrow> real" where
  "fval (Fin m e) = of_int m * 2 powi e"
| "fval f = 0"

definition is_finite :: "pyfloat \<Rightarrow> bool" where
  "is_finite f = (case f of Fin m e \<Rightarrow> True | _ \<Rightarrow> False)"

fun lg2 :: "int \<Rightarrow> int" where
  "lg2 n = (if n \<le> 1 then 0 else 1 + lg2 (n div 2))"

declare lg2.simps [simp del]

text \<open>\<open>\<lfloor>log 2 (n / d)\<rfloor>\<close> for positive \<open>n\<close> and \<open>d\<close>, by integer comparison.\<close>

definition ratio_exp :: "int \<Rightarrow> int \<Rightarrow> int" where
  "ratio_exp n d = (let k = lg2 n - lg2 d in
     if d * 2 ^ nat k \<le> n * 2 ^ nat (- k) then k else k - 1)"

definition mk_float :: "int \<Rightarrow> int \<Rightarrow> pyfloat" where
  "mk_float m e = (if 971 < e then (if 0 < m then PInf else NInf) else Fin m e)"

lemma mk_float_Fin: "mk_float a b = Fin m e \<Longrightarrow> m = a" "mk_float a b = Fin m e \<Longrightarrow> e = b"
  by (simp_all add: mk_float_def split: if_splits)

lemma mk_float_not_NaN: "mk_float a b \<noteq> NaN"
  by (simp add: mk_float_def)

definition round_ratio :: "int \<Rightarrow> int \<Rightarrow> pyfloat" where
  "round_ratio n d =
     (if n = 0 then Fin 0 (-1074)
      else let e = max (ratio_exp \<bar>n\<bar> d - 52) (-1074);
               m = rne (n * 2 ^ nat (- e)) (d * 2 ^ nat e)
           in if \<bar>m\<bar> = 2 ^ 53 then mk_float (sgn m * 2 ^ 52) (e + 1) else mk_float m e)"

lemma powi_ratio: "(2::real) powi e = 2 ^ nat e / 2 ^ nat (- e)"
  by (cases "0 \<le> e") (simp_all add: power_int_def inverse_eq_divide power_one_over)

lemma lg2_bounds: "1 \<le> n \<Longrightarrow> 0 \<le> lg2 n \<and> 2 ^ nat (lg2 n) \<le> n \<and> n < 2 ^ nat (lg2 n + 1)"
proof (induction n rule: lg2.induct)
  case (1 n)
  show ?case
  proof (cases "n \<le> 1")
    case True
    then show ?thesis using 1 by (simp add: lg2.simps)
  next
    case False
    then have IH: "0 \<le> lg2 (n div 2)" "2 ^ nat (lg2 (n div 2)) \<le> n div 2"
      "n div 2 < 2 ^ nat (lg2 (n div 2) + 1)"
      using "1.IH" by simp_all
    have l: "lg2 n = 1 + lg2 (n div 2)" using False by (simp add: lg2.simps [of n])
    have p: "2 ^ nat (1 + lg2 (n div 2)) = (2::int) * 2 ^ nat (lg2 (n div 2))"
      "2 ^ nat (1 + lg2 (n div 2) + 1) = (2::int) * 2 ^ nat (lg2 (n div 2) + 1)"
      using IH(1) by (simp_all add: nat_add_distrib)
    show ?thesis unfolding l p using IH by linarith
  qed
qed

lemma lg2_real_bounds:
  assumes "1 \<le> n"
  shows "2 powi lg2 n \<le> real_of_int n" and "real_of_int n < 2 powi (lg2 n + 1)"
proof -
  note b = lg2_bounds [OF assms]
  have "real_of_int (2 ^ nat (lg2 n)) \<le> of_int n" "real_of_int n < of_int (2 ^ nat (lg2 n + 1))"
    using b by (simp_all only: of_int_le_iff of_int_less_iff)
  moreover have "real_of_int (2 ^ nat (lg2 n)) = 2 powi lg2 n"
    "real_of_int (2 ^ nat (lg2 n + 1)) = 2 powi (lg2 n + 1)"
    using b by (simp_all add: power_int_def)
  ultimately show "2 powi lg2 n \<le> real_of_int n" "real_of_int n < 2 powi (lg2 n + 1)"
    by metis+
qed

lemma ratio_exp_test:
  assumes "0 < d"
  shows "d * 2 ^ nat k \<le> n * 2 ^ nat (- k) \<longleftrightarrow> 2 powi k \<le> real_of_int n / of_int d"
proof -
  have "2 powi k \<le> real_of_int n / of_int d \<longleftrightarrow>
      real_of_int (d * 2 ^ nat k) \<le> of_int (n * 2 ^ nat (- k))"
    using assms by (simp add: powi_ratio field_simps)
  then show ?thesis by (simp only: of_int_le_iff)
qed

lemma ratio_exp_bounds:
  assumes "0 < n" and "0 < d"
  shows "2 powi ratio_exp n d \<le> real_of_int n / of_int d"
    and "real_of_int n / of_int d < 2 powi (ratio_exp n d + 1)"
proof -
  let ?k = "lg2 n - lg2 d"
  have n: "2 powi lg2 n \<le> real_of_int n" "real_of_int n < 2 powi (lg2 n + 1)"
    and d: "2 powi lg2 d \<le> real_of_int d" "real_of_int d < 2 powi (lg2 d + 1)"
    using assms lg2_real_bounds by simp_all
  have "real_of_int n / of_int d < 2 powi (lg2 n + 1) / 2 powi lg2 d"
    using n d assms by (intro frac_less) auto
  then have up: "real_of_int n / of_int d < 2 powi (?k + 1)"
    by (simp add: power_int_diff power_int_add)
  have "2 powi lg2 n / 2 powi (lg2 d + 1) \<le> real_of_int n / of_int d"
    using n d assms by (intro frac_le) auto
  then have lo: "2 powi (?k - 1) \<le> real_of_int n / of_int d"
    by (simp add: power_int_diff power_int_add)
  show "2 powi ratio_exp n d \<le> real_of_int n / of_int d"
    using lo ratio_exp_test [OF assms(2), of ?k n] by (auto simp: ratio_exp_def Let_def)
  show "real_of_int n / of_int d < 2 powi (ratio_exp n d + 1)"
    using up ratio_exp_test [OF assms(2), of ?k n] by (auto simp: ratio_exp_def Let_def)
qed

lemma ratio_exp_log: "0 < n \<Longrightarrow> 0 < d \<Longrightarrow> ratio_exp n d = \<lfloor>log 2 (real_of_int n / of_int d)\<rfloor>"
  using floor_log2_unique [OF ratio_exp_bounds] by simp

text \<open>The integer algorithm computes the real-number rounding, whatever the result's range.\<close>

lemma significand_carry:
  assumes "\<bar>m\<bar> = 2 ^ 53"
  shows "real_of_int m * 2 powi e = of_int (sgn m * 2 ^ 52) * 2 powi (e + 1)"
proof -
  have "m = sgn m * 2 ^ 53" using assms by (metis mult_sgn_abs)
  then have "real_of_int m = of_int (sgn m) * 2 ^ 53"
    by (metis of_int_mult of_int_numeral of_int_power)
  then have "real_of_int m * 2 powi e = of_int (sgn m) * 2 ^ 53 * 2 powi e" by metis
  also have "\<dots> = of_int (sgn m * 2 ^ 52) * 2 powi (e + 1)" by (simp add: power_int_add)
  finally show ?thesis .
qed

lemma round_ratio_refines:
  assumes "0 < d" and "round_ratio n d = Fin m e"
  shows "fval (Fin m e) = rnd (of_int n / of_int d)"
proof (cases "n = 0")
  case True
  then show ?thesis using assms by (simp add: round_ratio_def)
next
  case False
  let ?x = "real_of_int n / of_int d" and ?e = "max (ratio_exp \<bar>n\<bar> d - 52) (-1074)"
  let ?m = "rne (n * 2 ^ nat (- ?e)) (d * 2 ^ nat ?e)"
  have "\<bar>?x\<bar> = real_of_int \<bar>n\<bar> / of_int d" using assms by simp
  then have q: "quantum ?x = ?e"
    using False assms ratio_exp_log [of "\<bar>n\<bar>" d] by (simp add: quantum_def)
  have "?m = rne_real (of_int (n * 2 ^ nat (- ?e)) / of_int (d * 2 ^ nat ?e))"
    using assms by (intro rne_refines) simp
  also have "of_int (n * 2 ^ nat (- ?e)) / of_int (d * 2 ^ nat ?e) = ?x / 2 powi ?e"
    using assms by (simp add: powi_ratio field_simps)
  finally have r: "rnd ?x = of_int ?m * 2 powi ?e"
    by (simp add: rnd_def q)
  have rr: "round_ratio n d =
      (if \<bar>?m\<bar> = 2 ^ 53 then mk_float (sgn ?m * 2 ^ 52) (?e + 1) else mk_float ?m ?e)"
    using False by (simp only: round_ratio_def if_False Let_def)
  show ?thesis
  proof (cases "\<bar>?m\<bar> = 2 ^ 53")
    case True
    have "mk_float (sgn ?m * 2 ^ 52) (?e + 1) = Fin m e"
      using assms(2) unfolding rr if_P [OF True] .
    then have "m = sgn ?m * 2 ^ 52" "e = ?e + 1" by (rule mk_float_Fin)+
    then show ?thesis using r significand_carry [OF True, of ?e] by (simp only: fval.simps)
  next
    case no: False
    have "mk_float ?m ?e = Fin m e"
      using assms(2) unfolding rr if_not_P [OF no] .
    then have "m = ?m" "e = ?e" by (rule mk_float_Fin)+
    then show ?thesis using r by (simp only: fval.simps)
  qed
qed

lemma is_finite_simps [simp]:
  "is_finite (Fin m e)" "\<not> is_finite PInf" "\<not> is_finite NInf" "\<not> is_finite NaN"
  by (simp_all add: is_finite_def)

lemma is_finite_cases: "is_finite f \<Longrightarrow> \<exists>m e. f = Fin m e"
  by (cases f) auto

lemma round_ratio_val: "0 < d \<Longrightarrow> is_finite (round_ratio n d) \<Longrightarrow>
    fval (round_ratio n d) = rnd (of_int n / of_int d)"
  using is_finite_cases [of "round_ratio n d"] round_ratio_refines [of d n] by auto

lemma round_ratio_zero [simp]: "round_ratio 0 d = Fin 0 (-1074)"
  by (simp add: round_ratio_def)

lemma mk_float_finite: "is_finite (mk_float m e) \<longleftrightarrow> e \<le> 971"
  by (simp add: mk_float_def)

text \<open>No overflow below \<open>2 ^ 1023\<close>.\<close>

lemma round_ratio_finite:
  assumes "0 < d" and "\<bar>real_of_int n\<bar> / of_int d < 2 powi 1023"
  shows "is_finite (round_ratio n d)"
proof (cases "n = 0")
  case True
  then show ?thesis by simp
next
  case False
  have "2 powi ratio_exp \<bar>n\<bar> d \<le> real_of_int \<bar>n\<bar> / of_int d"
    using False assms(1) by (intro ratio_exp_bounds) auto
  also have "\<dots> < 2 powi 1023" using assms(2) by simp
  finally have "ratio_exp \<bar>n\<bar> d < 1023"
    by (metis not_less power_int_increasing one_le_numeral)
  then have "is_finite (mk_float m (max (ratio_exp \<bar>n\<bar> d - 52) (-1074)))"
    "is_finite (mk_float m (max (ratio_exp \<bar>n\<bar> d - 52) (-1074) + 1))" for m
    by (simp_all add: mk_float_finite)
  then show ?thesis using False
    by (simp only: round_ratio_def Let_def if_False split: if_split) blast
qed

section \<open>The operations the program uses\<close>

fun frac_of :: "pyfloat \<Rightarrow> int \<times> int" where
  "frac_of (Fin m e) = (m * 2 ^ nat e, 2 ^ nat (- e))"
| "frac_of f = (0, 1)"

fun fsgn :: "pyfloat \<Rightarrow> int" where
  "fsgn (Fin m e) = sgn m"
| "fsgn PInf = 1"
| "fsgn NInf = -1"
| "fsgn NaN = 0"

fun fmul :: "pyfloat \<Rightarrow> pyfloat \<Rightarrow> pyfloat" where
  "fmul NaN g = NaN"
| "fmul f NaN = NaN"
| "fmul (Fin m e) (Fin m' e') =
     round_ratio (fst (frac_of (Fin m e)) * fst (frac_of (Fin m' e')))
       (snd (frac_of (Fin m e)) * snd (frac_of (Fin m' e')))"
| "fmul f g = (let s = fsgn f * fsgn g in if s = 0 then NaN else if 0 < s then PInf else NInf)"

fun fadd :: "pyfloat \<Rightarrow> pyfloat \<Rightarrow> pyfloat" where
  "fadd NaN g = NaN"
| "fadd f NaN = NaN"
| "fadd (Fin m e) (Fin m' e') =
     round_ratio (fst (frac_of (Fin m e)) * snd (frac_of (Fin m' e')) +
         fst (frac_of (Fin m' e')) * snd (frac_of (Fin m e)))
       (snd (frac_of (Fin m e)) * snd (frac_of (Fin m' e')))"
| "fadd PInf NInf = NaN"
| "fadd NInf PInf = NaN"
| "fadd (Fin m e) g = g"
| "fadd f g = f"

fun fneg :: "pyfloat \<Rightarrow> pyfloat" where
  "fneg (Fin m e) = Fin (- m) e"
| "fneg PInf = NInf"
| "fneg NInf = PInf"
| "fneg NaN = NaN"

definition fsub :: "pyfloat \<Rightarrow> pyfloat \<Rightarrow> pyfloat" where
  "fsub f g = fadd f (fneg g)"

text \<open>\<open>float(n)\<close> of an int, \<open>a / b\<close> of two ints and \<open>x / n\<close> of a float and an int.\<close>

definition float_of_int :: "int \<Rightarrow> pyfloat result" where
  "float_of_int n = (let f = round_ratio n 1 in if is_finite f then Inr f else Inl OverflowError)"

definition int_truediv :: "int \<Rightarrow> int \<Rightarrow> pyfloat result" where
  "int_truediv a b =
     (if b = 0 then Inl ZeroDivisionError
      else let f = round_ratio (a * sgn b) \<bar>b\<bar> in if is_finite f then Inr f else Inl OverflowError)"

fun fdiv_fin :: "pyfloat \<Rightarrow> pyfloat \<Rightarrow> pyfloat" where
  "fdiv_fin (Fin m e) (Fin m' e') =
     round_ratio (fst (frac_of (Fin m e)) * snd (frac_of (Fin m' e')) * sgn m')
       (snd (frac_of (Fin m e)) * fst (frac_of (Fin \<bar>m'\<bar> e')))"
| "fdiv_fin NaN g = NaN"
| "fdiv_fin f g = (if 0 < fsgn f * fsgn g then PInf else NInf)"

definition fdiv_int :: "pyfloat \<Rightarrow> int \<Rightarrow> pyfloat result" where
  "fdiv_int f n = bind_r (float_of_int n) (\<lambda>g. if fsgn g = 0 then Inl ZeroDivisionError else Inr (fdiv_fin f g))"

definition fless :: "pyfloat \<Rightarrow> pyfloat \<Rightarrow> bool" where
  "fless f g = (case (f, g) of
       (NaN, _) \<Rightarrow> False | (_, NaN) \<Rightarrow> False
     | (PInf, _) \<Rightarrow> False | (_, NInf) \<Rightarrow> False
     | (NInf, _) \<Rightarrow> True | (_, PInf) \<Rightarrow> True
     | (Fin m e, Fin m' e') \<Rightarrow>
         fst (frac_of (Fin m e)) * snd (frac_of (Fin m' e')) <
         fst (frac_of (Fin m' e')) * snd (frac_of (Fin m e)))"

text \<open>Python's \<open>max(a, b)\<close>: the first argument unless the second is greater.\<close>

definition py_fmax :: "pyfloat \<Rightarrow> pyfloat \<Rightarrow> pyfloat" where
  "py_fmax a b = (if fless a b then b else a)"

fun py_round :: "pyfloat \<Rightarrow> int result" where
  "py_round (Fin m e) = Inr (rne (fst (frac_of (Fin m e))) (snd (frac_of (Fin m e))))"
| "py_round NaN = Inl ValueError"
| "py_round f = Inl OverflowError"

fun py_trunc :: "pyfloat \<Rightarrow> int result" where
  "py_trunc (Fin m e) = Inr (let n = fst (frac_of (Fin m e)) in sgn n * (\<bar>n\<bar> div snd (frac_of (Fin m e))))"
| "py_trunc NaN = Inl ValueError"
| "py_trunc f = Inl OverflowError"

lemma frac_of_val: "is_finite f \<Longrightarrow> fval f = of_int (fst (frac_of f)) / of_int (snd (frac_of f))"
  by (cases f) (simp_all add: powi_ratio)

lemma frac_of_pos [simp]: "0 < snd (frac_of f)" "snd (frac_of f) \<noteq> 0" "\<not> snd (frac_of f) \<le> 0"
  by (cases f; simp)+

lemma fmul_val:
  assumes "is_finite f" and "is_finite g" and "is_finite (fmul f g)"
  shows "fval (fmul f g) = rnd (fval f * fval g)"
proof -
  obtain m e m' e' where fg: "f = Fin m e" "g = Fin m' e'"
    using assms is_finite_cases by metis
  have "fval (fmul f g) = rnd (of_int (fst (frac_of f) * fst (frac_of g)) / of_int (snd (frac_of f) * snd (frac_of g)))"
    using assms(3) unfolding fg fmul.simps
    by (intro round_ratio_val) (simp_all only: frac_of_pos mult_pos_pos)
  also have "of_int (fst (frac_of f) * fst (frac_of g)) / of_int (snd (frac_of f) * snd (frac_of g)) = fval f * fval g"
    using assms by (simp add: frac_of_val)
  finally show ?thesis .
qed

lemma fadd_val:
  assumes "is_finite f" and "is_finite g" and "is_finite (fadd f g)"
  shows "fval (fadd f g) = rnd (fval f + fval g)"
proof -
  obtain m e m' e' where fg: "f = Fin m e" "g = Fin m' e'"
    using assms is_finite_cases by metis
  let ?n = "fst (frac_of f)" and ?d = "snd (frac_of f)" and ?n' = "fst (frac_of g)" and ?d' = "snd (frac_of g)"
  have pos: "0 < ?d" "0 < ?d'" by simp_all
  have "fval (fadd f g) = rnd (of_int (?n * ?d' + ?n' * ?d) / of_int (?d * ?d'))"
    using assms(3) unfolding fg fadd.simps
    by (intro round_ratio_val) (simp_all only: frac_of_pos mult_pos_pos)
  also have "of_int (?n * ?d' + ?n' * ?d) / of_int (?d * ?d') = fval f + fval g"
    using assms pos by (simp add: frac_of_val add_divide_distrib)
  finally show ?thesis .
qed

text \<open>No overflow while the exact result stays below \<open>2 ^ 1023\<close>.\<close>

lemma fmul_finite:
  assumes "is_finite f" and "is_finite g" and "\<bar>fval f * fval g\<bar> < 2 powi 1023"
  shows "is_finite (fmul f g)"
proof -
  obtain m e m' e' where fg: "f = Fin m e" "g = Fin m' e'" using assms is_finite_cases by metis
  let ?n = "fst (frac_of f)" and ?d = "snd (frac_of f)" and ?n' = "fst (frac_of g)" and ?d' = "snd (frac_of g)"
  have d: "0 < ?d * ?d'" by (simp only: frac_of_pos mult_pos_pos)
  have "\<bar>real_of_int (?n * ?n')\<bar> / of_int (?d * ?d') = \<bar>of_int (?n * ?n') / of_int (?d * ?d')\<bar>"
    using d by (metis abs_divide abs_of_pos of_int_0_less_iff)
  also have "of_int (?n * ?n') / of_int (?d * ?d') = fval f * fval g" using assms by (simp add: frac_of_val)
  finally have "\<bar>real_of_int (?n * ?n')\<bar> / of_int (?d * ?d') < 2 powi 1023" using assms(3) by simp
  from round_ratio_finite [OF d this] show ?thesis unfolding fg fmul.simps .
qed

lemma fadd_finite:
  assumes "is_finite f" and "is_finite g" and "\<bar>fval f + fval g\<bar> < 2 powi 1023"
  shows "is_finite (fadd f g)"
proof -
  obtain m e m' e' where fg: "f = Fin m e" "g = Fin m' e'" using assms is_finite_cases by metis
  let ?n = "fst (frac_of f)" and ?d = "snd (frac_of f)" and ?n' = "fst (frac_of g)" and ?d' = "snd (frac_of g)"
  have d: "0 < ?d * ?d'" by (simp only: frac_of_pos mult_pos_pos)
  have p: "0 < ?d" "0 < ?d'" by simp_all
  have "\<bar>real_of_int (?n * ?d' + ?n' * ?d)\<bar> / of_int (?d * ?d') = \<bar>of_int (?n * ?d' + ?n' * ?d) / of_int (?d * ?d')\<bar>"
    using d by (metis abs_divide abs_of_pos of_int_0_less_iff)
  also have "of_int (?n * ?d' + ?n' * ?d) / of_int (?d * ?d') = fval f + fval g"
    using assms p by (simp add: frac_of_val add_divide_distrib)
  finally have "\<bar>real_of_int (?n * ?d' + ?n' * ?d)\<bar> / of_int (?d * ?d') < 2 powi 1023" using assms(3) by simp
  from round_ratio_finite [OF d this] show ?thesis unfolding fg fadd.simps .
qed

lemma fneg_val [simp]: "fval (fneg f) = - fval f" "is_finite (fneg f) = is_finite f"
  by (cases f; simp)+

lemma fsub_val: "is_finite f \<Longrightarrow> is_finite g \<Longrightarrow> is_finite (fsub f g) \<Longrightarrow>
    fval (fsub f g) = rnd (fval f - fval g)"
  unfolding fsub_def using fadd_val [of f "fneg g"] by simp

lemma int_truediv_val:
  assumes "int_truediv a b = Inr f"
  shows "is_finite f" and "fval f = rnd (of_int a / of_int b)"
proof -
  have f: "b \<noteq> 0" "is_finite f" "f = round_ratio (a * sgn b) \<bar>b\<bar>"
    using assms by (auto simp: int_truediv_def Let_def split: if_splits)
  then show "is_finite f" by simp
  have "real_of_int (a * sgn b) / of_int \<bar>b\<bar> = of_int a / of_int b"
    using f(1) by (auto simp: sgn_if)
  then show "fval f = rnd (of_int a / of_int b)"
    using f round_ratio_val [of "\<bar>b\<bar>" "a * sgn b"] by simp
qed

lemma float_of_int_val:
  assumes "float_of_int a = Inr f"
  shows "is_finite f" and "fval f = rnd (of_int a)"
  using assms round_ratio_val [of 1 a]
  by (auto simp: float_of_int_def Let_def split: if_splits)

lemma fless_val: "is_finite f \<Longrightarrow> is_finite g \<Longrightarrow> fless f g \<longleftrightarrow> fval f < fval g"
proof -
  assume fin: "is_finite f" "is_finite g"
  have pos: "0 < snd (frac_of f)" "0 < snd (frac_of g)" by simp_all
  have "fless f g \<longleftrightarrow> fst (frac_of f) * snd (frac_of g) < fst (frac_of g) * snd (frac_of f)"
    using fin by (cases f; cases g) (simp_all only: fless_def prod.case pyfloat.case is_finite_simps)
  also have "\<dots> \<longleftrightarrow> real_of_int (fst (frac_of f) * snd (frac_of g)) < of_int (fst (frac_of g) * snd (frac_of f))"
    by (simp only: of_int_less_iff)
  also have "\<dots> \<longleftrightarrow> fval f < fval g"
    using pos fin by (simp add: frac_of_val field_simps)
  finally show ?thesis .
qed

lemma py_round_val: "py_round f = Inr k \<Longrightarrow> is_finite f \<and> k = rne_real (fval f)"
  using rne_refines [of "snd (frac_of f)" "fst (frac_of f)"] frac_of_val [of f]
  by (cases f) simp_all

lemma py_trunc_val: "py_trunc f = Inr k \<Longrightarrow> 0 \<le> fval f \<Longrightarrow> is_finite f \<and> k = \<lfloor>fval f\<rfloor>"
proof -
  assume k: "py_trunc f = Inr k" and f0: "0 \<le> fval f"
  then obtain m e where f: "f = Fin m e" by (cases f) auto
  let ?n = "fst (frac_of f)" and ?d = "snd (frac_of f)"
  have v: "fval f = of_int ?n / of_int ?d" using f frac_of_val [of f] by simp
  then have n0: "0 \<le> ?n" using f0 by (simp add: zero_le_divide_iff del: frac_of.simps)
  then have "sgn ?n * (\<bar>?n\<bar> div ?d) = ?n div ?d" by (auto simp: sgn_if)
  moreover have "k = sgn ?n * (\<bar>?n\<bar> div ?d)" using k f by (simp add: Let_def)
  ultimately have "k = ?n div ?d" by simp
  also have "\<dots> = \<lfloor>fval f\<rfloor>" unfolding v by (rule floor_divide_of_int_eq [symmetric])
  finally show ?thesis using f by simp
qed

lemma round_ratio_of_int:
  assumes "\<bar>n\<bar> \<le> 2 ^ 53"
  shows "is_finite (round_ratio n 1)" and "fval (round_ratio n 1) = of_int n"
proof -
  have "\<bar>real_of_int n\<bar> \<le> 2 ^ 53" using assms by (metis of_int_abs of_int_le_iff of_int_numeral of_int_power)
  also have "(2::real) ^ 53 < 2 powi 1023" by (simp add: power_int_def)
  finally show "is_finite (round_ratio n 1)" by (intro round_ratio_finite) simp_all
  then show "fval (round_ratio n 1) = of_int n"
    using round_ratio_val [of 1 n] rnd_of_int [OF assms] by simp
qed

section \<open>Bounds that allow for overflow\<close>

lemma mk_float_overflow:
  "\<not> is_finite (mk_float m e) \<Longrightarrow> mk_float m e = (if 0 < m then PInf else NInf) \<and> 971 < e"
  by (simp add: mk_float_def split: if_splits)

lemma carried_overflow:
  assumes "\<not> is_finite (if \<bar>m\<bar> = 2 ^ 53 then mk_float (sgn m * 2 ^ 52) (e + 1) else mk_float m e)"
  shows "(if \<bar>m\<bar> = 2 ^ 53 then mk_float (sgn m * 2 ^ 52) (e + 1) else mk_float m e) = (if 0 < m then PInf else NInf) \<and> 970 < e"
proof -
  have "0 < sgn m * 2 ^ 52 \<longleftrightarrow> 0 < m" by (simp add: zero_less_mult_iff)
  then show ?thesis using assms by (simp add: mk_float_def split: if_splits)
qed

lemma round_ratio_overflow:
  assumes "0 < d" and "\<not> is_finite (round_ratio n d)"
  shows "round_ratio n d = (if 0 < n then PInf else NInf)"
proof -
  have n0: "n \<noteq> 0" using assms(2) by (metis is_finite_simps(1) round_ratio_zero)
  let ?x = "real_of_int n / of_int d" and ?e = "max (ratio_exp \<bar>n\<bar> d - 52) (-1074)"
  let ?m = "rne (n * 2 ^ nat (- ?e)) (d * 2 ^ nat ?e)"
  have rr: "round_ratio n d = (if \<bar>?m\<bar> = 2 ^ 53 then mk_float (sgn ?m * 2 ^ 52) (?e + 1) else mk_float ?m ?e)"
    using n0 by (simp only: round_ratio_def if_False Let_def)
  have "round_ratio n d = (if 0 < ?m then PInf else NInf) \<and> 970 < ?e"
    using carried_overflow [OF assms(2) [unfolded rr], folded rr] .
  then have inf: "round_ratio n d = (if 0 < ?m then PInf else NInf)" and e: "970 < ?e" by (rule conjunct1, rule conjunct2)
  have "?m = rne_real (of_int (n * 2 ^ nat (- ?e)) / of_int (d * 2 ^ nat ?e))"
    using assms(1) by (intro rne_refines) simp
  also have "of_int (n * 2 ^ nat (- ?e)) / of_int (d * 2 ^ nat ?e) = ?x / 2 powi ?e"
    using assms(1) by (simp add: powi_ratio field_simps)
  finally have m: "?m = rne_real (?x / 2 powi ?e)" .
  have "2 powi ratio_exp \<bar>n\<bar> d \<le> real_of_int \<bar>n\<bar> / of_int d"
    using n0 assms(1) by (intro ratio_exp_bounds) auto
  moreover have "(2::real) powi ?e \<le> 2 powi ratio_exp \<bar>n\<bar> d" using e by (intro power_int_increasing) auto
  ultimately have big: "2 powi ?e \<le> \<bar>?x\<bar>" using assms(1) by simp
  have "0 < ?m \<longleftrightarrow> 0 < n"
  proof (cases "0 < n")
    case True
    then have "1 \<le> ?x / 2 powi ?e" using big assms(1) by (simp add: le_divide_eq mult.commute)
    then have "rne_real (of_int 1) \<le> ?m" unfolding m by (intro rne_real_mono) simp
    then show ?thesis using True unfolding rne_real_of_int by linarith
  next
    case False
    then have "?x / 2 powi ?e \<le> of_int 0" using assms(1) by (simp add: divide_nonpos_pos)
    then have "?m \<le> rne_real (of_int 0)" unfolding m by (intro rne_real_mono) simp
    then show ?thesis using False unfolding rne_real_of_int by linarith
  qed
  then show ?thesis using inf by simp
qed

text \<open>A float on one side of an integer, an infinite one included.\<close>

definition at_most :: "pyfloat \<Rightarrow> int \<Rightarrow> bool" where
  "at_most f b \<longleftrightarrow> f = NInf \<or> is_finite f \<and> fval f \<le> of_int b"

definition at_least :: "pyfloat \<Rightarrow> int \<Rightarrow> bool" where
  "at_least f b \<longleftrightarrow> f = PInf \<or> is_finite f \<and> of_int b \<le> fval f"

lemma small_quotient:
  assumes "0 < d" and "\<bar>real_of_int n / of_int d\<bar> \<le> of_int b" and "b \<le> 2 ^ 53"
  shows "is_finite (round_ratio n d)"
proof (rule round_ratio_finite [OF assms(1)])
  have "of_int b \<le> (2::real) ^ 53" using assms(3) by (metis of_int_le_iff of_int_numeral of_int_power)
  also have "\<dots> < 2 powi 1023" by (simp add: power_int_def)
  finally have "\<bar>real_of_int n / of_int d\<bar> < 2 powi 1023" using assms(2) by linarith
  then show "\<bar>real_of_int n\<bar> / of_int d < 2 powi 1023" using assms(1) by simp
qed

lemma round_ratio_bound:
  assumes "0 < d" and "\<bar>b\<bar> \<le> 2 ^ 53"
  shows "real_of_int n / of_int d \<le> of_int b \<Longrightarrow> at_most (round_ratio n d) b"
    and "of_int b \<le> real_of_int n / of_int d \<Longrightarrow> at_least (round_ratio n d) b"
proof -
  have b: "rnd (of_int b) = of_int b" using rnd_of_int assms(2) by simp
  have fin: "is_finite (round_ratio n d)" if "\<bar>real_of_int n / of_int d\<bar> \<le> of_int \<bar>b\<bar>"
    using small_quotient [OF assms(1) that] assms(2) by simp
  show "at_most (round_ratio n d) b" if x: "real_of_int n / of_int d \<le> of_int b"
  proof (cases "is_finite (round_ratio n d)")
    case True
    then show ?thesis using rnd_mono [OF x] b round_ratio_val [OF assms(1) True] by (simp add: at_most_def)
  next
    case False
    have "\<not> 0 < n"
    proof
      assume "0 < n"
      then have "0 < real_of_int n / of_int d" using assms(1) by simp
      then have "\<bar>real_of_int n / of_int d\<bar> \<le> of_int \<bar>b\<bar>" unfolding abs_of_pos [OF \<open>0 < real_of_int n / of_int d\<close>] using x by simp
      then show False using fin False by blast
    qed
    then show ?thesis using round_ratio_overflow [OF assms(1) False] by (simp add: at_most_def)
  qed
  show "at_least (round_ratio n d) b" if x: "of_int b \<le> real_of_int n / of_int d"
  proof (cases "is_finite (round_ratio n d)")
    case True
    then show ?thesis using rnd_mono [OF x] b round_ratio_val [OF assms(1) True] by (simp add: at_least_def)
  next
    case False
    have "0 < n"
    proof (rule ccontr)
      assume "\<not> 0 < n"
      then have np: "real_of_int n / of_int d \<le> 0" using assms(1) by (simp add: divide_nonpos_pos)
      have "\<bar>real_of_int n / of_int d\<bar> \<le> of_int \<bar>b\<bar>" unfolding abs_of_nonpos [OF np] using x by simp
      then show False using fin False by blast
    qed
    then show ?thesis using round_ratio_overflow [OF assms(1) False] by (simp add: at_least_def)
  qed
qed

text \<open>Sums and products of finite floats, on one side of a bound by their exact values.\<close>

lemma fmul_bound:
  assumes "is_finite f" and "is_finite g" and "\<bar>b\<bar> \<le> 2 ^ 53"
  shows "fval f * fval g \<le> of_int b \<Longrightarrow> at_most (fmul f g) b"
    and "of_int b \<le> fval f * fval g \<Longrightarrow> at_least (fmul f g) b"
proof -
  obtain m e m' e' where fg: "f = Fin m e" "g = Fin m' e'" using assms is_finite_cases by metis
  have d: "0 < snd (frac_of f) * snd (frac_of g)" by (simp only: frac_of_pos mult_pos_pos)
  have v: "real_of_int (fst (frac_of f) * fst (frac_of g)) / of_int (snd (frac_of f) * snd (frac_of g)) = fval f * fval g"
    using assms by (simp add: frac_of_val)
  have m: "fmul f g = round_ratio (fst (frac_of f) * fst (frac_of g)) (snd (frac_of f) * snd (frac_of g))"
    unfolding fg fmul.simps ..
  note rb = round_ratio_bound [OF d assms(3), of "fst (frac_of f) * fst (frac_of g)", unfolded v, folded m]
  show "fval f * fval g \<le> of_int b \<Longrightarrow> at_most (fmul f g) b" by (rule rb(1))
  show "of_int b \<le> fval f * fval g \<Longrightarrow> at_least (fmul f g) b" by (rule rb(2))
qed

lemma fsub_bound:
  assumes "is_finite f" and "is_finite g" and "\<bar>b\<bar> \<le> 2 ^ 53"
  shows "fval f - fval g \<le> of_int b \<Longrightarrow> at_most (fsub f g) b"
    and "of_int b \<le> fval f - fval g \<Longrightarrow> at_least (fsub f g) b"
proof -
  have g: "is_finite (fneg g)" using assms(2) by simp
  obtain m e m' e' where fg: "f = Fin m e" "fneg g = Fin m' e'" using assms(1) g is_finite_cases by metis
  let ?n = "fst (frac_of f) * snd (frac_of (fneg g)) + fst (frac_of (fneg g)) * snd (frac_of f)"
    and ?d = "snd (frac_of f) * snd (frac_of (fneg g))"
  have d: "0 < ?d" by (simp only: frac_of_pos mult_pos_pos)
  have "fval f - fval g = fval f + fval (fneg g)" by simp
  also have "\<dots> = real_of_int ?n / of_int ?d"
    unfolding frac_of_val [OF assms(1)] frac_of_val [OF g] by (simp add: add_divide_distrib)
  finally have v: "real_of_int ?n / of_int ?d = fval f - fval g" by simp
  have m: "fsub f g = round_ratio ?n ?d" unfolding fsub_def fg fadd.simps ..
  note rb = round_ratio_bound [OF d assms(3), of ?n, unfolded v, folded m]
  show "fval f - fval g \<le> of_int b \<Longrightarrow> at_most (fsub f g) b" by (rule rb(1))
  show "of_int b \<le> fval f - fval g \<Longrightarrow> at_least (fsub f g) b" by (rule rb(2))
qed

lemma fmul_infinite:
  assumes "is_finite f" and "0 < fval f"
  shows "fmul f PInf = PInf" and "fmul f NInf = NInf"
proof -
  obtain m e where f: "f = Fin m e" "0 < m" using assms by (cases f) (auto simp: zero_less_mult_iff dest: order.asym [OF powi_pos])
  then show "fmul f PInf = PInf" "fmul f NInf = NInf" by simp_all
qed

lemma fless_zero:
  shows "at_most g 0 \<Longrightarrow> \<not> fless (round_ratio 0 1) g" and "at_least g b \<Longrightarrow> 0 < b \<Longrightarrow> fless (round_ratio 0 1) g"
proof -
  have z: "is_finite (Fin 0 (-1074))" "fval (Fin 0 (-1074)) = 0" by simp_all
  show "\<not> fless (round_ratio 0 1) g" if "at_most g 0"
  proof (cases "is_finite g")
    case True
    then show ?thesis using that fless_val [OF z(1) True] by (auto simp: at_most_def)
  next
    case False
    then show ?thesis using that by (simp add: at_most_def fless_def)
  qed
  show "fless (round_ratio 0 1) g" if "at_least g b" "0 < b"
  proof (cases "is_finite g")
    case True
    have "0 < real_of_int b" using that(2) by simp
    then have "0 < fval g" using that(1) True unfolding at_least_def by (auto simp del: of_int_0_less_iff)
    then show ?thesis using fless_val [OF z(1) True] z(2) by simp
  next
    case False
    then show ?thesis using that by (simp add: at_least_def fless_def)
  qed
qed

lemma fless_asym: "fless f g \<Longrightarrow> \<not> fless g f"
  by (cases f; cases g) (auto simp: fless_def)

lemma py_fmax_ge: "\<not> fless (py_fmax a b) a"
  using fless_asym [of a b] fless_asym [of a a] by (auto simp: py_fmax_def)

end
