(* ===== verification/Py_Strings.thy ===== *)
theory Py_Strings
  imports Prelude Py_Floats "HOL-Library.Char_ord"
begin

text \<open>
  The \<open>str\<close> operations the program calls, and \<open>int\<close>, \<open>float\<close> and decimal printing. A
  \<open>str\<close> is a \<open>string\<close> whose characters are the code points 0 to 255, so every class test
  and case mapping below is Python's on that range (white space and line breaks include the
  control characters and \<open>\<close>0x85, 0xA0). The two lower-case letters of the range whose upper-case
  form lies outside it (0xB5, 0xFF) are left unchanged by \<open>py_upper\<close>.
\<close>

section \<open>Character classes\<close>

definition is_space :: "char \<Rightarrow> bool" where
  "is_space c = (let n = (of_char c :: nat) in
     9 \<le> n \<and> n \<le> 13 \<or> 28 \<le> n \<and> n \<le> 32 \<or> n = 133 \<or> n = 160)"

definition is_linebreak :: "char \<Rightarrow> bool" where
  "is_linebreak c = (let n = (of_char c :: nat) in 10 \<le> n \<and> n \<le> 13 \<or> 28 \<le> n \<and> n \<le> 30 \<or> n = 133)"

definition is_dec :: "char \<Rightarrow> bool" where
  "is_dec c = (let n = (of_char c :: nat) in 48 \<le> n \<and> n \<le> 57)"

definition is_lower_az :: "char \<Rightarrow> bool" where
  "is_lower_az c = (let n = (of_char c :: nat) in 97 \<le> n \<and> n \<le> 122)"

definition is_alpha_az :: "char \<Rightarrow> bool" where
  "is_alpha_az c = (let n = (of_char c :: nat) in 65 \<le> n \<and> n \<le> 90 \<or> 97 \<le> n \<and> n \<le> 122)"

text \<open>\<open>str.isdigit\<close>: also true of the superscripts 0xB2, 0xB3 and 0xB9, which \<open>int\<close> rejects.\<close>

definition py_isdigit :: "string \<Rightarrow> bool" where
  "py_isdigit s \<longleftrightarrow> s \<noteq> [] \<and>
     (\<forall>c\<in>set s. is_dec c \<or> of_char c \<in> {178, 179, 185 :: nat})"

definition upper_char :: "char \<Rightarrow> string" where
  "upper_char c = (let n = (of_char c :: nat) in
     if is_lower_az c \<or> 224 \<le> n \<and> n \<le> 254 \<and> n \<noteq> 247 then [char_of (n - 32)]
     else if n = 223 then ''SS'' else [c])"

definition lower_char :: "char \<Rightarrow> char" where
  "lower_char c = (let n = (of_char c :: nat) in
     if 65 \<le> n \<and> n \<le> 90 \<or> 192 \<le> n \<and> n \<le> 222 \<and> n \<noteq> 215 then char_of (n + 32) else c)"

definition py_upper :: "string \<Rightarrow> string" where
  "py_upper s = concat (map upper_char s)"

definition py_lower :: "string \<Rightarrow> string" where
  "py_lower s = map lower_char s"

lemma linebreak_is_space: "is_linebreak c \<Longrightarrow> is_space c"
  by (auto simp: is_linebreak_def is_space_def Let_def)

section \<open>Stripping, splitting, searching\<close>

definition py_lstrip :: "string \<Rightarrow> string" where
  "py_lstrip s = dropWhile is_space s"

definition py_rstrip :: "string \<Rightarrow> string" where
  "py_rstrip s = rev (dropWhile is_space (rev s))"

definition py_strip :: "string \<Rightarrow> string" where
  "py_strip s = py_rstrip (py_lstrip s)"

text \<open>\<open>s.rstrip("\<close>\<open>\n\<close>\<open>")\<close>: drops trailing newlines only.\<close>

definition rstrip_nl :: "string \<Rightarrow> string" where
  "rstrip_nl s = rev (dropWhile (\<lambda>c. c = CHR 0x0A) (rev s))"

fun split_acc :: "string \<Rightarrow> string \<Rightarrow> string list" where
  "split_acc cur [] = (if cur = [] then [] else [rev cur])"
| "split_acc cur (c # cs) =
     (if is_space c then (if cur = [] then split_acc [] cs else rev cur # split_acc [] cs)
      else split_acc (c # cur) cs)"

definition py_split :: "string \<Rightarrow> string list" where
  "py_split s = split_acc [] s"

function splitlines_acc :: "string \<Rightarrow> string \<Rightarrow> string list" where
  "splitlines_acc cur [] = (if cur = [] then [] else [rev cur])"
| "splitlines_acc cur (c # cs) =
     (if is_linebreak c
      then rev cur # splitlines_acc []
             (if c = CHR 0x0D \<and> cs \<noteq> [] \<and> hd cs = CHR 0x0A then tl cs else cs)
      else splitlines_acc (c # cur) cs)"
  by pat_completeness auto
termination
  by (relation "measure (\<lambda>(cur, s). length s)") auto

definition py_splitlines :: "string \<Rightarrow> string list" where
  "py_splitlines s = splitlines_acc [] s"

text \<open>\<open>s.partition(sep)\<close> for a one-character separator; the flag says whether it was found.\<close>

definition py_partition :: "char \<Rightarrow> string \<Rightarrow> string \<times> bool \<times> string" where
  "py_partition sep s =
     (case dropWhile (\<lambda>c. c \<noteq> sep) s of
        [] \<Rightarrow> (s, False, [])
      | _ # rest \<Rightarrow> (takeWhile (\<lambda>c. c \<noteq> sep) s, True, rest))"

definition py_startswith :: "string \<Rightarrow> string \<Rightarrow> bool" where
  "py_startswith s p = (take (length p) s = p)"

definition py_endswith :: "string \<Rightarrow> string \<Rightarrow> bool" where
  "py_endswith s p = (take (length p) (rev s) = rev p)"

definition drop_right :: "nat \<Rightarrow> string \<Rightarrow> string" where
  "drop_right n s = take (length s - n) s"

fun py_contains :: "string \<Rightarrow> string \<Rightarrow> bool" where
  "py_contains needle [] = (needle = [])"
| "py_contains needle (c # cs) = (py_startswith (c # cs) needle \<or> py_contains needle cs)"

definition replace_char :: "char \<Rightarrow> string \<Rightarrow> string \<Rightarrow> string" where
  "replace_char c r s = concat (map (\<lambda>x. if x = c then r else [x]) s)"

fun join_nl :: "string list \<Rightarrow> string" where
  "join_nl [] = []"
| "join_nl [l] = l"
| "join_nl (l # ls) = l @ CHR 0x0A # join_nl ls"

section \<open>Numbers\<close>

definition digit_val :: "char \<Rightarrow> int" where
  "digit_val c = int (of_char c) - 48"

fun int_digits :: "bool \<Rightarrow> int \<Rightarrow> nat \<Rightarrow> string \<Rightarrow> (int \<times> nat) option" where
  "int_digits prev acc n [] = (if prev then Some (acc, n) else None)"
| "int_digits prev acc n (c # cs) =
     (if is_dec c then int_digits True (10 * acc + digit_val c) (Suc n) cs
      else if c = CHR ''_'' \<and> prev then int_digits False acc n cs
      else None)"

fun take_sign :: "string \<Rightarrow> bool \<times> string" where
  "take_sign [] = (False, [])"
| "take_sign (c # cs) =
     (if c = CHR ''-'' then (True, cs) else if c = CHR ''+'' then (False, cs) else (False, c # cs))"

text \<open>\<open>int(s)\<close>, with the interpreter's default limit of 4300 digits.\<close>

definition py_int :: "string \<Rightarrow> int result" where
  "py_int s = (case take_sign (py_strip s) of (neg, body) \<Rightarrow>
     (case int_digits False 0 0 body of
        None \<Rightarrow> Inl ValueError
      | Some (v, n) \<Rightarrow> if 4300 < n then Inl ValueError else Inr (if neg then - v else v)))"

definition decimal_val :: "string \<Rightarrow> int" where
  "decimal_val s = foldl (\<lambda>acc c. 10 * acc + digit_val c) 0 s"

text \<open>\<open>float(s)\<close>: an underscore only between two digits, then sign, \<open>inf\<close> / \<open>nan\<close> or a decimal.\<close>

fun underscores_ok :: "bool \<Rightarrow> string \<Rightarrow> bool" where
  "underscores_ok prev [] = True"
| "underscores_ok prev (c # cs) =
     (if c = CHR ''_'' then prev \<and> cs \<noteq> [] \<and> is_dec (hd cs) \<and> underscores_ok False cs
      else underscores_ok (is_dec c) cs)"

definition exponent_part :: "string \<Rightarrow> int option" where
  "exponent_part s =
     (case s of
        [] \<Rightarrow> Some 0
      | c # cs \<Rightarrow>
          if c = CHR ''e'' \<or> c = CHR ''E'' then
            (case take_sign cs of (neg, ds) \<Rightarrow>
              if ds \<noteq> [] \<and> (\<forall>d\<in>set ds. is_dec d)
              then Some (if neg then - decimal_val ds else decimal_val ds) else None)
          else None)"

definition scaled_float :: "int \<Rightarrow> int \<Rightarrow> pyfloat" where
  "scaled_float n k = (if 0 \<le> k then round_ratio (n * 10 ^ nat k) 1 else round_ratio n (10 ^ nat (- k)))"

text \<open>Integer digits, fraction digits and what follows them.\<close>

definition split_mantissa :: "string \<Rightarrow> string \<times> string \<times> string" where
  "split_mantissa s =
     (case dropWhile is_dec s of
        [] \<Rightarrow> (takeWhile is_dec s, [], [])
      | c # r \<Rightarrow>
          if c = CHR ''.'' then (takeWhile is_dec s, takeWhile is_dec r, dropWhile is_dec r)
          else (takeWhile is_dec s, [], c # r))"

definition float_body :: "string \<Rightarrow> pyfloat option" where
  "float_body s =
     (case split_mantissa s of (i, f, r) \<Rightarrow>
        if i = [] \<and> f = [] then None
        else map_option (\<lambda>e. scaled_float (decimal_val (i @ f)) (e - int (length f))) (exponent_part r))"

definition py_float :: "string \<Rightarrow> pyfloat result" where
  "py_float s =
     (let t = py_strip s in
      if \<not> underscores_ok False t then Inl ValueError
      else case take_sign (filter (\<lambda>c. c \<noteq> CHR ''_'') t) of (neg, body) \<Rightarrow>
        (let low = py_lower body;
             v = (if low = ''inf'' \<or> low = ''infinity'' then Some PInf
                  else if low = ''nan'' then Some NaN else float_body body)
         in case v of None \<Rightarrow> Inl ValueError | Some f \<Rightarrow> Inr (if neg then fneg f else f)))"

fun show_nat :: "nat \<Rightarrow> string" where
  "show_nat n = (if n < 10 then [char_of (48 + n)] else show_nat (n div 10) @ [char_of (48 + n mod 10)])"

declare show_nat.simps [simp del]

definition show_int :: "int \<Rightarrow> string" where
  "show_int i = (if i < 0 then CHR ''-'' # show_nat (nat (- i)) else show_nat (nat i))"

text \<open>\<open>repr\<close> of a \<open>str\<close>.\<close>

definition hex_digit :: "nat \<Rightarrow> char" where
  "hex_digit n = (if n < 10 then char_of (48 + n) else char_of (87 + n))"

definition repr_char :: "char \<Rightarrow> char \<Rightarrow> string" where
  "repr_char q c = (let n = (of_char c :: nat) in
     if c = q \<or> n = 92 then [char_of (92 :: nat), c]
     else if n = 9 then [char_of (92 :: nat), CHR ''t'']
     else if n = 10 then [char_of (92 :: nat), CHR ''n'']
     else if n = 13 then [char_of (92 :: nat), CHR ''r'']
     else if n < 32 \<or> 127 \<le> n \<and> n \<le> 160 \<or> n = 173
       then [char_of (92 :: nat), CHR ''x'', hex_digit (n div 16), hex_digit (n mod 16)]
     else [c])"

definition py_repr :: "string \<Rightarrow> string" where
  "py_repr s = (let single = char_of (39 :: nat); double = char_of (34 :: nat);
     q = (if single \<in> set s \<and> double \<notin> set s then double else single)
     in q # concat (map (repr_char q) s) @ [q])"

section \<open>Facts about the operations\<close>

lemma py_partition_found:
  "py_partition sep s = (l, True, r) \<Longrightarrow> s = l @ sep # r \<and> sep \<notin> set l"
proof -
  assume p: "py_partition sep s = (l, True, r)"
  then obtain c where d: "dropWhile (\<lambda>c. c \<noteq> sep) s = c # r" and l: "l = takeWhile (\<lambda>c. c \<noteq> sep) s"
    by (auto simp: py_partition_def split: list.splits)
  have "c = sep" using hd_dropWhile [of "\<lambda>c. c \<noteq> sep" s] d by simp
  then show ?thesis using d l takeWhile_dropWhile_id [of "\<lambda>c. c \<noteq> sep" s] set_takeWhileD by fastforce
qed

lemma py_partition_intro: "sep \<notin> set l \<Longrightarrow> py_partition sep (l @ sep # r) = (l, True, r)"
proof -
  assume "sep \<notin> set l"
  then have d: "dropWhile (\<lambda>c. c \<noteq> sep) (l @ sep # r) = sep # r"
    and t: "takeWhile (\<lambda>c. c \<noteq> sep) (l @ sep # r) = l"
    by (auto intro: takeWhile_append_stop dropWhile_append_stop)
  show ?thesis unfolding py_partition_def d t by simp
qed

lemma py_partition_not_found: "sep \<notin> set s \<Longrightarrow> py_partition sep s = (s, False, [])"
proof -
  assume "sep \<notin> set s"
  then have d: "dropWhile (\<lambda>c. c \<noteq> sep) s = []" by (auto simp: dropWhile_eq_Nil_conv)
  show ?thesis unfolding py_partition_def d by simp
qed

lemma split_acc_words:
  assumes "\<forall>c\<in>set cur. \<not> is_space c" and "w \<in> set (split_acc cur s)"
  shows "w \<noteq> [] \<and> (\<forall>c\<in>set w. \<not> is_space c)"
  using assms
proof (induction s arbitrary: cur)
  case Nil
  then show ?case by (cases "cur = []") auto
next
  case (Cons c s)
  show ?case
  proof (cases "is_space c")
    case True
    then have "w \<in> set (split_acc [] s) \<or> cur \<noteq> [] \<and> w = rev cur"
      using Cons.prems(2) by (cases "cur = []") auto
    then show ?thesis using Cons.IH [of "[]"] Cons.prems(1) by auto
  next
    case False
    show ?thesis
    proof (rule Cons.IH)
      show "\<forall>d\<in>set (c # cur). \<not> is_space d" using Cons.prems(1) False by simp
      show "w \<in> set (split_acc (c # cur) s)"
        using Cons.prems(2) unfolding split_acc.simps if_not_P [OF False] .
    qed
  qed
qed

lemma py_split_words: "w \<in> set (py_split s) \<Longrightarrow> w \<noteq> [] \<and> (\<forall>c\<in>set w. \<not> is_space c)"
  using split_acc_words [of "[]" w s] by (simp add: py_split_def)

lemma splitlines_acc_clean:
  assumes "\<forall>c\<in>set cur. \<not> is_linebreak c" and "l \<in> set (splitlines_acc cur s)"
  shows "\<forall>c\<in>set l. \<not> is_linebreak c"
  using assms
proof (induction cur s rule: splitlines_acc.induct)
  case (1 cur)
  then show ?case by (cases "cur = []") auto
next
  case (2 cur c cs)
  show ?case
  proof (cases "is_linebreak c")
    case True
    then have "l = rev cur \<or> l \<in> set (splitlines_acc [] (if c = CHR 0x0D \<and> cs \<noteq> [] \<and> hd cs = CHR 0x0A then tl cs else cs))"
      using "2.prems"(2) by simp
    then show ?thesis using "2.IH"(1) [OF True] "2.prems"(1) by force
  next
    case False
    show ?thesis
    proof (rule "2.IH"(2) [OF False])
      show "\<forall>d\<in>set (c # cur). \<not> is_linebreak d" using "2.prems"(1) False by simp
      show "l \<in> set (splitlines_acc (c # cur) cs)"
        using "2.prems"(2) unfolding splitlines_acc.simps if_not_P [OF False] .
    qed
  qed
qed

lemma py_splitlines_clean: "l \<in> set (py_splitlines s) \<Longrightarrow> c \<in> set l \<Longrightarrow> \<not> is_linebreak c"
  using splitlines_acc_clean [of "[]" l s] by (simp add: py_splitlines_def)

lemma splitlines_acc_line:
  "\<forall>c\<in>set l. \<not> is_linebreak c \<Longrightarrow>
   splitlines_acc cur (l @ CHR 0x0A # s) = (rev cur @ l) # splitlines_acc [] s"
  by (induction l arbitrary: cur) (auto simp: is_linebreak_def Let_def)

lemma splitlines_acc_last:
  "\<forall>c\<in>set l. \<not> is_linebreak c \<Longrightarrow>
   splitlines_acc cur l = (if cur = [] \<and> l = [] then [] else [rev cur @ l])"
  by (induction l arbitrary: cur) (auto simp: Let_def)

text \<open>Splitting the join of clean lines gives the lines back (an empty last line is dropped).\<close>

lemma splitlines_join_nl:
  "\<forall>l\<in>set ls. \<forall>c\<in>set l. \<not> is_linebreak c \<Longrightarrow> ls \<noteq> [] \<Longrightarrow> last ls \<noteq> [] \<Longrightarrow>
   py_splitlines (join_nl ls) = ls"
proof (induction ls rule: join_nl.induct)
  case (2 l)
  then show ?case using splitlines_acc_last [of l "[]"] by (simp add: py_splitlines_def)
next
  case (3 l l' ls)
  then show ?case using splitlines_acc_line [of l "[]"] by (simp add: py_splitlines_def)
qed simp

text \<open>Splitting words joined by single spaces gives the words back.\<close>

fun join_with :: "string \<Rightarrow> string list \<Rightarrow> string" where
  "join_with sep [] = []"
| "join_with sep [x] = x"
| "join_with sep (x # y # zs) = x @ sep @ join_with sep (y # zs)"

lemma split_acc_word:
  "\<forall>c\<in>set w. \<not> is_space c \<Longrightarrow> split_acc cur (w @ s) = split_acc (rev w @ cur) s"
  by (induction w arbitrary: cur) auto

lemma py_split_join:
  "\<forall>w\<in>set ws. w \<noteq> [] \<and> (\<forall>c\<in>set w. \<not> is_space c) \<Longrightarrow> py_split (join_with '' '' ws) = ws"
proof (induction "'' ''" ws rule: join_with.induct)
  case (2 x)
  then show ?case using split_acc_word [of x "[]" "[]"] by (simp add: py_split_def)
next
  case (3 x y zs)
  have "split_acc (rev x) (CHR '' '' # join_with '' '' (y # zs)) = x # split_acc [] (join_with '' '' (y # zs))"
    using 3 by (simp add: is_space_def)
  then show ?case using 3 split_acc_word [of x "[]" "CHR '' '' # join_with '' '' (y # zs)"]
    by (simp add: py_split_def)
qed (simp add: py_split_def)

text \<open>A printed file: every line ended by a newline.\<close>

definition print_lines :: "string list \<Rightarrow> string" where
  "print_lines ls = concat (map (\<lambda>l. l @ [CHR 0x0A]) ls)"

lemma splitlines_print_lines:
  "\<forall>l\<in>set ls. \<forall>c\<in>set l. \<not> is_linebreak c \<Longrightarrow> py_splitlines (print_lines ls) = ls"
proof (induction ls)
  case (Cons l ls)
  then show ?case using splitlines_acc_line [of l "[]"] by (simp add: py_splitlines_def print_lines_def)
qed (simp add: py_splitlines_def print_lines_def)

lemma py_strip_snoc_space: "is_space c \<Longrightarrow> py_strip (s @ [c]) = py_strip s"
proof -
  assume c: "is_space c"
  have "py_lstrip (s @ [c]) = (if \<forall>x\<in>set s. is_space x then [] else py_lstrip s @ [c])"
    using c by (induction s) (auto simp: py_lstrip_def)
  moreover have "py_lstrip s = []" if "\<forall>x\<in>set s. is_space x"
    using that by (simp add: py_lstrip_def dropWhile_eq_Nil_conv)
  ultimately show ?thesis using c by (auto simp: py_strip_def py_rstrip_def)
qed

lemma py_strip_Cons_space: "is_space c \<Longrightarrow> py_strip (c # s) = py_strip s"
  by (simp add: py_strip_def py_lstrip_def)

lemma py_strip_no_space: "\<forall>c\<in>set s. \<not> is_space c \<Longrightarrow> py_strip s = s"
proof -
  assume a: "\<forall>c\<in>set s. \<not> is_space c"
  have keep: "dropWhile is_space t = t" if "\<forall>c\<in>set t. \<not> is_space c" for t
    using that by (cases t) auto
  have "dropWhile is_space s = s" "dropWhile is_space (rev s) = rev s"
    using a keep [of s] keep [of "rev s"] by auto
  then show ?thesis by (simp only: py_strip_def py_rstrip_def py_lstrip_def rev_rev_ident)
qed

lemma digit_val_digit_char: "n < 10 \<Longrightarrow> digit_val (char_of (48 + n :: nat)) = int n"
  by (simp add: digit_val_def)

lemma is_dec_digit_char: "n < 10 \<Longrightarrow> is_dec (char_of (48 + n :: nat))"
  by (simp add: is_dec_def)

lemma show_nat_digits: "c \<in> set (show_nat n) \<Longrightarrow> is_dec c"
proof (induction n rule: show_nat.induct)
  case (1 n)
  have "c \<in> set (if n < 10 then [char_of (48 + n)] else show_nat (n div 10) @ [char_of (48 + n mod 10)])"
    using "1.prems" by (subst (asm) show_nat.simps)
  then show ?case
    using "1.IH" is_dec_digit_char [of n] is_dec_digit_char [of "n mod 10"] by (auto split: if_splits)
qed

lemma show_nat_0 [simp]: "show_nat 0 = ''0''"
  by code_simp

lemma show_nat_nonempty [simp]: "show_nat n \<noteq> []"
  by (subst show_nat.simps) simp

lemma decimal_val_snoc: "decimal_val (ds @ [d]) = 10 * decimal_val ds + digit_val d"
  by (simp add: decimal_val_def)

lemma decimal_val_show_nat: "decimal_val (show_nat n) = int n"
proof (induction n rule: show_nat.induct)
  case (1 n)
  show ?case
  proof (cases "n < 10")
    case True
    then show ?thesis
      using digit_val_digit_char [of n] by (simp add: show_nat.simps [of n] decimal_val_def)
  next
    case False
    have "int n = int (10 * (n div 10) + n mod 10)" by simp
    then have "10 * int (n div 10) + int (n mod 10) = int n" by linarith
    then show ?thesis
      using False "1.IH" digit_val_digit_char [of "n mod 10"]
      by (simp add: show_nat.simps [of n] decimal_val_snoc)
  qed
qed

lemma show_nat_inject [simp]: "show_nat n = show_nat m \<longleftrightarrow> n = m"
  by (metis decimal_val_show_nat of_nat_eq_iff)

lemma is_dec_not_space: "is_dec c \<Longrightarrow> \<not> is_space c"
  by (auto simp: is_dec_def is_space_def Let_def)

lemma is_dec_not_dash: "is_dec c \<Longrightarrow> c \<noteq> CHR ''-''" "is_dec c \<Longrightarrow> c \<noteq> CHR ''+''" "is_dec c \<Longrightarrow> c \<noteq> CHR ''_''"
  by (auto simp: is_dec_def Let_def)

lemma take_sign_digits: "\<forall>c\<in>set ds. is_dec c \<Longrightarrow> take_sign ds = (False, ds)"
  using is_dec_not_dash by (cases ds) auto

lemma int_digits_all:
  "\<forall>c\<in>set ds. is_dec c \<Longrightarrow> prev \<or> ds \<noteq> [] \<Longrightarrow>
   int_digits prev acc n ds = Some (foldl (\<lambda>a c. 10 * a + digit_val c) acc ds, n + length ds)"
  by (induction ds arbitrary: prev acc n) auto

text \<open>\<open>int\<close> of a run of digits within the limit is the number they spell.\<close>

lemma py_int_digits:
  assumes "\<forall>c\<in>set ds. is_dec c" and "ds \<noteq> []" and "length ds \<le> 4300"
  shows "py_int ds = Inr (decimal_val ds)"
proof -
  have "py_strip ds = ds" using assms is_dec_not_space by (intro py_strip_no_space) auto
  moreover have "take_sign ds = (False, ds)" using assms by (intro take_sign_digits) auto
  moreover have "int_digits False 0 0 ds = Some (decimal_val ds, length ds)"
    using int_digits_all [of ds False 0 0] assms by (simp add: decimal_val_def)
  ultimately show ?thesis using assms by (simp add: py_int_def)
qed

lemma decimal_val_nonneg: "\<forall>c\<in>set ds. is_dec c \<Longrightarrow> 0 \<le> decimal_val ds"
proof (induction ds rule: rev_induct)
  case Nil
  then show ?case by (simp add: decimal_val_def)
next
  case (snoc d ds)
  then have "0 \<le> digit_val d" by (auto simp: digit_val_def is_dec_def Let_def)
  with snoc show ?case by (simp add: decimal_val_snoc)
qed

lemma py_int_error: "py_int s = Inl e \<Longrightarrow> e = ValueError"
  by (auto simp: py_int_def split: prod.splits option.splits if_splits)

lemma py_float_error: "py_float s = Inl e \<Longrightarrow> e = ValueError"
  by (auto simp: py_float_def Let_def split: prod.splits option.splits if_splits)

lemma split_mantissa_digits:
  "split_mantissa s = (i, f, r) \<Longrightarrow> \<forall>c\<in>set (i @ f). is_dec c"
  by (auto simp: split_mantissa_def dest: set_takeWhileD split: list.splits if_splits)

lemma float_body_Some:
  "float_body s = Some x \<Longrightarrow> \<exists>i f r e. split_mantissa s = (i, f, r) \<and> exponent_part r = Some e \<and>
     x = scaled_float (decimal_val (i @ f)) (e - int (length f))"
  by (cases "split_mantissa s") (auto simp only: float_body_def prod.case map_option_eq_Some
      option.distinct split: if_splits)

end
