(* ===== verification/Schema.thy ===== *)
theory Schema
  imports Redis_Keys Py_Strings
begin

text \<open>
  \<^verbatim>\<open>log_sump_common/schema.py\<close>: the two record variants and their shared identity fields, with
  the JSON values they carry. What the program calls but does not define is one record of
  functions, \<open>runtime\<close>: the JSON decoder (\<open>None\<close> is its \<open>ValueError\<close>), \<open>str\<close> of a JSON value
  that is not a string, \<open>datetime.fromisoformat\<close>, and the pydantic adapter behind
  \<open>RecordAdapter\<close> (\<open>None\<close> is its \<open>ValidationError\<close>). Nothing is assumed of them unless a
  statement says so; \<open>adapter_roundtrips\<close> names the only property used.
\<close>

section \<open>JSON values and dictionaries\<close>

datatype json =
    JNull
  | JBool bool
  | JInt int
  | JFloat pyfloat
  | JStr string
  | JArr "json list"
  | JObj "(string \<times> json) list"

type_synonym json_dict = "(string \<times> json) list"

definition dict_get :: "json_dict \<Rightarrow> string \<Rightarrow> json option" where
  "dict_get d k = map_of d k"

definition dict_remove :: "json_dict \<Rightarrow> string \<Rightarrow> json_dict" where
  "dict_remove d k = filter (\<lambda>kv. fst kv \<noteq> k) d"

text \<open>\<open>d.pop(k, default)\<close>: the value and the dictionary without the key.\<close>

definition dict_pop :: "json_dict \<Rightarrow> string \<Rightarrow> json \<Rightarrow> json \<times> json_dict" where
  "dict_pop d k dflt = (case dict_get d k of None \<Rightarrow> (dflt, d) | Some v \<Rightarrow> (v, dict_remove d k))"

fun json_truthy :: "json \<Rightarrow> bool" where
  "json_truthy JNull = False"
| "json_truthy (JBool b) = b"
| "json_truthy (JInt i) = (i \<noteq> 0)"
| "json_truthy (JFloat f) = (case f of Fin m e \<Rightarrow> m \<noteq> 0 | _ \<Rightarrow> True)"
| "json_truthy (JStr s) = (s \<noteq> [])"
| "json_truthy (JArr xs) = (xs \<noteq> [])"
| "json_truthy (JObj d) = (d \<noteq> [])"

text \<open>Lists and dicts cannot be dictionary keys or set members: using one raises \<open>TypeError\<close>.\<close>

fun hashable :: "json \<Rightarrow> bool" where
  "hashable (JArr xs) = False"
| "hashable (JObj d) = False"
| "hashable v = True"

lemma dict_get_remove [simp]: "dict_get (dict_remove d k) k' = (if k' = k then None else dict_get d k')"
  by (induction d) (auto simp: dict_get_def dict_remove_def)

lemma dict_pop_get:
  "dict_pop d k v = (x, d') \<Longrightarrow>
   x = (case dict_get d k of None \<Rightarrow> v | Some y \<Rightarrow> y) \<and>
   dict_get d' k' = (if k' = k then None else dict_get d k')"
  by (auto simp: dict_pop_def split: option.splits)

section \<open>Records\<close>

record datetime =
  dt_us :: int
  dt_aware :: bool

definition SYSTEM_SCOPE_ID :: string where
  "SYSTEM_SCOPE_ID = ''__system__''"

record record_base =
  docker_host :: string
  container_name :: string
  container_id :: string
  ts :: datetime
  seq :: int

datatype stream_name = STDOUT | STDERR

record log_record = record_base +
  stream :: stream_name
  level :: string
  message :: string
  log_fields :: json_dict
  raw :: string

datatype metric_scope = CONTAINER | SYSTEM

record metric_record = record_base +
  metric_scope :: metric_scope
  cpu_pct :: "pyfloat option"
  mem_used_bytes :: "int option"
  mem_limit_bytes :: "int option"
  mem_pct :: "pyfloat option"
  net_rx_bytes :: "int option"
  net_tx_bytes :: "int option"
  blk_read_bytes :: "int option"
  blk_write_bytes :: "int option"
  pids :: "int option"
  system :: "json option"
  source :: string
  raw_data :: json

datatype sump_record = LogRecord log_record | MetricRecord metric_record

fun rec_kind :: "sump_record \<Rightarrow> kind" where
  "rec_kind (LogRecord r) = LOG"
| "rec_kind (MetricRecord r) = METRIC"

fun rec_docker_host :: "sump_record \<Rightarrow> string" where
  "rec_docker_host (LogRecord r) = docker_host r"
| "rec_docker_host (MetricRecord r) = docker_host r"

fun rec_container_id :: "sump_record \<Rightarrow> string" where
  "rec_container_id (LogRecord r) = container_id r"
| "rec_container_id (MetricRecord r) = container_id r"

fun rec_ts :: "sump_record \<Rightarrow> datetime" where
  "rec_ts (LogRecord r) = ts r"
| "rec_ts (MetricRecord r) = ts r"

fun rec_seq :: "sump_record \<Rightarrow> int" where
  "rec_seq (LogRecord r) = seq r"
| "rec_seq (MetricRecord r) = seq r"

section \<open>What the program calls but does not define\<close>

record runtime =
  rt_loads :: "string \<Rightarrow> json option"
  rt_str :: "json \<Rightarrow> string"
  rt_fromisoformat :: "string \<Rightarrow> datetime option"
  rt_validate_json :: "string \<Rightarrow> sump_record option"
  rt_dump_json :: "sump_record \<Rightarrow> string"

definition py_str :: "runtime \<Rightarrow> json \<Rightarrow> string" where
  "py_str rt v = (case v of JStr s \<Rightarrow> s | _ \<Rightarrow> rt_str rt v)"

definition json_loads :: "runtime \<Rightarrow> string \<Rightarrow> json result" where
  "json_loads rt s = (case rt_loads rt s of None \<Rightarrow> Inl ValueError | Some v \<Rightarrow> Inr v)"

text \<open>\<open>RecordAdapter\<close>.\<close>

definition validate_json :: "runtime \<Rightarrow> string \<Rightarrow> sump_record result" where
  "validate_json rt data = (case rt_validate_json rt data of None \<Rightarrow> Inl ValidationError | Some r \<Rightarrow> Inr r)"

definition dump_json :: "runtime \<Rightarrow> sump_record \<Rightarrow> string" where
  "dump_json rt r = rt_dump_json rt r"

text \<open>
  The documented behaviour of pydantic's adapter that the pipeline relies on: a record it
  wrote, it reads back. Stated for the records of a set \<open>R\<close> because it does not hold of every
  one (an infinite or NaN percentage is written as \<open>null\<close>).
\<close>

definition adapter_roundtrips :: "runtime \<Rightarrow> sump_record set \<Rightarrow> bool" where
  "adapter_roundtrips rt R \<longleftrightarrow> (\<forall>r\<in>R. rt_validate_json rt (rt_dump_json rt r) = Some r)"

text \<open>A runtime given by two tables, for evaluating the definitions on concrete inputs.\<close>

definition table_runtime :: "(string \<times> json) list \<Rightarrow> (string \<times> datetime) list \<Rightarrow> runtime" where
  "table_runtime loads isos =
     \<lparr>rt_loads = map_of loads, rt_str = (\<lambda>v. ''?''), rt_fromisoformat = map_of isos,
      rt_validate_json = (\<lambda>s. None), rt_dump_json = (\<lambda>r. ''{}'')\<rparr>"

lemma table_runtime_loads [simp]: "json_loads (table_runtime ls is) s =
    (case map_of ls s of None \<Rightarrow> Inl ValueError | Some v \<Rightarrow> Inr v)"
  by (simp add: json_loads_def table_runtime_def)

lemma table_runtime_iso [simp]: "rt_fromisoformat (table_runtime ls is) = map_of is"
  by (simp add: table_runtime_def)

lemma json_loads_error: "json_loads rt s = Inl e \<Longrightarrow> e = ValueError"
  by (auto simp: json_loads_def split: option.splits)

lemma validate_dump: "adapter_roundtrips rt R \<Longrightarrow> r \<in> R \<Longrightarrow> validate_json rt (dump_json rt r) = Inr r"
  by (simp add: adapter_roundtrips_def validate_json_def dump_json_def)

text \<open>An adapter that accepts one text and writes one text, for the witnesses.\<close>

definition one_record_runtime :: "string \<Rightarrow> sump_record \<Rightarrow> runtime" where
  "one_record_runtime text_in r = (table_runtime [] [])\<lparr>rt_validate_json := (\<lambda>s. if s = text_in then Some r else None),
     rt_dump_json := (\<lambda>r'. text_in)\<rparr>"

definition sample_log :: "string \<Rightarrow> int \<Rightarrow> sump_record" where
  "sample_log h n = LogRecord \<lparr>docker_host = h, container_name = ''web'', container_id = ''c'',
     ts = \<lparr>dt_us = 0, dt_aware = True\<rparr>, seq = n, stream = STDOUT, level = ''info'', message = ''m'',
     log_fields = [], raw = ''r''\<rparr>"

end
