(* ===== verification/Transport.thy ===== *)
theory Transport
  imports Schema
begin

text \<open>
  \<^verbatim>\<open>log_sump_common/transport.py\<close> without \<open>_merge_streams\<close> (theory \<open>Merge_Streams\<close>): the two
  transports, the argv they build, \<open>run\<close> and \<open>run_shell\<close> with what happens to the child
  process, and \<open>ExecResult.check\<close>. The operating system is the parameter \<open>os\<close>: what a child
  started with an argv answers, and the decoding of its output with \<open>errors="replace"\<close>.

  The documented fact the module's comments turn on, that \<open>ssh\<close> joins the arguments after the
  destination with spaces and hands the result to the remote shell, is the hypothesis
  \<open>command_options\<close> on the parameter \<open>ssh\<close>, which sees nothing but the argv.
\<close>

record exec_result =
  returncode :: int
  stdout :: string
  stderr :: string

definition check :: "exec_result \<Rightarrow> exec_result result" where
  "check r =
     (if returncode r \<noteq> 0
      then Inl (TransportError (''command exited '' @ show_int (returncode r) @ '': '' @ py_strip (stderr r)))
      else Inr r)"

record stream_line =
  sl_stream :: stream_name
  sl_text :: string

datatype transport =
    SSHTransport string string "string list"
  | LocalTransport

fun command_prefix :: "transport \<Rightarrow> string list" where
  "command_prefix (SSHTransport host user ssh_options) = [''ssh''] @ ssh_options @ [user @ ''@'' @ host]"
| "command_prefix LocalTransport = []"

fun shell_command :: "transport \<Rightarrow> string \<Rightarrow> string list" where
  "shell_command (SSHTransport host user ssh_options) script = [script]"
| "shell_command LocalTransport script = [''sh'', ''-c'', script]"

definition argv :: "transport \<Rightarrow> string list \<Rightarrow> string list" where
  "argv t args = command_prefix t @ args"

section \<open>One-shot commands\<close>

text \<open>What awaiting \<open>proc.communicate()\<close> gives, and what the code does to the child.\<close>

datatype 'b communicated = Communicated "int option" 'b 'b | CommCancelled

datatype proc_effect = Spawn "string list" | Kill | Wait

record 'b os =
  os_exec :: "string list \<Rightarrow> 'b communicated result"
  os_decode :: "'b \<Rightarrow> string"

definition run_argv :: "'b os \<Rightarrow> string list \<Rightarrow> proc_effect list \<times> exec_result result" where
  "run_argv os av =
     (case os_exec os av of
        Inl e \<Rightarrow> ([], Inl e)
      | Inr CommCancelled \<Rightarrow> ([Spawn av, Kill, Wait], Inl CancelledError)
      | Inr (Communicated rc out err) \<Rightarrow>
          ([Spawn av], Inr \<lparr>returncode = (case rc of None \<Rightarrow> 0 | Some c \<Rightarrow> c),
             stdout = os_decode os out, stderr = os_decode os err\<rparr>))"

definition transport_run :: "'b os \<Rightarrow> transport \<Rightarrow> string list \<Rightarrow> proc_effect list \<times> exec_result result" where
  "transport_run os t args = run_argv os (argv t args)"

definition run_shell :: "'b os \<Rightarrow> transport \<Rightarrow> string \<Rightarrow> proc_effect list \<times> exec_result result" where
  "run_shell os t script = transport_run os t (shell_command t script)"

text \<open>
  \<open>stream_lines\<close>: the child is started, the body reads the merged lines, and the \<open>finally\<close>
  block closes the merged stream and then kills and reaps a child that has not exited by then.
  The inputs are what starting the child and \<open>lines.aclose()\<close> give: a second cancellation of
  the task, while it closes the stream, is raised there.
\<close>

definition stream_lines :: "transport \<Rightarrow> string list \<Rightarrow> unit result \<Rightarrow> unit result \<Rightarrow> int option
    \<Rightarrow> proc_effect list \<times> unit result" where
  "stream_lines t args started closing rc_at_exit =
     (case started of
        Inl e \<Rightarrow> ([], Inl e)
      | Inr u \<Rightarrow>
          (case closing of
             Inl e \<Rightarrow> ([Spawn (argv t args)], Inl e)
           | Inr u \<Rightarrow> (Spawn (argv t args) # (if rc_at_exit = None then [Kill, Wait] else []), Inr ())))"

lemma check_ok: "check r = Inr r' \<longleftrightarrow> returncode r = 0 \<and> r' = r"
  by (auto simp: check_def)

lemma check_error: "check r = Inl e \<Longrightarrow> caught_by_cycle e"
  by (auto simp: check_def split: if_splits)

section \<open>What reaches a shell\<close>

text \<open>
  What a started argv makes a shell interpret: the host of the shell (\<open>None\<close> is this one) and
  the script. \<open>ssh\<close> is a parameter: for the arguments it is started with, the destination it
  connects to and the command line it hands to the remote shell, or \<open>None\<close> when it runs none.
\<close>

type_synonym ssh_client = "string list \<Rightarrow> (string \<times> string) option"

text \<open>A word neither \<open>ssh\<close> nor \<open>sh\<close> takes for an option or for no command at all.\<close>

definition plain_word :: "string \<Rightarrow> bool" where
  "plain_word w \<longleftrightarrow> w \<noteq> [] \<and> hd w \<noteq> CHR ''-''"

definition interpreted :: "ssh_client \<Rightarrow> string list \<Rightarrow> (string option \<times> string) option" where
  "interpreted ssh av =
     (case av of
        [] \<Rightarrow> None
      | prog # args \<Rightarrow>
          if prog = ''ssh'' then map_option (\<lambda>(dest, line). (Some dest, line)) (ssh args)
          else if prog = ''sh'' then (case args of [opt, script] \<Rightarrow> if opt = ''-c'' \<and> plain_word script then Some (None, script) else None | _ \<Rightarrow> None)
          else None)"

text \<open>
  What is documented of \<open>ssh\<close>: after options that leave it a command to run (not \<open>-N\<close>, for
  one), the next word is the destination, and the words after it are joined with spaces into
  the command line; neither the destination nor the first of these words looks like an option.
\<close>

definition command_options :: "ssh_client \<Rightarrow> string list \<Rightarrow> bool" where
  "command_options ssh opts \<longleftrightarrow>
     (\<forall>dest w ws. plain_word dest \<and> plain_word w \<longrightarrow>
        ssh (opts @ [dest] @ w # ws) = Some (dest, join_with '' '' (w # ws)))"

fun target :: "transport \<Rightarrow> string option" where
  "target (SSHTransport host user ssh_options) = Some (user @ ''@'' @ host)"
| "target LocalTransport = None"

fun reaches :: "ssh_client \<Rightarrow> transport \<Rightarrow> bool" where
  "reaches ssh (SSHTransport host user ssh_options) \<longleftrightarrow>
     command_options ssh ssh_options \<and> plain_word user"
| "reaches ssh LocalTransport \<longleftrightarrow> True"

lemma ssh_interpreted:
  assumes "reaches ssh (SSHTransport host user opts)" and "plain_word w"
  shows "interpreted ssh (argv (SSHTransport host user opts) (w # ws)) = Some (Some (user @ ''@'' @ host), join_with '' '' (w # ws))"
proof -
  have "plain_word (user @ ''@'' @ host)" using assms(1) by (auto simp: plain_word_def)
  then have "ssh (opts @ [user @ ''@'' @ host] @ w # ws) = Some (user @ ''@'' @ host, join_with '' '' (w # ws))"
    using assms unfolding reaches.simps command_options_def by blast
  then show ?thesis by (simp add: interpreted_def argv_def)
qed

lemma shell_interpreted:
  "reaches ssh t \<Longrightarrow> plain_word script \<Longrightarrow> interpreted ssh (argv t (shell_command t script)) = Some (target t, script)"
  by (cases t) (simp_all add: ssh_interpreted del: reaches.simps(1), simp add: interpreted_def argv_def)

text \<open>An \<open>ssh\<close> that takes words with a leading dash as options, for the witnesses.\<close>

definition dash_ssh :: ssh_client where
  "dash_ssh args =
     (case dropWhile (\<lambda>w. take 1 w = ''-'') args of
        dest # w # ws \<Rightarrow> Some (dest, join_with '' '' (w # ws))
      | _ \<Rightarrow> None)"

lemma dash_ssh_options: "\<forall>w\<in>set opts. take 1 w = ''-'' \<Longrightarrow> command_options dash_ssh opts"
  by (auto simp: command_options_def dash_ssh_def dropWhile_append plain_word_def take_Suc split: list.splits)

section \<open>Properties\<close>

text \<open>
  C32. \<open>run_shell\<close> starts at most one child, and the argv it is started with makes one shell
  on the daemon's host interpret the whole script unchanged, whatever the script holds
  (spaces, \<open>;\<close>, quotes) unless it starts like an option: for an SSH transport whose user does
  not and whose options let \<open>ssh\<close> run a command, as for a local one. Over SSH
  the plain \<open>sh -c script\<close> that is right locally would be joined into one line and the script
  lost as an argument.
\<close>

theorem run_shell_delivers_script:
  assumes "reaches ssh t" and "plain_word script"
  shows "(\<forall>av. Spawn av \<in> set (fst (run_shell os t script)) \<longrightarrow> interpreted ssh av = Some (target t, script)) \<and>
    (fst (run_shell os t script) = [] \<longleftrightarrow> (\<exists>e. os_exec os (argv t (shell_command t script)) = Inl e)) \<and>
    length (filter (\<lambda>x. case x of Spawn av \<Rightarrow> True | _ \<Rightarrow> False) (fst (run_shell os t script))) \<le> 1 \<and>
    (t \<noteq> LocalTransport \<longrightarrow>
      interpreted ssh (argv t (shell_command LocalTransport script)) = Some (target t, ''sh -c '' @ script))"
proof -
  note sh = shell_interpreted [OF assms]
  have "interpreted ssh (argv t (shell_command LocalTransport script)) = Some (target t, ''sh -c '' @ script)"
    if "t \<noteq> LocalTransport"
    using that assms by (cases t) (simp_all add: ssh_interpreted plain_word_def del: reaches.simps(1))
  then show ?thesis using sh
    by (auto simp: run_shell_def transport_run_def run_argv_def split: sum.splits communicated.splits)
qed

theorem run_shell_delivers_script_witness:
  "let t = SSHTransport ''h'' ''root'' [''-q'']; script = ''cat a; cat b'';
       os = \<lparr>os_exec = (\<lambda>av. Inr (Communicated (Some 0) ''ok'' [])), os_decode = (\<lambda>b. b)\<rparr>
   in fst (run_shell os t script) = [Spawn [''ssh'', ''-q'', ''root@h'', script]] \<and>
      interpreted dash_ssh [''ssh'', ''-q'', ''root@h'', script] = Some (Some ''root@h'', script)"
proof -
  let ?t = "SSHTransport ''h'' ''root'' [''-q'']"
  let ?os = "\<lparr>os_exec = (\<lambda>av. Inr (Communicated (Some 0) ''ok'' [])), os_decode = (\<lambda>b. b)\<rparr>"
  have "reaches dash_ssh ?t" using dash_ssh_options [of "[''-q'']"] by (simp add: plain_word_def)
  moreover have "plain_word ''cat a; cat b''" by (simp add: plain_word_def)
  moreover have "fst (run_shell ?os ?t ''cat a; cat b'') = [Spawn [''ssh'', ''-q'', ''root@h'', ''cat a; cat b'']]"
    by (simp add: run_shell_def transport_run_def run_argv_def argv_def)
  ultimately show ?thesis
    using run_shell_delivers_script [of dash_ssh ?t "''cat a; cat b''" ?os] unfolding Let_def by simp
qed

text \<open>
  When a child is killed: \<open>run\<close> returns only the output of a child that has ended, and when it
  is cancelled it kills and reaps the child before the cancellation goes on; leaving
  \<open>stream_lines\<close> kills and reaps a child that is still alive and leaves an ended one alone,
  unless the closing of the stream is interrupted: then the child is left running.
\<close>

lemma child_processes_killed:
  "(snd (transport_run os t args) = Inl CancelledError \<and> os_exec os (argv t args) \<noteq> Inl CancelledError \<longrightarrow>
      fst (transport_run os t args) = [Spawn (argv t args), Kill, Wait]) \<and>
   (\<forall>r. snd (transport_run os t args) = Inr r \<longrightarrow>
      (\<exists>rc out err. os_exec os (argv t args) = Inr (Communicated rc out err) \<and>
        fst (transport_run os t args) = [Spawn (argv t args)])) \<and>
   fst (stream_lines t args (Inr ()) closing rc) =
     Spawn (argv t args) # (if closing = Inr () \<and> rc = None then [Kill, Wait] else [])"
  by (auto simp: transport_run_def run_argv_def stream_lines_def split: sum.splits communicated.splits)

end
