(* ===== verification/Merge_Streams.thy ===== *)
theory Merge_Streams
  imports Transport
begin

text \<open>
  \<open>_merge_streams\<close> of \<^verbatim>\<open>log_sump_common/transport.py\<close>: two pump tasks read the child's stdout
  and stderr and put their lines, then a \<open>None\<close> sentinel, on one queue; the generator takes
  items off the queue until it has seen both sentinels. A step of \<open>merge_step\<close> is one line
  read, one stream ended, or one item taken, in any order. A line longer than the reader's
  limit makes \<open>StreamReader.readline\<close> raise \<open>ValueError\<close> inside its pump (\<open>TooLong\<close>).

  Lemmas: the lines of each stream come out in order and none is lost; a measure decreases
  with every step, so each run ends; it ends with the generator finished exactly when both
  pumps reached the end of their stream.
\<close>

datatype raw_line = Line string | TooLong

datatype pump_state = Reading | Finished_pump | Dead_pump py_error

record merge =
  unread :: "stream_name \<Rightarrow> raw_line list"
  pump :: "stream_name \<Rightarrow> pump_state"
  queue :: "stream_line option list"
  remaining :: nat
  yielded :: "stream_line list"

definition mk_line :: "stream_name \<Rightarrow> string \<Rightarrow> stream_line" where
  "mk_line name text = \<lparr>sl_stream = name, sl_text = rstrip_nl text\<rparr>"

definition start_merge :: "(stream_name \<Rightarrow> raw_line list) \<Rightarrow> merge" where
  "start_merge input = \<lparr>unread = input, pump = (\<lambda>s. Reading), queue = [], remaining = 2, yielded = []\<rparr>"

text \<open>One turn of a pump, and one turn of the generator's loop.\<close>

definition pump_turn :: "stream_name \<Rightarrow> merge \<Rightarrow> merge option" where
  "pump_turn name m =
     (if pump m name \<noteq> Reading then None
      else case unread m name of
        [] \<Rightarrow> Some (m\<lparr>queue := queue m @ [None], pump := (pump m)(name := Finished_pump)\<rparr>)
      | Line text # rest \<Rightarrow>
          Some (m\<lparr>queue := queue m @ [Some (mk_line name text)], unread := (unread m)(name := rest)\<rparr>)
      | TooLong # rest \<Rightarrow> Some (m\<lparr>pump := (pump m)(name := Dead_pump ValueError)\<rparr>))"

definition generator_turn :: "merge \<Rightarrow> merge option" where
  "generator_turn m =
     (if remaining m = 0 then None
      else case queue m of
        [] \<Rightarrow> None
      | None # q \<Rightarrow> Some (m\<lparr>queue := q, remaining := remaining m - 1\<rparr>)
      | Some item # q \<Rightarrow> Some (m\<lparr>queue := q, yielded := yielded m @ [item]\<rparr>))"

inductive merge_step :: "merge \<Rightarrow> merge \<Rightarrow> bool" where
  pump_moves: "pump_turn name m = Some m' \<Longrightarrow> merge_step m m'"
| generator_moves: "generator_turn m = Some m' \<Longrightarrow> merge_step m m'"

inductive_cases merge_stepE: "merge_step m m'"

abbreviation merge_steps :: "merge \<Rightarrow> merge \<Rightarrow> bool" where
  "merge_steps \<equiv> merge_step\<^sup>*\<^sup>*"

definition generator_finished :: "merge \<Rightarrow> bool" where
  "generator_finished m \<longleftrightarrow> remaining m = 0"

definition stuck :: "merge \<Rightarrow> bool" where
  "stuck m \<longleftrightarrow> (\<nexists>m'. merge_step m m')"

section \<open>Nothing lost, order kept\<close>

definition lines_of :: "stream_name \<Rightarrow> stream_line list \<Rightarrow> stream_line list" where
  "lines_of name xs = filter (\<lambda>l. sl_stream l = name) xs"

fun texts :: "stream_name \<Rightarrow> raw_line list \<Rightarrow> stream_line list" where
  "texts name [] = []"
| "texts name (Line text # rest) = mk_line name text # texts name rest"
| "texts name (TooLong # rest) = texts name rest"

definition queued :: "stream_line option list \<Rightarrow> stream_line list" where
  "queued q = List.map_filter (\<lambda>x. x) q"

lemma queued_simps [simp]:
  "queued [] = []" "queued (None # q) = queued q" "queued (Some x # q) = x # queued q"
  "queued (q @ q') = queued q @ queued q'"
  by (simp_all add: queued_def List.map_filter_def)

lemma lines_of_simps [simp]:
  "lines_of name [] = []" "lines_of name (xs @ ys) = lines_of name xs @ lines_of name ys"
  "lines_of name (mk_line name' t # xs) = (if name' = name then mk_line name t # lines_of name xs else lines_of name xs)"
  by (simp_all add: lines_of_def mk_line_def)

lemma lines_of_Cons: "lines_of name (x # xs) = lines_of name [x] @ lines_of name xs"
  by (simp add: lines_of_def)

definition sentinels :: "merge \<Rightarrow> nat" where
  "sentinels m = count_list (queue m) None"

definition reading :: "merge \<Rightarrow> nat" where
  "reading m = length (filter (\<lambda>s. pump m s = Reading) [STDOUT, STDERR])"

definition dead :: "merge \<Rightarrow> nat" where
  "dead m = length (filter (\<lambda>s. \<exists>e. pump m s = Dead_pump e) [STDOUT, STDERR])"

text \<open>The items put after the last sentinel still in the queue.\<close>

definition after_sentinel :: "stream_line option list \<Rightarrow> stream_line option set" where
  "after_sentinel q = set (takeWhile (\<lambda>x. x \<noteq> None) (rev q))"

lemma after_sentinel_simps [simp]:
  "after_sentinel [] = {}" "after_sentinel (q @ [None]) = {}"
  "after_sentinel (q @ [Some l]) = insert (Some l) (after_sentinel q)"
  by (simp_all add: after_sentinel_def)

lemma after_sentinel_tl: "y \<in> after_sentinel q \<Longrightarrow> y \<in> after_sentinel (x # q)"
  unfolding after_sentinel_def rev.simps using takeWhile_append_subset [of _ "rev q" "[x]"] by blast

lemma after_sentinel_all: "count_list q None = 0 \<Longrightarrow> after_sentinel q = set q"
proof -
  assume "count_list q None = 0"
  then have "\<forall>x\<in>set (rev q). x \<noteq> None" by (metis count_list_0_iff set_rev)
  then have "takeWhile (\<lambda>x. x \<noteq> None) (rev q) = rev q" by (simp only: takeWhile_eq_all_conv)
  then show ?thesis unfolding after_sentinel_def by (simp only: set_rev)
qed

definition account :: "(stream_name \<Rightarrow> raw_line list) \<Rightarrow> merge \<Rightarrow> bool" where
  "account input m \<longleftrightarrow>
     (\<forall>s. lines_of s (yielded m) @ lines_of s (queued (queue m)) @ texts s (unread m s) = texts s (input s)) \<and>
     remaining m = reading m + dead m + sentinels m \<and>
     (\<forall>s. pump m s = Finished_pump \<longrightarrow> unread m s = []) \<and>
     (\<forall>s. TooLong \<in> set (unread m s) \<longleftrightarrow> TooLong \<in> set (input s)) \<and>
     (\<forall>s e. pump m s = Dead_pump e \<longrightarrow> TooLong \<in> set (input s)) \<and>
     (\<forall>l. Some l \<in> after_sentinel (queue m) \<longrightarrow> pump m (sl_stream l) \<noteq> Finished_pump)"

lemmas count_defs = reading_def dead_def sentinels_def

lemma account_start: "account input (start_merge input)"
  by (simp add: account_def start_merge_def count_defs)

lemma account_pump:
  assumes a: "account input m" and t: "pump_turn name m = Some m'"
  shows "account input m'"
proof -
  have p: "pump m name = Reading" using t by (simp add: pump_turn_def split: if_splits)
  show ?thesis
  proof (cases "unread m name")
    case Nil
    then have m': "m' = m\<lparr>queue := queue m @ [None], pump := (pump m)(name := Finished_pump)\<rparr>"
      using t p by (simp add: pump_turn_def)
    show ?thesis using a p Nil unfolding m' account_def count_defs
      by (cases name) auto
  next
    case (Cons l rest)
    show ?thesis
    proof (cases l)
      case (Line tx)
      then have m': "m' = m\<lparr>queue := queue m @ [Some (mk_line name tx)], unread := (unread m)(name := rest)\<rparr>"
        using t p Cons by (simp add: pump_turn_def)
      have 1: "lines_of s (yielded m) @ lines_of s (queued (queue m)) @ texts s (unread m s) = texts s (input s)" for s
        using a by (simp add: account_def)
      have "lines_of s (yielded m') @ lines_of s (queued (queue m')) @ texts s (unread m' s) = texts s (input s)" for s
        using 1 [of s] Cons Line by (auto simp: m')
      moreover have "TooLong \<in> set (unread m' s) \<longleftrightarrow> TooLong \<in> set (unread m s)" for s
        using Cons Line by (simp add: m')
      ultimately show ?thesis using a p unfolding account_def count_defs by (simp add: m' mk_line_def)
    next
      case TooLong
      then have m': "m' = m\<lparr>pump := (pump m)(name := Dead_pump ValueError)\<rparr>"
        using t p Cons by (simp add: pump_turn_def)
      have "TooLong \<in> set (input name)"
        using a Cons TooLong unfolding account_def by (metis list.set_intros(1))
      then show ?thesis using a p unfolding m' account_def count_defs by (cases name) auto
    qed
  qed
qed

lemma account_generator:
  assumes a: "account input m" and t: "generator_turn m = Some m'"
  shows "account input m'"
proof -
  obtain x q where q: "queue m = x # q" "remaining m \<noteq> 0"
    using t by (auto simp: generator_turn_def split: if_splits list.splits)
  show ?thesis
  proof (cases x)
    case None
    then have "m' = m\<lparr>queue := q, remaining := remaining m - 1\<rparr>" using t q by (simp add: generator_turn_def)
    then show ?thesis using a q None after_sentinel_tl [of _ q x] by (simp add: account_def count_defs)
  next
    case (Some item)
    then have m': "m' = m\<lparr>queue := q, yielded := yielded m @ [item]\<rparr>" using t q by (simp add: generator_turn_def)
    have "lines_of s (yielded m @ [item]) @ lines_of s (queued q) = lines_of s (yielded m) @ lines_of s (queued (queue m))" for s
      by (simp add: q Some lines_of_Cons [of s item "queued q"])
    moreover have "Some l \<in> after_sentinel q \<Longrightarrow> Some l \<in> after_sentinel (queue m)" for l
      using after_sentinel_tl [of _ q x] q by simp
    ultimately show ?thesis using a q Some
      by (simp add: m' account_def count_defs) (metis append_assoc)
  qed
qed

lemma account_steps: "merge_steps (start_merge input) m \<Longrightarrow> account input m"
  by (induction rule: rtranclp_induct)
    (auto simp: account_start elim!: merge_stepE intro: account_pump account_generator)

section \<open>Runs end\<close>

definition work :: "merge \<Rightarrow> nat" where
  "work m = 2 * (length (unread m STDOUT) + length (unread m STDERR)) + 2 * reading m + length (queue m)"

lemma work_decreases: "merge_step m m' \<Longrightarrow> work m' < work m"
proof (erule merge_stepE)
  fix name assume t: "pump_turn name m = Some m'"
  then have p: "pump m name = Reading" by (simp add: pump_turn_def split: if_splits)
  show "work m' < work m"
  proof (cases name)
    case STDOUT
    then show ?thesis using t p by (auto simp: pump_turn_def work_def count_defs split: list.splits raw_line.splits)
  next
    case STDERR
    then show ?thesis using t p by (auto simp: pump_turn_def work_def count_defs split: list.splits raw_line.splits)
  qed
next
  assume "generator_turn m = Some m'"
  then show "work m' < work m"
    by (auto simp: generator_turn_def work_def count_defs split: if_splits list.splits option.splits)
qed

lemma reaches_stuck: "\<exists>m'. merge_steps m m' \<and> stuck m'"
proof (induction "work m" arbitrary: m rule: less_induct)
  case less
  show ?case
  proof (cases "stuck m")
    case True
    then show ?thesis by blast
  next
    case False
    then obtain m1 where m1: "merge_step m m1" by (auto simp: stuck_def)
    from less [OF work_decreases [OF m1]] obtain m' where "merge_steps m1 m'" "stuck m'" by blast
    then show ?thesis using m1 by (meson converse_rtranclp_into_rtranclp)
  qed
qed

lemma stuck_parts:
  assumes "stuck m"
  shows "pump m s \<noteq> Reading" and "remaining m = 0 \<or> queue m = []"
proof -
  have "pump_turn s m = None" for s
    using assms pump_moves [of s m] by (cases "pump_turn s m") (auto simp: stuck_def)
  from this [of s] show "pump m s \<noteq> Reading"
    by (auto simp: pump_turn_def split: if_splits list.splits raw_line.splits)
  have "generator_turn m = None"
    using assms generator_moves [of m] by (cases "generator_turn m") (auto simp: stuck_def)
  then show "remaining m = 0 \<or> queue m = []"
    by (auto simp: generator_turn_def split: if_splits list.splits option.splits)
qed


section \<open>Properties\<close>

lemma clean_input_finishes:
  assumes a: "account input m" and clean: "\<forall>s. TooLong \<notin> set (input s)" and "stuck m"
  shows "generator_finished m"
proof -
  have "pump m s = Finished_pump" for s
    using stuck_parts(1) [OF assms(3), of s] a clean by (cases "pump m s") (auto simp: account_def)
  then have "remaining m = sentinels m" using a by (simp add: account_def count_defs)
  then show ?thesis using stuck_parts(2) [OF assms(3)] by (auto simp: generator_finished_def sentinels_def)
qed

lemma finished_complete:
  assumes a: "account input m" and "generator_finished m"
  shows "lines_of s (yielded m) = texts s (input s)" and "TooLong \<notin> set (input s)"
proof -
  have 0: "reading m = 0" "dead m = 0" "sentinels m = 0"
    using a assms(2) by (simp_all add: account_def generator_finished_def)
  have fin: "pump m s' = Finished_pump" for s'
  proof (cases "pump m s'")
    case Reading
    then show ?thesis using 0(1) by (cases s') (simp_all add: reading_def split: if_splits)
  next
    case (Dead_pump e)
    then show ?thesis using 0(2) by (cases s') (auto simp: dead_def split: if_splits)
  qed
  then have empty: "unread m s' = []" for s' using a by (simp add: account_def)
  then show "TooLong \<notin> set (input s)" using a by (metis account_def empty_iff empty_set)
  have "queue m = []"
  proof (rule ccontr)
    assume "queue m \<noteq> []"
    then obtain x where x: "x \<in> set (queue m)" by (cases "queue m") auto
    have "count_list (queue m) None = 0" using 0(3) by (simp add: sentinels_def)
    then have "x \<in> after_sentinel (queue m)" "x \<noteq> None"
      using x after_sentinel_all [of "queue m"] by (blast, metis count_list_0_iff)
    then show False using a fin by (cases x) (auto simp: account_def)
  qed
  then have "queued (queue m) = []" by simp
  then show "lines_of s (yielded m) = texts s (input s)"
    using a empty by (metis account_def append_Nil2 lines_of_simps(1) texts.simps(1))
qed


text \<open>
  C14. As long as no line is longer than the stream reader's limit, the merged stream delivers
  every line of stdout and every line of stderr, each stream's in order, and ends after that:
  every run can go on to that end, none stops before it, and it is only there that the
  generator finishes.
\<close>

theorem merge_loses_nothing_and_ends:
  assumes "\<forall>s. TooLong \<notin> set (input s)" and "merge_steps (start_merge input) m"
  shows "(\<exists>m'. merge_steps m m' \<and> generator_finished m') \<and>
    (stuck m \<longrightarrow> generator_finished m) \<and>
    (generator_finished m \<longrightarrow> (\<forall>s. lines_of s (yielded m) = texts s (input s)))"
proof (intro conjI impI allI)
  obtain m' where m': "merge_steps m m'" "stuck m'" using reaches_stuck by blast
  have "account input m'" using assms(2) m'(1) by (meson account_steps rtranclp_trans)
  then have "generator_finished m'" using clean_input_finishes assms(1) m'(2) by blast
  then show "\<exists>m'. merge_steps m m' \<and> generator_finished m'" using m'(1) by blast
next
  assume "stuck m"
  then show "generator_finished m"
    using clean_input_finishes [OF account_steps [OF assms(2)] assms(1)] by blast
next
  fix s assume "generator_finished m"
  then show "lines_of s (yielded m) = texts s (input s)"
    using finished_complete(1) [OF account_steps [OF assms(2)]] by blast
qed

theorem merge_loses_nothing_and_ends_witness:
  "let input = (\<lambda>s. case s of STDOUT \<Rightarrow> [Line ''a'', Line ''b''] | STDERR \<Rightarrow> [Line ''e'']) in
   \<exists>m. merge_steps (start_merge input) m \<and> generator_finished m \<and>
     lines_of STDOUT (yielded m) = [mk_line STDOUT ''a'', mk_line STDOUT ''b'']"
proof -
  let ?i = "\<lambda>s. case s of STDOUT \<Rightarrow> [Line ''a'', Line ''b''] | STDERR \<Rightarrow> [Line ''e'']"
  have clean: "\<forall>s. TooLong \<notin> set (?i s)" by (auto split: stream_name.splits)
  from merge_loses_nothing_and_ends [OF clean rtranclp.rtrancl_refl]
  obtain m where m: "merge_steps (start_merge ?i) m" "generator_finished m" by blast
  have "lines_of STDOUT (yielded m) = texts STDOUT (?i STDOUT)"
    using merge_loses_nothing_and_ends [OF clean m(1)] m(2) by blast
  then show ?thesis using m unfolding Let_def by (intro exI [of _ m]) simp
qed

text \<open>
  C24. When either stream holds a line longer than the limit, its pump dies before it can put
  its sentinel, and the generator waits on its queue forever: no run ever finishes it, and
  every run can reach a state in which nothing moves any more although it is not finished. The
  listener of such a container hangs instead of failing.
\<close>

theorem merge_hangs_on_long_line:
  assumes "TooLong \<in> set (input s)" and "merge_steps (start_merge input) m"
  shows "\<not> generator_finished m \<and> (\<exists>m'. merge_steps m m' \<and> stuck m' \<and> \<not> generator_finished m' \<and> queue m' = [])"
proof -
  have unf: "\<not> generator_finished m'" if "merge_steps (start_merge input) m'" for m'
    using finished_complete(2) [OF account_steps [OF that]] assms(1) by blast
  obtain m' where m': "merge_steps m m'" "stuck m'" using reaches_stuck by blast
  moreover from m' have "\<not> generator_finished m'" using unf assms(2) by (meson rtranclp_trans)
  moreover from this have "queue m' = []" using stuck_parts(2) [OF m'(2)] by (simp add: generator_finished_def)
  ultimately show ?thesis using unf [OF assms(2)] by blast
qed

theorem merge_hangs_on_long_line_witness:
  "\<exists>m. merge_steps (start_merge (\<lambda>s. [TooLong])) m \<and> stuck m \<and> \<not> generator_finished m"
  using merge_hangs_on_long_line [of "\<lambda>s. [TooLong]" STDOUT, OF _ rtranclp.rtrancl_refl] by auto

end
