(* ===== verification/Container_Listener.thy ===== *)
theory Container_Listener
  imports Merge_Streams
begin

text \<open>
  \<^verbatim>\<open>log_sump_listener/container_listener.py\<close>: one line of \<open>docker logs -f --timestamps\<close> into a
  \<open>LogRecord\<close>, and the loop that numbers the lines and ships the records as JSON. The decoder,
  \<open>fromisoformat\<close>, \<open>str\<close> and the adapter are those of \<open>runtime\<close>. A decoded object is an
  association list whose keys are those of the Python dict, each once.

  Lemmas: the record of a line on every branch, and the numbering of the shipped records.
\<close>

definition DEFAULT_LEVEL :: string where
  "DEFAULT_LEVEL = ''info''"

definition try_parse_json_object :: "runtime \<Rightarrow> string \<Rightarrow> json_dict option" where
  "try_parse_json_object rt payload =
     (case json_loads rt payload of
        Inl e \<Rightarrow> None
      | Inr (JObj d) \<Rightarrow> Some d
      | Inr v \<Rightarrow> None)"

definition parse_line :: "runtime \<Rightarrow> string \<Rightarrow> string \<Rightarrow> string \<Rightarrow> stream_line \<Rightarrow> int \<Rightarrow> log_record option" where
  "parse_line rt host cid cname line n =
     (case py_partition CHR '' '' (sl_text line) of (ts_str, _, payload) \<Rightarrow>
        case rt_fromisoformat rt (replace_char CHR ''Z'' ''+00:00'' ts_str) of
          None \<Rightarrow> None
        | Some t \<Rightarrow>
            (case (case try_parse_json_object rt payload of
                     None \<Rightarrow> (DEFAULT_LEVEL, payload, [])
                   | Some parsed \<Rightarrow>
                       (let (m, f1) = dict_pop parsed ''message'' (JStr payload);
                            (l, f2) = dict_pop f1 ''level'' (JStr DEFAULT_LEVEL)
                        in (py_str rt l, py_str rt m, f2))) of
               (lvl, msg, flds) \<Rightarrow>
                 Some \<lparr>docker_host = host, container_name = cname, container_id = cid, ts = t, seq = n,
                       stream = sl_stream line, level = lvl, message = msg, log_fields = flds,
                       raw = sl_text line\<rparr>))"

text \<open>The records of a run, the lines numbered from \<open>n\<close>, and what is handed to the logger.\<close>

fun listener_records :: "runtime \<Rightarrow> string \<Rightarrow> string \<Rightarrow> string \<Rightarrow> int \<Rightarrow> stream_line list \<Rightarrow> log_record list" where
  "listener_records rt host cid cname n [] = []"
| "listener_records rt host cid cname n (line # lines) =
     (case parse_line rt host cid cname line n of
        None \<Rightarrow> listener_records rt host cid cname (n + 1) lines
      | Some r \<Rightarrow> r # listener_records rt host cid cname (n + 1) lines)"

definition logs_command :: "string \<Rightarrow> string list" where
  "logs_command cid = [''docker'', ''logs'', ''-f'', ''--timestamps'', cid]"

definition run_container_listener :: "runtime \<Rightarrow> string \<Rightarrow> string \<Rightarrow> string \<Rightarrow> stream_line list \<Rightarrow> string list" where
  "run_container_listener rt host cid cname lines =
     map (\<lambda>r. dump_json rt (LogRecord r)) (listener_records rt host cid cname 1 lines)"

text \<open>
  The whole listener: \<open>printed\<close> gives the lines its loop reads from the merged streams of the
  child started with a command, until the loop ends or is cancelled.
\<close>

definition listen :: "runtime \<Rightarrow> (string list \<Rightarrow> stream_line list) \<Rightarrow> string \<Rightarrow> string \<Rightarrow> string \<Rightarrow> string list" where
  "listen rt printed host cid cname = run_container_listener rt host cid cname (printed (logs_command cid))"

section \<open>One line\<close>

definition timestamp_part :: "stream_line \<Rightarrow> string" where
  "timestamp_part line = fst (py_partition CHR '' '' (sl_text line))"

definition payload_part :: "stream_line \<Rightarrow> string" where
  "payload_part line = snd (snd (py_partition CHR '' '' (sl_text line)))"

lemma parse_line_None:
  "parse_line rt h cid cn line n = None \<longleftrightarrow>
   rt_fromisoformat rt (replace_char CHR ''Z'' ''+00:00'' (timestamp_part line)) = None"
  by (auto simp: parse_line_def timestamp_part_def Let_def split: option.splits prod.splits)

lemma parse_line_identity:
  "parse_line rt h cid cn line n = Some r \<Longrightarrow>
   docker_host r = h \<and> container_name r = cn \<and> container_id r = cid \<and> seq r = n \<and>
   stream r = sl_stream line \<and> raw r = sl_text line \<and>
   rt_fromisoformat rt (replace_char CHR ''Z'' ''+00:00'' (timestamp_part line)) = Some (ts r)"
  by (auto simp: parse_line_def timestamp_part_def Let_def split: option.splits prod.splits)

lemma parse_line_plain:
  assumes "parse_line rt h cid cn line n = Some r" and "try_parse_json_object rt (payload_part line) = None"
  shows "message r = payload_part line \<and> level r = DEFAULT_LEVEL \<and> log_fields r = []"
  using assms by (auto simp: parse_line_def payload_part_def Let_def split: option.splits prod.splits)

lemma parse_line_json:
  assumes "parse_line rt h cid cn line n = Some r" and "try_parse_json_object rt (payload_part line) = Some d"
  shows "message r = (case dict_get d ''message'' of None \<Rightarrow> payload_part line | Some v \<Rightarrow> py_str rt v)"
    and "level r = (case dict_get d ''level'' of None \<Rightarrow> DEFAULT_LEVEL | Some v \<Rightarrow> py_str rt v)"
    and "dict_get (log_fields r) k = (if k = ''message'' \<or> k = ''level'' then None else dict_get d k)"
proof -
  obtain m f1 where p1: "dict_pop d ''message'' (JStr (payload_part line)) = (m, f1)" by (cases "dict_pop d ''message'' (JStr (payload_part line))")
  obtain l f2 where p2: "dict_pop f1 ''level'' (JStr DEFAULT_LEVEL) = (l, f2)" by (cases "dict_pop f1 ''level'' (JStr DEFAULT_LEVEL)")
  have r: "message r = py_str rt m \<and> level r = py_str rt l \<and> log_fields r = f2"
    using assms p1 p2 by (auto simp: parse_line_def payload_part_def split: option.splits prod.splits)
  note g1 = dict_pop_get [OF p1] and g2 = dict_pop_get [OF p2]
  show "message r = (case dict_get d ''message'' of None \<Rightarrow> payload_part line | Some v \<Rightarrow> py_str rt v)"
    using r g1 by (auto simp: py_str_def split: option.splits)
  show "level r = (case dict_get d ''level'' of None \<Rightarrow> DEFAULT_LEVEL | Some v \<Rightarrow> py_str rt v)"
    using r g1 [of "''level''"] g2 by (auto simp: py_str_def split: option.splits)
  show "dict_get (log_fields r) k = (if k = ''message'' \<or> k = ''level'' then None else dict_get d k)"
    using r g1 [of k] g2 [of k] g1 [of "''message''"] by auto
qed

section \<open>The run\<close>

lemma listener_records_from:
  "r \<in> set (listener_records rt h cid cn n lines) \<Longrightarrow>
   n \<le> seq r \<and> seq r < n + int (length lines) \<and>
   parse_line rt h cid cn (lines ! nat (seq r - n)) (seq r) = Some r"
proof (induction lines arbitrary: n)
  case (Cons line lines)
  have "r \<in> set (listener_records rt h cid cn (n + 1) lines) \<or> parse_line rt h cid cn line n = Some r"
    using Cons.prems by (auto split: option.splits)
  then show ?case
  proof
    assume "r \<in> set (listener_records rt h cid cn (n + 1) lines)"
    note ih = Cons.IH [OF this]
    then have "nat (seq r - n) = Suc (nat (seq r - (n + 1)))" by linarith
    with ih show ?thesis by simp
  next
    assume p: "parse_line rt h cid cn line n = Some r"
    then have "seq r = n" using parse_line_identity by blast
    with p show ?thesis by simp
  qed
qed simp

lemma listener_records_all:
  "i < length lines \<Longrightarrow> parse_line rt h cid cn (lines ! i) (n + int i) = Some r \<Longrightarrow>
   r \<in> set (listener_records rt h cid cn n lines)"
proof (induction lines arbitrary: n i)
  case (Cons line lines)
  show ?case
  proof (cases i)
    case 0
    then show ?thesis using Cons.prems by simp
  next
    case (Suc j)
    then have "parse_line rt h cid cn (lines ! j) ((n + 1) + int j) = Some r" "j < length lines"
      using Cons.prems by (simp_all add: algebra_simps)
    from Cons.IH [OF this(2,1)] show ?thesis by (simp split: option.splits)
  qed
qed simp

lemma listener_records_sorted: "sorted_wrt (<) (map seq (listener_records rt h cid cn n lines))"
proof (induction lines arbitrary: n)
  case (Cons line lines)
  have "n < seq r" if "r \<in> set (listener_records rt h cid cn (n + 1) lines)" for r
    using listener_records_from [OF that] by simp
  then show ?case using Cons.IH [of "n + 1"] parse_line_identity [of rt h cid cn line n]
    by (auto split: option.splits)
qed simp

section \<open>Properties\<close>

text \<open>
  C27. A line is dropped exactly when what precedes its first space is not a timestamp;
  otherwise the record keeps the container's identity, the stream, the number and the whole
  line, and a JSON object payload gives the message (the payload when it has none), the level
  (\<open>info\<close> when it has none) and, unchanged, every other field; any other payload is the
  message at level \<open>info\<close> with no field.
\<close>

theorem log_line_record:
  "case parse_line rt h cid cn line n of
     None \<Rightarrow> rt_fromisoformat rt (replace_char CHR ''Z'' ''+00:00'' (timestamp_part line)) = None
   | Some r \<Rightarrow>
       docker_host r = h \<and> container_name r = cn \<and> container_id r = cid \<and> seq r = n \<and>
       stream r = sl_stream line \<and> raw r = sl_text line \<and>
       rt_fromisoformat rt (replace_char CHR ''Z'' ''+00:00'' (timestamp_part line)) = Some (ts r) \<and>
       (case try_parse_json_object rt (payload_part line) of
          None \<Rightarrow> message r = payload_part line \<and> level r = ''info'' \<and> log_fields r = []
        | Some d \<Rightarrow>
            message r = (case dict_get d ''message'' of None \<Rightarrow> payload_part line | Some v \<Rightarrow> py_str rt v) \<and>
            level r = (case dict_get d ''level'' of None \<Rightarrow> ''info'' | Some v \<Rightarrow> py_str rt v) \<and>
            (\<forall>k. dict_get (log_fields r) k = (if k = ''message'' \<or> k = ''level'' then None else dict_get d k)))"
proof (cases "parse_line rt h cid cn line n")
  case None
  then show ?thesis using parse_line_None [of rt h cid cn line n] by simp
next
  case (Some r)
  show ?thesis
    using parse_line_identity [OF Some] parse_line_plain [OF Some] parse_line_json [OF Some]
    unfolding Some by (simp add: DEFAULT_LEVEL_def split: option.splits)
qed

theorem log_line_record_witness:
  "map_option (\<lambda>r. (message r, level r, seq r, dict_get (log_fields r) ''k''))
     (parse_line (table_runtime
         [(''{}'', JObj [(''level'', JStr ''warn''), (''message'', JStr ''hi''), (''k'', JInt 1)])]
         [(''2024-01-01T00:00:00+00:00'', \<lparr>dt_us = 1704067200000000, dt_aware = True\<rparr>)])
       ''d'' ''c'' ''web'' \<lparr>sl_stream = STDERR, sl_text = ''2024-01-01T00:00:00Z {}''\<rparr> 7) =
   Some (''hi'', ''warn'', 7, Some (JInt 1))"
proof -
  let ?rt = "table_runtime
      [(''{}'', JObj [(''level'', JStr ''warn''), (''message'', JStr ''hi''), (''k'', JInt 1)])]
      [(''2024-01-01T00:00:00+00:00'', \<lparr>dt_us = 1704067200000000, dt_aware = True\<rparr>)]"
  let ?line = "\<lparr>sl_stream = STDERR, sl_text = ''2024-01-01T00:00:00Z {}''\<rparr>"
  have t: "timestamp_part ?line = ''2024-01-01T00:00:00Z''" "payload_part ?line = ''{}''"
    by (simp_all add: timestamp_part_def payload_part_def py_partition_def)
  then have "parse_line ?rt ''d'' ''c'' ''web'' ?line 7 \<noteq> None"
    unfolding parse_line_None t by (simp add: replace_char_def)
  then obtain r where r: "parse_line ?rt ''d'' ''c'' ''web'' ?line 7 = Some r" by blast
  have j: "try_parse_json_object ?rt ''{}'' =
      Some [(''level'', JStr ''warn''), (''message'', JStr ''hi''), (''k'', JInt 1)]"
    by (simp add: try_parse_json_object_def)
  show ?thesis using log_line_record [where rt = ?rt and h = "''d''" and cid = "''c''" and cn = "''web''"
        and line = ?line and n = 7] unfolding r t j
    by (simp add: dict_get_def py_str_def)
qed

text \<open>
  Every line of the stream gets the next number, kept or dropped; a shipped record is the
  record of the line its number points at, every line that parses is shipped, once, and the
  numbers shipped strictly increase, so \<open>seq\<close> tells apart lines with equal timestamps.
\<close>

lemma listener_numbers_lines:
  "sorted_wrt (<) (map seq (listener_records rt h cid cn 1 lines)) \<and>
   set (listener_records rt h cid cn 1 lines) =
     {r. \<exists>i < length lines. parse_line rt h cid cn (lines ! i) (int i + 1) = Some r}"
proof
  show "sorted_wrt (<) (map seq (listener_records rt h cid cn 1 lines))"
    by (rule listener_records_sorted)
  show "set (listener_records rt h cid cn 1 lines) =
     {r. \<exists>i < length lines. parse_line rt h cid cn (lines ! i) (int i + 1) = Some r}" (is "?l = ?r")
  proof (rule set_eqI, rule iffI)
    fix r assume "r \<in> ?l"
    from listener_records_from [OF this] show "r \<in> ?r"
      by (auto intro!: exI [of _ "nat (seq r - 1)"])
  next
    fix r assume "r \<in> ?r"
    then obtain i where "i < length lines" "parse_line rt h cid cn (lines ! i) (1 + int i) = Some r"
      by (auto simp: add.commute)
    then show "r \<in> ?l" by (rule listener_records_all)
  qed
qed

end
