(* ===== verification/Docker_Cli.thy ===== *)
theory Docker_Cli
  imports Transport
begin

text \<open>
  What the four components that read \<open>docker ... --format '{{json .}}'\<close> share: the commands
  they run, the loop over the lines of the output that skips blank ones, and Python's
  \<open>data["k"]\<close> and \<open>data.get("k")\<close> on a decoded value, which raise when it is not a dict.
\<close>

definition ps_command :: "string list" where
  "ps_command = [''docker'', ''ps'', ''--format'', ''{{json .}}'']"

definition stats_command :: "string list" where
  "stats_command = [''docker'', ''stats'', ''--no-stream'', ''--format'', ''{{json .}}'']"

definition df_command :: "string list" where
  "df_command = [''docker'', ''system'', ''df'', ''--format'', ''{{json .}}'']"

definition nonblank_lines :: "string \<Rightarrow> string list" where
  "nonblank_lines out = filter (\<lambda>l. l \<noteq> []) (map py_strip (py_splitlines out))"

text \<open>\<open>(await transport.run(args)).check()\<close> as the samplers use it: the output, or what it raises.\<close>

definition checked_stdout :: "exec_result result \<Rightarrow> string result" where
  "checked_stdout res = bind_r res (\<lambda>r. bind_r (check r) (\<lambda>r'. Inr (stdout r')))"

definition subscript :: "json \<Rightarrow> string \<Rightarrow> json result" where
  "subscript data k =
     (case data of
        JObj d \<Rightarrow> (case dict_get d k of None \<Rightarrow> Inl KeyError | Some v \<Rightarrow> Inr v)
      | _ \<Rightarrow> Inl TypeError)"

definition data_get :: "json \<Rightarrow> string \<Rightarrow> json option result" where
  "data_get data k = (case data of JObj d \<Rightarrow> Inr (dict_get d k) | _ \<Rightarrow> Inl AttributeError)"

text \<open>\<open>str(d.get(k, dflt))\<close> for a string default.\<close>

definition get_str :: "runtime \<Rightarrow> json_dict \<Rightarrow> string \<Rightarrow> string \<Rightarrow> string" where
  "get_str rt d k dflt = (case dict_get d k of None \<Rightarrow> dflt | Some v \<Rightarrow> py_str rt v)"

lemma checked_stdout_Inr:
  "checked_stdout res = Inr out \<longleftrightarrow> (\<exists>r. res = Inr r \<and> returncode r = 0 \<and> stdout r = out)"
  by (auto simp: checked_stdout_def bind_r_eq_Inr check_ok)

lemma checked_stdout_Inl:
  "checked_stdout res = Inl e \<Longrightarrow> res = Inl e \<or> caught_by_cycle e"
  by (auto simp: checked_stdout_def bind_r_eq_Inl dest: check_error)

lemma nonblank_lines_text: "l \<in> set (nonblank_lines out) \<Longrightarrow> l \<noteq> []"
  by (simp add: nonblank_lines_def)

text \<open>Clean lines printed one per line are read back as they are.\<close>

lemma nonblank_lines_join:
  assumes "\<forall>l\<in>set ls. l \<noteq> [] \<and> py_strip l = l \<and> (\<forall>c\<in>set l. \<not> is_linebreak c)"
  shows "nonblank_lines (join_nl ls) = ls"
proof -
  have "py_splitlines (join_nl ls) = ls"
  proof (cases "ls = []")
    case False
    then have "last ls \<noteq> []" using assms by simp
    then show ?thesis using assms False by (intro splitlines_join_nl) auto
  qed (simp add: py_splitlines_def)
  moreover have "map py_strip ls = ls" using assms by (intro map_idI) blast
  ultimately show ?thesis using assms by (simp add: nonblank_lines_def filter_id_conv)
qed

end
