(* ===== verification/Containers_Listing.thy ===== *)
theory Containers_Listing
  imports Docker_Cli Registry
begin

text \<open>
  \<^verbatim>\<open>log_sump_listener/containers_listing.py\<close>: one cycle of the listing loop. The set of refs is
  a list without duplicates. Docker prints \<open>ID\<close> and \<open>Names\<close> as strings; another hashable
  value is represented by its \<open>str\<close>. A cycle returns the registry, the refs the new-container
  callback is awaited with, and what \<open>on_cycle\<close> is called with; an exception that the
  \<open>except\<close> clause does not name leaves the loop.
\<close>

definition mk_ref :: "runtime \<Rightarrow> json \<Rightarrow> container_ref result" where
  "mk_ref rt data =
     bind_r (subscript data ''ID'') (\<lambda>i. bind_r (subscript data ''Names'') (\<lambda>n.
       if hashable i \<and> hashable n then Inr \<lparr>ref_id = py_str rt i, ref_name = py_str rt n\<rparr>
       else Inl TypeError))"

definition add_ref :: "runtime \<Rightarrow> container_ref list \<Rightarrow> string \<Rightarrow> container_ref list result" where
  "add_ref rt refs line =
     bind_r (json_loads rt line) (\<lambda>data. bind_r (mk_ref rt data) (\<lambda>ref.
       Inr (if ref \<in> set refs then refs else refs @ [ref])))"

definition list_containers :: "runtime \<Rightarrow> exec_result result \<Rightarrow> container_ref list result" where
  "list_containers rt res =
     bind_r (checked_stdout res) (\<lambda>out. fold_r (add_ref rt) [] (nonblank_lines out))"

definition listing_cycle :: "runtime \<Rightarrow> string \<Rightarrow> exec_result result \<Rightarrow> 'cb registry
    \<Rightarrow> ('cb registry \<times> container_ref list \<times> bool \<times> nat) result" where
  "listing_cycle rt h res reg =
     (case list_containers rt res of
        Inl e \<Rightarrow> if caught_by_cycle e then Inr (reg, [], False, 0) else Inl e
      | Inr refs \<Rightarrow> (case update reg h refs of (reg', new_refs) \<Rightarrow> Inr (reg', new_refs, True, length refs)))"

text \<open>The loop over the outcomes of its \<open>docker ps\<close> runs, until one of them kills it.\<close>

fun listing_loop :: "runtime \<Rightarrow> string \<Rightarrow> exec_result result list \<Rightarrow> 'cb registry \<Rightarrow> 'cb registry \<times> py_error option" where
  "listing_loop rt h [] reg = (reg, None)"
| "listing_loop rt h (res # outs) reg =
     (case listing_cycle rt h res reg of
        Inl e \<Rightarrow> (reg, Some e)
      | Inr (reg', rest) \<Rightarrow> listing_loop rt h outs reg')"

lemma mk_ref_error: "mk_ref rt data = Inl e \<Longrightarrow> e = KeyError \<or> e = TypeError"
  by (auto simp: mk_ref_def bind_r_eq_Inl subscript_def split: json.splits option.splits if_splits)

lemma fold_add_ref:
  assumes "\<forall>l\<in>set ls. \<exists>data. json_loads rt l = Inr data \<and> mk_ref rt data = Inr (f l)"
  shows "fold_r (add_ref rt) refs ls = Inr refs' \<Longrightarrow> distinct refs \<Longrightarrow>
    set refs' = set refs \<union> f ` set ls \<and> distinct refs'"
  and "\<exists>refs'. fold_r (add_ref rt) refs ls = Inr refs'"
proof -
  have step: "add_ref rt acc l = Inr (if f l \<in> set acc then acc else acc @ [f l])" if "l \<in> set ls" for acc l
    using assms that by (fastforce simp: add_ref_def)
  show "fold_r (add_ref rt) refs ls = Inr refs' \<Longrightarrow> distinct refs \<Longrightarrow>
    set refs' = set refs \<union> f ` set ls \<and> distinct refs'"
    using step
  proof (induction ls arbitrary: refs)
    case (Cons l ls)
    let ?acc = "if f l \<in> set refs then refs else refs @ [f l]"
    have "fold_r (add_ref rt) ?acc ls = Inr refs'" using Cons.prems by simp
    moreover have "distinct ?acc" using Cons.prems(2) by simp
    ultimately have "set refs' = set ?acc \<union> f ` set ls \<and> distinct refs'"
      using Cons.IH Cons.prems(3) by (meson list.set_intros(2))
    then show ?case by auto
  qed simp
  show "\<exists>refs'. fold_r (add_ref rt) refs ls = Inr refs'"
    using step by (induction ls arbitrary: refs) auto
qed

lemma list_containers_clean:
  assumes "returncode r = 0"
    and "\<forall>l\<in>set (nonblank_lines (stdout r)). \<exists>data. json_loads rt l = Inr data \<and> mk_ref rt data = Inr (f l)"
  shows "\<exists>refs. list_containers rt (Inr r) = Inr refs \<and> distinct refs \<and> set refs = f ` set (nonblank_lines (stdout r))"
proof -
  obtain refs where "fold_r (add_ref rt) [] (nonblank_lines (stdout r)) = Inr refs"
    using fold_add_ref(2) [OF assms(2)] by blast
  then show ?thesis using fold_add_ref(1) [OF assms(2), of "[]" refs] assms(1)
    by (simp add: list_containers_def checked_stdout_def check_def)
qed

text \<open>A line that gives a ref, and the outcome of the loop by its first other line.\<close>

definition ref_line :: "runtime \<Rightarrow> string \<Rightarrow> bool" where
  "ref_line rt l = (case bind_r (json_loads rt l) (mk_ref rt) of Inl e \<Rightarrow> False | Inr ref \<Rightarrow> True)"

lemma add_ref_error: "add_ref rt acc l = Inl e \<longleftrightarrow> bind_r (json_loads rt l) (mk_ref rt) = Inl e"
  by (auto simp: add_ref_def bind_r_eq_Inl)

lemma add_ref_ok: "add_ref rt acc l = Inr acc' \<Longrightarrow> ref_line rt l"
  by (auto simp: add_ref_def ref_line_def bind_r_eq_Inr split: sum.splits)

lemma fold_ref_lines: "fold_r (add_ref rt) acc ls = Inr acc' \<Longrightarrow> \<forall>l\<in>set ls. ref_line rt l"
  by (induction ls arbitrary: acc) (auto simp: bind_r_eq_Inr dest: add_ref_ok)

lemma ref_lines_fold: "\<forall>l\<in>set ls. ref_line rt l \<Longrightarrow> \<exists>acc'. fold_r (add_ref rt) acc ls = Inr acc'"
proof (induction ls arbitrary: acc)
  case (Cons l ls)
  then obtain a1 where "add_ref rt acc l = Inr a1"
    using add_ref_error [of rt acc l] by (cases "add_ref rt acc l") (auto simp: ref_line_def split: sum.splits)
  then show ?case using Cons by simp
qed simp

lemma list_containers_error:
  "list_containers rt (Inr r) = Inl e \<longleftrightarrow>
   check r = Inl e \<or> returncode r = 0 \<and>
     (\<exists>pre line post. nonblank_lines (stdout r) = pre @ line # post \<and>
        (\<forall>l\<in>set pre. ref_line rt l) \<and> bind_r (json_loads rt line) (mk_ref rt) = Inl e)"
proof (cases "returncode r = 0")
  case True
  then have "list_containers rt (Inr r) = Inl e \<longleftrightarrow> fold_r (add_ref rt) [] (nonblank_lines (stdout r)) = Inl e"
    by (simp add: list_containers_def checked_stdout_def check_def)
  also have "\<dots> \<longleftrightarrow> (\<exists>pre line post. nonblank_lines (stdout r) = pre @ line # post \<and>
      (\<exists>acc. fold_r (add_ref rt) [] pre = Inr acc) \<and> bind_r (json_loads rt line) (mk_ref rt) = Inl e)"
    unfolding fold_r_Inl add_ref_error by blast
  also have "\<dots> \<longleftrightarrow> (\<exists>pre line post. nonblank_lines (stdout r) = pre @ line # post \<and>
        (\<forall>l\<in>set pre. ref_line rt l) \<and> bind_r (json_loads rt line) (mk_ref rt) = Inl e)"
    using fold_ref_lines [of rt "[]"] ref_lines_fold [of _ rt "[]"] by (intro ex_cong1 conj_cong refl) blast
  finally show ?thesis using True by (simp add: check_def)
next
  case False
  then show ?thesis by (auto simp: list_containers_def checked_stdout_def check_def)
qed

text \<open>
  What ends the loop: the command itself raised something the clause does not name, or a line
  of its output decodes to JSON that gives no ref.
\<close>

definition fatal_listing :: "runtime \<Rightarrow> exec_result result \<Rightarrow> py_error \<Rightarrow> bool" where
  "fatal_listing rt res e \<longleftrightarrow>
     (case res of
        Inl e' \<Rightarrow> e' = e \<and> \<not> caught_by_cycle e
      | Inr r \<Rightarrow> (e = KeyError \<or> e = TypeError) \<and> returncode r = 0 \<and>
          (\<exists>pre line post data. nonblank_lines (stdout r) = pre @ line # post \<and>
             (\<forall>l\<in>set pre. ref_line rt l) \<and> json_loads rt line = Inr data \<and> mk_ref rt data = Inl e))"

lemma listing_cycle_fatal: "listing_cycle rt h res reg = Inl e \<longleftrightarrow> fatal_listing rt res e"
proof (cases res)
  case (Inl e')
  then show ?thesis by (auto simp: listing_cycle_def list_containers_def checked_stdout_def fatal_listing_def)
next
  case (Inr r)
  have "listing_cycle rt h (Inr r) reg = Inl e \<longleftrightarrow> list_containers rt (Inr r) = Inl e \<and> \<not> caught_by_cycle e"
    by (auto simp: listing_cycle_def split: sum.splits prod.splits)
  also have "\<dots> \<longleftrightarrow> \<not> caught_by_cycle e \<and> returncode r = 0 \<and>
     (\<exists>pre line post. nonblank_lines (stdout r) = pre @ line # post \<and>
        (\<forall>l\<in>set pre. ref_line rt l) \<and> bind_r (json_loads rt line) (mk_ref rt) = Inl e)"
    unfolding list_containers_error using check_error by blast
  also have "\<dots> \<longleftrightarrow> fatal_listing rt (Inr r) e"
    using json_loads_error mk_ref_error [of rt _ e]
    by (auto simp: fatal_listing_def bind_r_eq_Inl) (metis caught_by_cycle_simps(1))+
  finally show ?thesis using Inr by simp
qed

lemma listing_loop_ends:
  "listing_loop rt h outs reg = (reg', Some e) \<longleftrightarrow>
   (\<exists>before res after. outs = before @ res # after \<and> fatal_listing rt res e \<and> listing_loop rt h before reg = (reg', None))"
proof (induction outs arbitrary: reg)
  case (Cons res outs)
  show ?case
  proof (cases "listing_cycle rt h res reg")
    case (Inl e')
    then have "fatal_listing rt res e \<longleftrightarrow> e = e'"
      unfolding listing_cycle_fatal [of rt h res reg, symmetric] by auto
    then show ?thesis using Inl by (auto simp: Cons_eq_append_conv intro: exI [of _ "[]"])
  next
    case (Inr x)
    obtain reg1 rest where x: "x = (reg1, rest)" by (cases x)
    have nf: "\<not> fatal_listing rt res e" using Inr listing_cycle_fatal [of rt h res reg e] by simp
    have go: "listing_loop rt h (res # outs') reg = listing_loop rt h outs' reg1" for outs' using Inr x by simp
    show ?thesis unfolding go Cons.IH
    proof (intro iffI; elim exE conjE)
      fix before r after assume "outs = before @ r # after" "fatal_listing rt r e" "listing_loop rt h before reg1 = (reg', None)"
      then show "\<exists>before r after. res # outs = before @ r # after \<and> fatal_listing rt r e \<and> listing_loop rt h before reg = (reg', None)"
        using go by (intro exI [of _ "res # before"] exI [of _ r] exI [of _ after]) simp
    next
      fix before r after assume b: "res # outs = before @ r # after" "fatal_listing rt r e" "listing_loop rt h before reg = (reg', None)"
      then obtain before' where "before = res # before'" "outs = before' @ r # after" using nf by (cases before) auto
      then show "\<exists>before r after. outs = before @ r # after \<and> fatal_listing rt r e \<and> listing_loop rt h before reg1 = (reg', None)"
        using b go by (intro exI [of _ before'] exI [of _ r] exI [of _ after]) simp
    qed
  qed
qed simp

section \<open>Properties\<close>

text \<open>
  A cycle either leaves the registry exactly as it was (the transport failed, \<open>docker ps\<close>
  exited with an error, or a line was not JSON), reporting the daemon unreachable, or records
  the whole listing at once: no container is counted absent because of a failed or half-read
  listing.
\<close>

lemma listing_cycle_all_or_nothing:
  assumes "listing_cycle rt h res reg = Inr (reg', new_refs, reachable, n)"
  shows "if reachable
    then (\<exists>refs. list_containers rt res = Inr refs \<and> (reg', new_refs) = update reg h refs \<and> n = length refs)
    else reg' = reg \<and> new_refs = [] \<and> n = 0 \<and>
      (\<exists>e. list_containers rt res = Inl e \<and> (is_transport_error e \<or> is_value_error e))"
  using assms
  by (auto simp: listing_cycle_def caught_by_cycle_def split: sum.splits prod.splits if_splits)



lemma listing_cycle_all_or_nothing_example:
  "case listing_cycle (table_runtime [] []) ''d'' (Inr \<lparr>returncode = 255, stdout = [], stderr = ''no route''\<rparr>)
     (new_registry :: unit registry) of
     Inr (reg', new_refs, reachable, n) \<Rightarrow> reg' = new_registry \<and> new_refs = [] \<and> \<not> reachable \<and> n = 0
   | Inl e \<Rightarrow> False"
proof -
  let ?res = "Inr \<lparr>returncode = 255, stdout = [], stderr = ''no route''\<rparr>"
  have "listing_cycle (table_runtime [] []) ''d'' ?res (new_registry :: unit registry) =
      Inr (new_registry, [], False, 0)"
    by (simp add: listing_cycle_def list_containers_def checked_stdout_def check_def)
  from listing_cycle_all_or_nothing [OF this] this show ?thesis by simp
qed

text \<open>
  C33. Over any outcomes of its \<open>docker ps\<close> runs the listing loop ends exactly at the first fatal
  one, and with its exception: the command itself raised something other than
  \<open>TransportError\<close> and \<open>ValueError\<close> (the client is not installed: \<open>OSError\<close>), or it succeeded
  and, after lines that each give a ref, a line decodes to JSON that does not (no \<open>ID\<close> or
  \<open>Names\<close>, or not an object: \<open>KeyError\<close> or \<open>TypeError\<close>). The registry stays forever as the
  cycles before left it; failed runs, non-zero exits and lines that are no JSON end nothing.
\<close>

theorem listing_loop_dies_of_unexpected_line:
  "listing_loop rt h outs reg = (reg', Some e) \<longleftrightarrow>
   (\<exists>before res after. outs = before @ res # after \<and> listing_loop rt h before reg = (reg', None) \<and>
     (case res of
        Inl e' \<Rightarrow> e' = e \<and> \<not> is_transport_error e \<and> \<not> is_value_error e
      | Inr r \<Rightarrow> (e = KeyError \<or> e = TypeError) \<and> returncode r = 0 \<and>
          (\<exists>pre line post data. nonblank_lines (stdout r) = pre @ line # post \<and>
             (\<forall>l\<in>set pre. ref_line rt l) \<and> json_loads rt line = Inr data \<and> mk_ref rt data = Inl e)))"
  unfolding listing_loop_ends fatal_listing_def caught_by_cycle_def de_Morgan_disj
  by (intro ex_cong1) (rule iffI; elim conjE; intro conjI; assumption)

theorem listing_loop_dies_of_unexpected_line_witness:
  "let rt = table_runtime [(''x'', JObj [(''Names'', JStr ''web'')])] [];
       down = Inl (TransportError ''no route''); ok = Inr \<lparr>returncode = 0, stdout = ''x'', stderr = []\<rparr>
   in listing_loop rt ''d'' [down, ok, down] (new_registry :: unit registry) = (new_registry, Some KeyError) \<and>
      listing_loop rt ''d'' [down, Inl OSError] (new_registry :: unit registry) = (new_registry, Some OSError)"
proof -
  let ?rt = "table_runtime [(''x'', JObj [(''Names'', JStr ''web'')])] []"
  let ?down = "Inl (TransportError ''no route'') :: exec_result result"
  let ?r = "\<lparr>returncode = 0, stdout = ''x'', stderr = []\<rparr>"
  have d: "listing_loop ?rt ''d'' [?down] (new_registry :: unit registry) = (new_registry, None)"
    by (simp add: listing_cycle_def list_containers_def checked_stdout_def)
  have "nonblank_lines ''x'' = [] @ ''x'' # []" by code_simp
  moreover have "mk_ref ?rt (JObj [(''Names'', JStr ''web'')]) = Inl KeyError"
    by (simp add: mk_ref_def subscript_def dict_get_def)
  moreover have "json_loads ?rt ''x'' = Inr (JObj [(''Names'', JStr ''web'')])" by simp
  ultimately have line: "\<exists>pre line post data. nonblank_lines (stdout ?r) = pre @ line # post \<and>
      (\<forall>l\<in>set pre. ref_line ?rt l) \<and> json_loads ?rt line = Inr data \<and> mk_ref ?rt data = Inl KeyError"
    by (metis empty_iff empty_set exec_result.select_convs(2))
  have "listing_loop ?rt ''d'' [?down, Inr ?r, ?down] (new_registry :: unit registry) = (new_registry, Some KeyError)"
    unfolding listing_loop_dies_of_unexpected_line
    using d line by (intro exI [of _ "[?down]"] exI [of _ "Inr ?r"] exI [of _ "[?down]"]) simp
  moreover have "listing_loop ?rt ''d'' [?down, Inl OSError] (new_registry :: unit registry) = (new_registry, Some OSError)"
    unfolding listing_loop_dies_of_unexpected_line
    using d by (intro exI [of _ "[?down]"] exI [of _ "Inl OSError"] exI [of _ "[]"]) simp
  ultimately show ?thesis unfolding Let_def by (rule conjI)
qed

end
