(* ===== verification/Units.thy ===== *)
theory Units
  imports Py_Strings
begin

text \<open>
  \<^verbatim>\<open>log_sump_listener/units.py\<close>: the human-readable sizes and percentages of \<open>docker stats\<close> and
  \<open>docker system df\<close>. \<open>parse_bytes\<close> is modelled with the float multiplication and the
  rounding the code does, so its result for a given text is the code's; the lemmas say when
  it is exact, that it is never negative, and which inputs make it raise instead of
  returning \<open>None\<close>.
\<close>

definition SIZE_UNITS :: "string \<rightharpoonup> int" where
  "SIZE_UNITS = map_of [(''B'', 1), (''KB'', 1000), (''KIB'', 1024), (''MB'', 1000 ^ 2),
     (''MIB'', 1024 ^ 2), (''GB'', 1000 ^ 3), (''GIB'', 1024 ^ 3), (''TB'', 1000 ^ 4),
     (''TIB'', 1024 ^ 4), (''PB'', 1000 ^ 5), (''PIB'', 1024 ^ 5)]"

definition is_size_char :: "char \<Rightarrow> bool" where
  "is_size_char c \<longleftrightarrow> is_dec c \<or> c = CHR ''.''"

text \<open>\<open>_SIZE_RE\<close>: digits and dots, optional white space, ASCII letters to the end.\<close>

definition match_size :: "string \<Rightarrow> (string \<times> string) option" where
  "match_size t =
     (let v = takeWhile is_size_char t; u = dropWhile is_space (dropWhile is_size_char t)
      in if v \<noteq> [] \<and> u \<noteq> [] \<and> (\<forall>c\<in>set u. is_alpha_az c) then Some (v, u) else None)"

definition parse_bytes :: "string \<Rightarrow> int option result" where
  "parse_bytes text =
     (case match_size (py_strip text) of
        None \<Rightarrow> Inr None
      | Some (value_str, unit) \<Rightarrow>
          (case SIZE_UNITS (py_upper unit) of
             None \<Rightarrow> Inr None
           | Some multiplier \<Rightarrow>
               bind_r (py_float value_str) (\<lambda>v.
               bind_r (float_of_int multiplier) (\<lambda>m.
               bind_r (py_round (fmul v m)) (\<lambda>n. Inr (Some n))))))"

definition parse_pair_bytes :: "string \<Rightarrow> (int option \<times> int option) result" where
  "parse_pair_bytes text =
     (case py_partition CHR ''/'' text of (left, sep, right) \<Rightarrow>
        if \<not> sep then Inr (None, None)
        else bind_r (parse_bytes left) (\<lambda>l. bind_r (parse_bytes right) (\<lambda>r. Inr (l, r))))"

definition parse_percent :: "string \<Rightarrow> pyfloat option" where
  "parse_percent text =
     (let t = py_strip text in
      if \<not> py_endswith t ''%'' then None
      else case py_float (drop_right 1 t) of Inl e \<Rightarrow> None | Inr f \<Rightarrow> Some f)"

section \<open>Numbers made of digits and dots\<close>

lemma py_strip_ends:
  assumes "s \<noteq> []" and "\<not> is_space (hd s)" and "\<not> is_space (last s)"
  shows "py_strip s = s"
proof -
  have "dropWhile is_space s = s" using assms by (cases s) auto
  moreover have "dropWhile is_space (rev s) = rev s" using assms by (cases s rule: rev_cases) auto
  ultimately show ?thesis by (simp only: py_strip_def py_rstrip_def py_lstrip_def rev_rev_ident)
qed

lemma size_char_simps:
  assumes "is_size_char c"
  shows "\<not> is_space c" "c \<noteq> CHR ''-''" "c \<noteq> CHR ''+''" "c \<noteq> CHR ''_''" "c \<noteq> CHR ''e''" "c \<noteq> CHR ''E''"
    "c \<noteq> CHR ''i''" "c \<noteq> CHR ''n''" "lower_char c = c" "\<not> is_alpha_az c"
  using assms
  by (auto simp: is_size_char_def is_dec_def is_space_def lower_char_def is_alpha_az_def Let_def)

lemma dec_is_size_char: "is_dec c \<Longrightarrow> is_size_char c"
  by (simp add: is_size_char_def)

lemma underscores_ok_none: "CHR ''_'' \<notin> set s \<Longrightarrow> underscores_ok p s"
  by (induction s arbitrary: p) auto

lemma py_float_size:
  assumes "\<forall>c\<in>set v. is_size_char c" and "v \<noteq> []"
  shows "py_float v = (case float_body v of None \<Rightarrow> Inl ValueError | Some f \<Rightarrow> Inr f)"
proof -
  have strip: "py_strip v = v" using assms size_char_simps(1) by (intro py_strip_no_space) auto
  have no_us: "CHR ''_'' \<notin> set v" using assms size_char_simps(4) by blast
  have flt: "filter (\<lambda>c. c \<noteq> CHR ''_'') v = v" using no_us by (auto simp: filter_id_conv)
  obtain c cs where v: "v = c # cs" using assms(2) by (cases v) auto
  have sign: "take_sign v = (False, v)" using assms v size_char_simps(2,3) [of c] by simp
  have low: "py_lower v = v" using assms size_char_simps(9) by (auto simp: py_lower_def map_idI)
  have names: "v \<noteq> ''inf''" "v \<noteq> ''infinity''" "v \<noteq> ''nan''"
    using assms v size_char_simps(7,8) [of c] by auto
  show ?thesis
    unfolding py_float_def Let_def strip flt sign prod.case low
    using underscores_ok_none [OF no_us] names by (simp split: option.splits)
qed

lemma scaled_float_nonneg:
  assumes "0 \<le> n" and "is_finite (scaled_float n k)"
  shows "0 \<le> fval (scaled_float n k)"
proof -
  have "0 \<le> fval (round_ratio a d)" if "0 \<le> a" "0 < d" "is_finite (round_ratio a d)" for a d
    using that by (auto simp: round_ratio_val intro!: rnd_nonneg)
  then show ?thesis using assms
    by (simp only: scaled_float_def split: if_splits) simp_all
qed

lemma round_ratio_not_NaN: "round_ratio n d \<noteq> NaN"
  by (simp only: round_ratio_def Let_def split: if_split)
    (intro conjI impI; (rule mk_float_not_NaN | rule pyfloat.distinct))

lemma float_body_nonneg:
  assumes "float_body v = Some f"
  shows "f \<noteq> NaN" and "is_finite f \<Longrightarrow> 0 \<le> fval f"
proof -
  obtain i g r e where m: "split_mantissa v = (i, g, r)"
    and f: "f = scaled_float (decimal_val (i @ g)) (e - int (length g))"
    using float_body_Some [OF assms] by blast
  then have "0 \<le> decimal_val (i @ g)"
    using split_mantissa_digits [OF m] by (intro decimal_val_nonneg)
  then show "is_finite f \<Longrightarrow> 0 \<le> fval f" unfolding f by (rule scaled_float_nonneg)
  show "f \<noteq> NaN" unfolding f scaled_float_def using round_ratio_not_NaN by (simp split: if_split)
qed

lemma float_body_None_iff:
  assumes "\<forall>c\<in>set v. is_size_char c"
  shows "float_body v = None \<longleftrightarrow> 1 < count_list v CHR ''.'' \<or> (\<forall>c\<in>set v. c = CHR ''.'')"
proof -
  let ?i = "takeWhile is_dec v" and ?r = "dropWhile is_dec v"
  have dot_not_dec: "\<not> is_dec CHR ''.''" by (simp add: is_dec_def)
  have no_dot: "count_list w CHR ''.'' = 0" if "\<forall>c\<in>set w. is_dec c" for w
    using that dot_not_dec by (intro count_notin) auto
  have tw: "\<forall>c\<in>set (takeWhile is_dec w). is_dec c" for w by (auto dest: set_takeWhileD)
  have hd_dot: "\<exists>t. w' = CHR ''.'' # t" if "dropWhile is_dec w = w'" "w' \<noteq> []" "set w \<subseteq> set v" for w w'
  proof -
    have "\<not> is_dec (hd w')" using that hd_dropWhile [of is_dec w] by auto
    moreover have "is_size_char (hd w')"
      using that assms set_dropWhileD [of "hd w'" is_dec w] by auto
    ultimately show ?thesis using that(2) by (cases w') (auto simp: is_size_char_def)
  qed
  have v: "v = ?i @ ?r" by simp
  show ?thesis
  proof (cases "?r = []")
    case True
    then have all: "\<forall>c\<in>set v. is_dec c" by (simp add: dropWhile_eq_Nil_conv)
    then have "takeWhile is_dec v = v" by (simp add: takeWhile_eq_all_conv)
    then have "split_mantissa v = (v, [], [])" using True by (simp only: split_mantissa_def list.case)
    then have "float_body v = None \<longleftrightarrow> v = []"
      by (simp add: float_body_def exponent_part_def)
    moreover have "(\<forall>c\<in>set v. c = CHR ''.'') \<longleftrightarrow> v = []"
      using all dot_not_dec by (cases v) auto
    ultimately show ?thesis using no_dot [OF all] by simp
  next
    case False
    then obtain t where r: "?r = CHR ''.'' # t" using hd_dot [of v ?r] by auto
    have tv: "set t \<subseteq> set v" using r set_dropWhileD [of _ is_dec v] by (metis list.set_intros(2) subsetI)
    let ?f = "takeWhile is_dec t" and ?r2 = "dropWhile is_dec t"
    have fb: "float_body v = None \<longleftrightarrow> ?i = [] \<and> ?f = [] \<or> exponent_part ?r2 = None"
      using r by (auto simp: float_body_def split_mantissa_def)
    have cnt: "count_list v CHR ''.'' = Suc (count_list ?r2 CHR ''.'')"
    proof -
      have split: "count_list w CHR ''.'' = count_list (dropWhile is_dec w) CHR ''.''" for w
        using no_dot [OF tw [of w]] by (metis add_0 count_list_append takeWhile_dropWhile_id)
      then have "count_list v CHR ''.'' = count_list (CHR ''.'' # t) CHR ''.''" using r by metis
      then show ?thesis using split [of t] by simp
    qed
    show ?thesis
    proof (cases "?r2 = []")
      case True
      then have t: "t = ?f" by (metis append_Nil2 takeWhile_dropWhile_id)
      have "(\<forall>c\<in>set v. c = CHR ''.'') \<longleftrightarrow> ?i = [] \<and> ?f = []"
      proof
        assume all: "\<forall>c\<in>set v. c = CHR ''.''"
        then have "\<forall>c\<in>set v. \<not> is_dec c" "\<forall>c\<in>set t. \<not> is_dec c"
          using dot_not_dec tv by (metis subsetD)+
        moreover have "takeWhile is_dec w = []" if "\<forall>c\<in>set w. \<not> is_dec c" for w
          using that by (cases w) auto
        ultimately show "?i = [] \<and> ?f = []" by blast
      next
        assume e: "?i = [] \<and> ?f = []"
        then have "t = []" using t by metis
        then have "v = [CHR ''.'']" using v r e by (metis append_Nil)
        then show "\<forall>c\<in>set v. c = CHR ''.''" by simp
      qed
      then show ?thesis using fb cnt True by (simp add: exponent_part_def)
    next
      case no: False
      then obtain u where u: "?r2 = CHR ''.'' # u" using hd_dot [of t ?r2] tv by auto
      then show ?thesis using fb cnt by (simp add: exponent_part_def)
    qed
  qed
qed

section \<open>What \<open>parse_bytes\<close> returns and when it raises\<close>

lemma match_size_chars:
  "match_size t = Some (v, u) \<Longrightarrow> v \<noteq> [] \<and> (\<forall>c\<in>set v. is_size_char c) \<and> u \<noteq> [] \<and> (\<forall>c\<in>set u. is_alpha_az c)"
  by (auto simp: match_size_def Let_def dest: set_takeWhileD split: if_splits)

lemma units_positive: "SIZE_UNITS u = Some m \<Longrightarrow> 1 \<le> m \<and> m \<le> 1024 ^ 5"
  by (auto simp: SIZE_UNITS_def split: if_splits)

lemma float_of_int_small:
  assumes "\<bar>n\<bar> \<le> 2 ^ 53"
  shows "float_of_int n = Inr (round_ratio n 1)"
  using round_ratio_of_int [OF assms] by (simp add: float_of_int_def Let_def)

lemma unit_float: "SIZE_UNITS u = Some m \<Longrightarrow>
    float_of_int m = Inr (round_ratio m 1) \<and> is_finite (round_ratio m 1) \<and> fval (round_ratio m 1) = of_int m"
proof -
  assume "SIZE_UNITS u = Some m"
  then have "\<bar>m\<bar> \<le> 2 ^ 53" using units_positive [of u m] by simp
  then show ?thesis using float_of_int_small round_ratio_of_int by blast
qed

lemma fmul_not_NaN:
  assumes "f \<noteq> NaN" and "is_finite g" and "0 < fval g"
  shows "fmul f g \<noteq> NaN"
proof -
  obtain m e where g: "g = Fin m e" using assms is_finite_cases by blast
  have "0 < m"
  proof (rule ccontr)
    assume "\<not> 0 < m"
    then have "real_of_int m * 2 powi e \<le> 0" by (intro mult_nonpos_nonneg) auto
    then show False using assms(3) g by simp
  qed
  then show ?thesis using assms(1) g round_ratio_not_NaN by (cases f) (simp_all add: Let_def)
qed

lemma parse_bytes_cases:
  assumes "match_size (py_strip t) = Some (v, u)" and "SIZE_UNITS (py_upper u) = Some m"
  shows "parse_bytes t =
     (case float_body v of None \<Rightarrow> Inl ValueError
      | Some f \<Rightarrow> bind_r (py_round (fmul f (round_ratio m 1))) (\<lambda>n. Inr (Some n)))"
  using assms match_size_chars [OF assms(1)] unit_float [OF assms(2)]
  by (simp add: parse_bytes_def py_float_size split: option.splits)

lemma parse_bytes_value_error_iff:
  "parse_bytes t = Inl ValueError \<longleftrightarrow>
   (\<exists>v u. match_size (py_strip t) = Some (v, u) \<and> SIZE_UNITS (py_upper u) \<noteq> None \<and>
      (1 < count_list v CHR ''.'' \<or> (\<forall>c\<in>set v. c = CHR ''.'')))"
proof (cases "\<exists>v u m. match_size (py_strip t) = Some (v, u) \<and> SIZE_UNITS (py_upper u) = Some m")
  case True
  then obtain v u m where vu: "match_size (py_strip t) = Some (v, u)" "SIZE_UNITS (py_upper u) = Some m"
    by blast
  have sc: "\<forall>c\<in>set v. is_size_char c" using match_size_chars [OF vu(1)] by blast
  have "parse_bytes t \<noteq> Inl ValueError" if f: "float_body v = Some f" for f
  proof -
    have "0 < fval (round_ratio m 1)" using unit_float [OF vu(2)] units_positive [OF vu(2)] by simp
    then have "fmul f (round_ratio m 1) \<noteq> NaN"
      using float_body_nonneg(1) [OF f] unit_float [OF vu(2)] by (intro fmul_not_NaN) auto
    then show ?thesis using f parse_bytes_cases [OF vu]
      by (cases "fmul f (round_ratio m 1)") simp_all
  qed
  then have "parse_bytes t = Inl ValueError \<longleftrightarrow> float_body v = None"
    using parse_bytes_cases [OF vu] by (cases "float_body v") auto
  then show ?thesis using float_body_None_iff [OF sc] vu by simp
next
  case False
  then have "\<exists>r. parse_bytes t = Inr r"
    by (auto simp: parse_bytes_def split: option.splits prod.splits)
  then show ?thesis using False by auto
qed

lemma parse_bytes_nonneg:
  assumes "parse_bytes t = Inr (Some k)"
  shows "0 \<le> k"
proof -
  obtain v u m where vu: "match_size (py_strip t) = Some (v, u)" "SIZE_UNITS (py_upper u) = Some m"
    using assms by (auto simp: parse_bytes_def split: option.splits prod.splits)
  then obtain f where f: "float_body v = Some f" and k: "py_round (fmul f (round_ratio m 1)) = Inr k"
    using assms parse_bytes_cases [OF vu] by (auto simp: bind_r_eq_Inr split: option.splits)
  let ?p = "fmul f (round_ratio m 1)"
  have p: "is_finite ?p" "k = rne_real (fval ?p)" using py_round_val [OF k] by auto
  have fin: "is_finite f"
  proof (rule ccontr)
    assume "\<not> is_finite f"
    moreover obtain a b where "round_ratio m 1 = Fin a b" using unit_float [OF vu(2)] is_finite_cases by blast
    ultimately show False using p(1) float_body_nonneg(1) [OF f]
      by (cases f) (auto simp: Let_def split: if_splits)
  qed
  have "0 \<le> fval f * fval (round_ratio m 1)"
    using float_body_nonneg(2) [OF f fin] unit_float [OF vu(2)] units_positive [OF vu(2)] by simp
  then have "0 \<le> fval ?p" using fmul_val [OF fin _ p(1)] unit_float [OF vu(2)] rnd_nonneg by simp
  then have "rne_real 0 \<le> k" unfolding p(2) by (rule rne_real_mono)
  then show ?thesis using rne_real_of_int [of 0] by simp
qed

lemma parse_bytes_exact:
  assumes u: "SIZE_UNITS (py_upper u) = Some m" "u \<noteq> []" "\<forall>c\<in>set u. is_alpha_az c"
    and small: "int n * m \<le> 2 ^ 53"
  shows "parse_bytes (show_nat n @ u) = Inr (Some (int n * m))"
proof -
  let ?v = "show_nat n"
  have alpha: "\<not> is_space c \<and> \<not> is_size_char c" if "is_alpha_az c" for c
    using that by (auto simp: is_alpha_az_def is_space_def is_size_char_def is_dec_def Let_def)
  have dig: "\<forall>c\<in>set ?v. is_size_char c" using show_nat_digits dec_is_size_char by blast
  obtain c cs where uc: "u = c # cs" using u(2) by (cases u) auto
  have "hd (?v @ u) \<in> set ?v" by simp
  then have "py_strip (?v @ u) = ?v @ u"
    using u alpha dig size_char_simps(1) by (intro py_strip_ends) (auto simp: last_append)
  moreover have "match_size (?v @ u) = Some (?v, u)"
  proof -
    have "takeWhile is_size_char (?v @ u) = ?v" "dropWhile is_size_char (?v @ u) = u"
      using dig u alpha uc takeWhile_append_stop [of ?v is_size_char c cs]
        dropWhile_append_stop [of ?v is_size_char c cs] by simp_all
    moreover have "dropWhile is_space u = u" using uc u alpha by simp
    ultimately show ?thesis using u by (simp add: match_size_def Let_def)
  qed
  ultimately have ms: "match_size (py_strip (?v @ u)) = Some (?v, u)" by simp
  have m1: "1 \<le> m" using units_positive [OF u(1)] by simp
  then have "int n * 1 \<le> int n * m" by (intro mult_left_mono) auto
  then have n53: "\<bar>int n\<bar> \<le> 2 ^ 53" using small by simp
  have all: "\<forall>c\<in>set ?v. is_dec c" using show_nat_digits by blast
  then have "dropWhile is_dec ?v = []" "takeWhile is_dec ?v = ?v"
    by (simp_all add: takeWhile_eq_all_conv)
  then have "split_mantissa ?v = (?v, [], [])" by (simp only: split_mantissa_def list.case)
  then have fb: "float_body ?v = Some (round_ratio (int n) 1)"
    by (simp add: float_body_def exponent_part_def scaled_float_def decimal_val_show_nat)
  let ?p = "fmul (round_ratio (int n) 1) (round_ratio m 1)"
  obtain a b a' b' where ab: "round_ratio (int n) 1 = Fin a b" "round_ratio m 1 = Fin a' b'"
    using round_ratio_of_int(1) [OF n53] unit_float [OF u(1)] is_finite_cases by blast
  have nm: "\<bar>int n * m\<bar> \<le> 2 ^ 53" using small m1 by simp
  have vals: "fval (round_ratio (int n) 1) = of_int (int n)" "fval (round_ratio m 1) = of_int m"
    using round_ratio_of_int(2) [OF n53] unit_float [OF u(1)] by simp_all
  have prod: "fval (Fin a b) * fval (Fin a' b') = of_int (int n * m)" using vals ab by simp
  have fin: "is_finite ?p"
  proof -
    let ?n = "fst (frac_of (Fin a b)) * fst (frac_of (Fin a' b'))"
    let ?d = "snd (frac_of (Fin a b)) * snd (frac_of (Fin a' b'))"
    have "real_of_int ?n / of_int ?d = of_int (int n * m)"
      using prod frac_of_val [of "Fin a b"] frac_of_val [of "Fin a' b'"] by simp
    then have "\<bar>real_of_int ?n\<bar> / of_int ?d = \<bar>of_int (int n * m)\<bar>"
      by (metis abs_divide abs_of_pos frac_of_pos(1) mult_pos_pos of_int_0_less_iff)
    also have "\<dots> \<le> 2 ^ 53" using nm by (metis of_int_abs of_int_le_iff of_int_numeral of_int_power)
    also have "(2::real) ^ 53 < 2 powi 1023" by (simp add: power_int_def)
    finally show ?thesis unfolding ab fmul.simps
      by (intro round_ratio_finite) (simp_all only: frac_of_pos mult_pos_pos)
  qed
  then have "fval ?p = of_int (int n * m)"
    using fmul_val [of "Fin a b" "Fin a' b'"] ab prod rnd_of_int [OF nm] by simp
  then have "py_round ?p = Inr (int n * m)"
  proof -
    obtain x y where p: "?p = Fin x y" using fin is_finite_cases by blast
    have "py_round ?p = Inr (rne_real (fval ?p))"
      unfolding p using rne_refines [of "snd (frac_of (Fin x y))" "fst (frac_of (Fin x y))"]
        frac_of_val [of "Fin x y"] by simp
    then show ?thesis using \<open>fval ?p = of_int (int n * m)\<close> rne_real_of_int by metis
  qed
  then show ?thesis using parse_bytes_cases [OF ms u(1)] fb by simp
qed


text \<open>White space around a size does not matter, so a pair with \<open>" / "\<close> is its two sizes.\<close>

lemma parse_bytes_pad:
  "parse_bytes (s @ '' '') = parse_bytes s" "parse_bytes (CHR '' '' # s) = parse_bytes s"
  using py_strip_snoc_space [of "CHR '' ''" s] py_strip_Cons_space [of "CHR '' ''" s]
  by (simp_all add: parse_bytes_def is_space_def)

lemma parse_pair_bytes_sizes:
  assumes "CHR ''/'' \<notin> set l" and "parse_bytes l = Inr a" and "parse_bytes r = Inr b"
  shows "parse_pair_bytes (l @ '' / '' @ r) = Inr (a, b)"
proof -
  have "CHR ''/'' \<notin> set (l @ '' '')" using assms(1) by simp
  from py_partition_intro [OF this, of "CHR '' '' # r"]
  have "py_partition CHR ''/'' (l @ '' / '' @ r) = (l @ '' '', True, CHR '' '' # r)" by simp
  then show ?thesis using assms parse_bytes_pad by (simp add: parse_pair_bytes_def)
qed

lemma size_no_slash:
  "\<forall>c\<in>set u. is_alpha_az c \<Longrightarrow> CHR ''/'' \<notin> set (show_nat n @ u)"
  using show_nat_digits [of "CHR ''/''" n] by (auto simp: is_dec_def is_alpha_az_def Let_def)

text \<open>What Docker prints for a whole number of bytes, and for a used/limit pair of them.\<close>

definition docker_size :: "string \<Rightarrow> int \<Rightarrow> bool" where
  "docker_size s n \<longleftrightarrow> (\<exists>a u m. s = show_nat a @ u \<and> SIZE_UNITS (py_upper u) = Some m \<and> u \<noteq> [] \<and>
     (\<forall>c\<in>set u. is_alpha_az c) \<and> n = int a * m \<and> n \<le> 2 ^ 53)"

definition docker_pair :: "string \<Rightarrow> int \<Rightarrow> int \<Rightarrow> bool" where
  "docker_pair s x y \<longleftrightarrow> (\<exists>l r. s = l @ '' / '' @ r \<and> docker_size l x \<and> docker_size r y)"

lemma docker_size_parse: "docker_size s n \<Longrightarrow> parse_bytes s = Inr (Some n)"
  using parse_bytes_exact by (auto simp: docker_size_def)

lemma docker_pair_parse: "docker_pair s x y \<Longrightarrow> parse_pair_bytes s = Inr (Some x, Some y)"
  using parse_pair_bytes_sizes docker_size_parse size_no_slash
  unfolding docker_pair_def docker_size_def by blast

section \<open>Properties\<close>

text \<open>
  A whole number followed by a known suffix, in any letter case, parses to exactly that
  many bytes as long as the product is at most 2^53, in spite of the float multiplication on
  the way: \<open>50MiB\<close> is 52428800.
\<close>

lemma docker_sizes_parse_exactly:
  assumes "SIZE_UNITS (py_upper u) = Some m" and "u \<noteq> []" and "\<forall>c\<in>set u. is_alpha_az c"
    and "int n * m \<le> 2 ^ 53"
  shows "parse_bytes (show_nat n @ u) = Inr (Some (int n * m))"
  using parse_bytes_exact [OF assms] .

lemma docker_sizes_parse_exactly_example:
  "parse_bytes (show_nat 50 @ ''MiB'') = Inr (Some 52428800)"
proof -
  have "SIZE_UNITS (py_upper ''MiB'') = Some (1024 ^ 2)" by code_simp
  moreover have "\<forall>c\<in>set ''MiB''. is_alpha_az c" by code_simp
  ultimately show ?thesis using docker_sizes_parse_exactly [of "''MiB''" "1024 ^ 2" 50] by simp
qed

text \<open>
  C31. \<open>parse_bytes\<close> does not return \<open>None\<close> for every text it cannot parse, as its docstring
  says: it raises \<open>ValueError\<close> exactly when the text matches the size pattern with a known
  unit and its number part has more than one dot or no digit at all.
\<close>

theorem parse_bytes_raises_iff:
  "parse_bytes t = Inl ValueError \<longleftrightarrow>
   (\<exists>v u. match_size (py_strip t) = Some (v, u) \<and> SIZE_UNITS (py_upper u) \<noteq> None \<and>
      (1 < count_list v CHR ''.'' \<or> (\<forall>c\<in>set v. c = CHR ''.'')))"
  by (rule parse_bytes_value_error_iff)

theorem parse_bytes_raises_iff_witness:
  "parse_bytes ''1.2.3MB'' = Inl ValueError"
proof -
  have "match_size (py_strip ''1.2.3MB'') = Some (''1.2.3'', ''MB'')" by code_simp
  moreover have "SIZE_UNITS (py_upper ''MB'') \<noteq> None" by code_simp
  moreover have "1 < count_list ''1.2.3'' CHR ''.''" by code_simp
  ultimately show ?thesis using parse_bytes_raises_iff [of "''1.2.3MB''"] by blast
qed

end
