(* ===== verification/Sampling_Loop.thy ===== *)
theory Sampling_Loop
  imports Prelude
begin

text \<open>
  What the sampling loops of the listener (\<^verbatim>\<open>container_stats.py\<close>, \<^verbatim>\<open>system_stats.py\<close>) share,
  whatever one cycle does: a cycle takes the loop's state and what the cycle found, emits
  records and either hands on a state or raises an exception that ends the loop. The locale is
  that contract; its lemmas say what holds of every such loop, in particular that a finite list
  of cycles stands for a prefix of a run that goes on.
\<close>

locale sampling_loop =
  fixes cycle :: "'s \<Rightarrow> 'i \<Rightarrow> 'o list \<times> ('s + 'e)"
    and loop :: "'s \<Rightarrow> 'i list \<Rightarrow> 'o list \<times> 'e option"
  assumes loop_nil: "loop s [] = ([], None)"
    and loop_stop: "cycle s i = (xs, Inr e) \<Longrightarrow> loop s (i # is) = (xs, Some e)"
    and loop_go: "cycle s i = (xs, Inl s') \<Longrightarrow> loop s (i # is) = (xs @ fst (loop s' is), snd (loop s' is))"
begin

lemma loop_cases:
  obtains (stop) xs e where "cycle s i = (xs, Inr e)" "\<And>is. loop s (i # is) = (xs, Some e)"
  | (go) xs s' where "cycle s i = (xs, Inl s')" "\<And>is. loop s (i # is) = (xs @ fst (loop s' is), snd (loop s' is))"
proof -
  obtain xs r where c: "cycle s i = (xs, r)" by (cases "cycle s i")
  show thesis
  proof (cases r)
    case (Inl s')
    then show thesis using c loop_go go by blast
  next
    case (Inr e)
    then show thesis using c loop_stop stop by blast
  qed
qed

text \<open>An exception is the end: no later cycle adds a record or changes the outcome.\<close>

lemma dead_stays_dead: "snd (loop s xs) = Some e \<Longrightarrow> loop s (xs @ ys) = loop s xs"
proof (induction xs arbitrary: s)
  case (Cons i xs)
  show ?case by (cases rule: loop_cases [of s i]) (use Cons in auto)
qed (simp add: loop_nil)

text \<open>What was emitted stays; a loop that has not ended goes on from some state.\<close>

lemma goes_on:
  "snd (loop s xs) = None \<Longrightarrow> \<exists>s'. \<forall>ys. loop s (xs @ ys) = (fst (loop s xs) @ fst (loop s' ys), snd (loop s' ys))"
proof (induction xs arbitrary: s)
  case Nil
  show ?case by (intro exI [of _ s]) (simp add: loop_nil)
next
  case (Cons i xs)
  show ?case
  proof (cases rule: loop_cases [of s i])
    case (stop zs e)
    then show ?thesis using Cons.prems by simp
  next
    case (go zs s1)
    then have "snd (loop s1 xs) = None" using Cons.prems by simp
    from Cons.IH [OF this] obtain s' where "\<forall>ys. loop s1 (xs @ ys) = (fst (loop s1 xs) @ fst (loop s' ys), snd (loop s' ys))" by blast
    then show ?thesis using go(2) by (intro exI [of _ s']) simp
  qed
qed

lemma emitted_stays: "prefix (fst (loop s xs)) (fst (loop s (xs @ ys)))"
proof (cases "snd (loop s xs)")
  case None
  from goes_on [OF this] show ?thesis by (auto simp: prefix_def)
qed (simp add: dead_stays_dead)

text \<open>Every record is one of some cycle, run in a state the invariant holds of.\<close>

lemma emitted_by_a_cycle:
  assumes step: "\<And>s i xs s'. P s \<Longrightarrow> cycle s i = (xs, Inl s') \<Longrightarrow> P s'"
  shows "r \<in> set (fst (loop s is)) \<Longrightarrow> P s \<Longrightarrow> \<exists>s'. \<exists>i\<in>set is. P s' \<and> r \<in> set (fst (cycle s' i))"
proof (induction "is" arbitrary: s)
  case (Cons i "is")
  show ?case
  proof (cases rule: loop_cases [of s i])
    case (stop xs e)
    then show ?thesis using Cons.prems by (intro exI [of _ s]) simp
  next
    case (go xs s1)
    show ?thesis
    proof (cases "r \<in> set xs")
      case True
      then show ?thesis using Cons.prems(2) go(1) by (intro exI [of _ s]) simp
    next
      case False
      then have "r \<in> set (fst (loop s1 is))" using Cons.prems(1) go(2) by simp
      then show ?thesis using Cons.IH step [OF Cons.prems(2) go(1)] by fastforce
    qed
  qed
qed (simp add: loop_nil)

end

end
