(* ===== verification/Container_Stats.thy ===== *)
theory Container_Stats
  imports Units Docker_Cli Registry Sampling_Loop
begin

text \<open>
  \<^verbatim>\<open>log_sump_listener/container_stats.py\<close>: one \<open>docker stats --no-stream\<close> sample into one metric
  record per container the registry knows, and the loop over the cycles with its one sequence
  counter. A sample returns the records emitted, the counter and the exception that ended it,
  if any: records emitted before an exception stay emitted.
\<close>

definition parse_int :: "runtime \<Rightarrow> json option \<Rightarrow> int option" where
  "parse_int rt v =
     (case v of
        None \<Rightarrow> None
      | Some JNull \<Rightarrow> None
      | Some w \<Rightarrow> (case py_int (py_strip (py_str rt w)) of Inl e \<Rightarrow> None | Inr n \<Rightarrow> Some n))"

definition parse_stats_line :: "runtime \<Rightarrow> string \<Rightarrow> json_dict \<Rightarrow> int \<Rightarrow> datetime \<Rightarrow> metric_record result" where
  "parse_stats_line rt host d n t =
     bind_r (parse_pair_bytes (get_str rt d ''MemUsage'' [])) (\<lambda>(mem_used, mem_limit).
     bind_r (parse_pair_bytes (get_str rt d ''NetIO'' [])) (\<lambda>(net_rx, net_tx).
     bind_r (parse_pair_bytes (get_str rt d ''BlockIO'' [])) (\<lambda>(blk_read, blk_write).
       Inr \<lparr>docker_host = host, container_name = get_str rt d ''Name'' [],
            container_id = get_str rt d ''ID'' [], ts = t, seq = n,
            metric_scope = CONTAINER, cpu_pct = parse_percent (get_str rt d ''CPUPerc'' []),
            mem_used_bytes = mem_used, mem_limit_bytes = mem_limit,
            mem_pct = parse_percent (get_str rt d ''MemPerc'' []),
            net_rx_bytes = net_rx, net_tx_bytes = net_tx,
            blk_read_bytes = blk_read, blk_write_bytes = blk_write,
            pids = parse_int rt (dict_get d ''PIDs''), system = None,
            source = ''docker stats'', raw_data = JObj d\<rparr>)))"

text \<open>\<open>data.get("ID") not in known_ids\<close>, which hashes the value first.\<close>

definition is_known_id :: "string set \<Rightarrow> json option \<Rightarrow> bool result" where
  "is_known_id known_ids v =
     (case v of
        None \<Rightarrow> Inr False
      | Some w \<Rightarrow> if \<not> hashable w then Inl TypeError
                  else Inr (case w of JStr s \<Rightarrow> s \<in> known_ids | _ \<Rightarrow> False))"

text \<open>One line of the output: skipped, or the dict of a known container.\<close>

definition stats_row :: "runtime \<Rightarrow> string set \<Rightarrow> string \<Rightarrow> json_dict option result" where
  "stats_row rt known_ids line =
     bind_r (json_loads rt line) (\<lambda>data. bind_r (data_get data ''ID'') (\<lambda>i.
       bind_r (is_known_id known_ids i) (\<lambda>k.
         Inr (if k then (case data of JObj d \<Rightarrow> Some d | _ \<Rightarrow> None) else None))))"

fun sample_lines :: "runtime \<Rightarrow> string \<Rightarrow> string set \<Rightarrow> datetime \<Rightarrow> int \<Rightarrow> string list
    \<Rightarrow> metric_record list \<times> int \<times> py_error option" where
  "sample_lines rt host known_ids t n [] = ([], n, None)"
| "sample_lines rt host known_ids t n (line # lines) =
     (case stats_row rt known_ids line of
        Inl e \<Rightarrow> ([], n, Some e)
      | Inr None \<Rightarrow> sample_lines rt host known_ids t n lines
      | Inr (Some d) \<Rightarrow>
          (case parse_stats_line rt host d n t of
             Inl e \<Rightarrow> ([], n + 1, Some e)
           | Inr r \<Rightarrow>
               (case sample_lines rt host known_ids t (n + 1) lines of
                  (rs, n', err) \<Rightarrow> (r # rs, n', err))))"

definition known_ids :: "'cb registry \<Rightarrow> string \<Rightarrow> string set" where
  "known_ids reg h = dom (containers (fst (state_for reg h)))"

definition sample_once :: "runtime \<Rightarrow> string \<Rightarrow> exec_result result \<Rightarrow> 'cb registry \<Rightarrow> datetime \<Rightarrow> int
    \<Rightarrow> metric_record list \<times> int \<times> py_error option" where
  "sample_once rt host res reg t n =
     (case checked_stdout res of
        Inl e \<Rightarrow> ([], n, Some e)
      | Inr out \<Rightarrow> sample_lines rt host (known_ids reg host) t n (nonblank_lines out))"

text \<open>
  The loop: each cycle has the command's outcome, the registry and the clock of that moment;
  an exception the clause does not name ends it.
\<close>

fun run_container_stats :: "runtime \<Rightarrow> string \<Rightarrow> (exec_result result \<times> 'cb registry \<times> datetime) list \<Rightarrow> int
    \<Rightarrow> metric_record list \<times> py_error option" where
  "run_container_stats rt host [] n = ([], None)"
| "run_container_stats rt host ((res, reg, t) # cycles) n =
     (case sample_once rt host res reg t n of
        (rs, n', err) \<Rightarrow>
          if (case err of None \<Rightarrow> False | Some e \<Rightarrow> \<not> caught_by_cycle e) then (rs, err)
          else (case run_container_stats rt host cycles n' of (rs', err') \<Rightarrow> (rs @ rs', err')))"

text \<open>The cycle as the interface of theory \<open>Sampling_Loop\<close> sees it.\<close>

definition stats_cycle :: "runtime \<Rightarrow> string \<Rightarrow> int \<Rightarrow> exec_result result \<times> 'cb registry \<times> datetime
    \<Rightarrow> metric_record list \<times> (int + py_error)" where
  "stats_cycle rt host n c =
     (case c of (res, reg, t) \<Rightarrow>
       (case sample_once rt host res reg t n of
          (rs, n', Some e) \<Rightarrow> (rs, if caught_by_cycle e then Inl n' else Inr e)
        | (rs, n', None) \<Rightarrow> (rs, Inl n')))"

interpretation stats_loop: sampling_loop "stats_cycle rt h" "\<lambda>n cycles. run_container_stats rt h cycles n" for rt h
proof (unfold_locales, goal_cases)
  case (2 n c rs e cycles)
  then show ?case by (cases c) (auto simp: stats_cycle_def split: prod.splits option.splits if_splits)
next
  case (3 n c rs n' cycles)
  then show ?case by (cases c) (auto simp: stats_cycle_def split: prod.splits option.splits if_splits)
qed simp

section \<open>One row\<close>

lemma parse_stats_line_identity:
  "parse_stats_line rt h d n t = Inr r \<Longrightarrow>
   docker_host r = h \<and> seq r = n \<and> ts r = t \<and> metric_scope r = CONTAINER \<and> raw_data r = JObj d \<and>
   container_id r = get_str rt d ''ID'' [] \<and> container_name r = get_str rt d ''Name'' [] \<and>
   source r = ''docker stats'' \<and> system r = None"
  by (auto simp: parse_stats_line_def bind_r_eq_Inr)

lemma parse_stats_line_values:
  "parse_stats_line rt h d n t = Inr r \<longleftrightarrow>
   (\<exists>mu ml rx tx br bw.
     parse_pair_bytes (get_str rt d ''MemUsage'' []) = Inr (mu, ml) \<and>
     parse_pair_bytes (get_str rt d ''NetIO'' []) = Inr (rx, tx) \<and>
     parse_pair_bytes (get_str rt d ''BlockIO'' []) = Inr (br, bw) \<and>
     r = \<lparr>docker_host = h, container_name = get_str rt d ''Name'' [],
            container_id = get_str rt d ''ID'' [], ts = t, seq = n,
            metric_scope = CONTAINER, cpu_pct = parse_percent (get_str rt d ''CPUPerc'' []),
            mem_used_bytes = mu, mem_limit_bytes = ml,
            mem_pct = parse_percent (get_str rt d ''MemPerc'' []),
            net_rx_bytes = rx, net_tx_bytes = tx, blk_read_bytes = br, blk_write_bytes = bw,
            pids = parse_int rt (dict_get d ''PIDs''), system = None,
            source = ''docker stats'', raw_data = JObj d\<rparr>)"
  by (auto simp: parse_stats_line_def bind_r_eq_Inr)

lemma stats_row_Some:
  "stats_row rt ks line = Inr (Some d) \<longleftrightarrow>
   json_loads rt line = Inr (JObj d) \<and> (\<exists>s\<in>ks. dict_get d ''ID'' = Some (JStr s))"
proof (cases "json_loads rt line")
  case (Inl e)
  then show ?thesis by (simp add: stats_row_def)
next
  case (Inr data)
  show ?thesis
  proof (cases data)
    case (JObj d')
    show ?thesis
    proof (cases "dict_get d' ''ID''")
      case None
      then show ?thesis using Inr JObj by (auto simp: stats_row_def data_get_def is_known_id_def)
    next
      case (Some v)
      then show ?thesis using Inr JObj
        by (cases v) (auto simp: stats_row_def data_get_def is_known_id_def)
    qed
  qed (use Inr in \<open>simp_all add: stats_row_def data_get_def\<close>)
qed

lemma stats_row_known: "stats_row rt ks line = Inr (Some d) \<Longrightarrow> get_str rt d ''ID'' [] \<in> ks"
  by (auto simp: stats_row_Some get_str_def py_str_def)

lemma sample_lines_Some_Cons:
  assumes "stats_row rt ks line = Inr (Some d)" and "parse_stats_line rt h d n t = Inr r"
  shows "fst (sample_lines rt h ks t n (line # lines)) = r # fst (sample_lines rt h ks t (n + 1) lines)"
    and "snd (sample_lines rt h ks t n (line # lines)) = snd (sample_lines rt h ks t (n + 1) lines)"
  using assms by (simp_all split: prod.splits)

lemma sample_lines_cases:
  obtains (error) e n' where "sample_lines rt h ks t n (line # lines) = ([], n', Some e)" "n \<le> n'"
  | (skip) "sample_lines rt h ks t n (line # lines) = sample_lines rt h ks t n lines"
  | (emit) d r where "stats_row rt ks line = Inr (Some d)" "parse_stats_line rt h d n t = Inr r"
      "sample_lines rt h ks t n (line # lines) =
        (r # fst (sample_lines rt h ks t (n + 1) lines), snd (sample_lines rt h ks t (n + 1) lines))"
proof (cases "stats_row rt ks line")
  case (Inl e)
  then show thesis using error [of n e] by simp
next
  case (Inr v)
  show thesis
  proof (cases v)
    case None
    then show thesis using Inr by (intro skip) simp
  next
    case (Some d)
    show thesis
    proof (cases "parse_stats_line rt h d n t")
      case (Inl e)
      then show thesis using \<open>stats_row rt ks line = Inr v\<close> Some error [of "n + 1" e] by simp
    next
      case (Inr r)
      then show thesis using \<open>stats_row rt ks line = Inr v\<close> Some
        by (intro emit [of d r]) (simp_all split: prod.splits)
    qed
  qed
qed

lemma sample_lines_seq: "n \<le> fst (snd (sample_lines rt h ks t n lines))"
proof (induction lines arbitrary: n)
  case (Cons line lines)
  show ?case
    by (cases rule: sample_lines_cases [of rt h ks t n line lines])
      (use Cons [of n] Cons [of "n + 1"] in auto)
qed simp

lemma sample_lines_record:
  "r \<in> set (fst (sample_lines rt h ks t n lines)) \<Longrightarrow>
   container_id r \<in> ks \<and> docker_host r = h \<and> ts r = t \<and> metric_scope r = CONTAINER \<and>
   n \<le> seq r \<and> seq r < fst (snd (sample_lines rt h ks t n lines))"
proof (induction lines arbitrary: n)
  case (Cons line lines)
  show ?case
  proof (cases rule: sample_lines_cases [of rt h ks t n line lines])
    case (error e n')
    then show ?thesis using Cons.prems by simp
  next
    case skip
    then show ?thesis using Cons.prems Cons.IH [of n] by simp
  next
    case (emit d r')
    show ?thesis
    proof (cases "r = r'")
      case True
      then show ?thesis
        using emit parse_stats_line_identity [OF emit(2)] stats_row_known [OF emit(1)]
          sample_lines_seq [of "n + 1" rt h ks t lines] by simp
    next
      case False
      then show ?thesis using emit(3) Cons.prems Cons.IH [of "n + 1"] by simp
    qed
  qed
qed simp

lemma sample_lines_sorted: "sorted_wrt (<) (map seq (fst (sample_lines rt h ks t n lines)))"
proof (induction lines arbitrary: n)
  case (Cons line lines)
  show ?case
  proof (cases rule: sample_lines_cases [of rt h ks t n line lines])
    case (emit d r)
    have "n < seq r'" if "r' \<in> set (fst (sample_lines rt h ks t (n + 1) lines))" for r'
      using sample_lines_record [OF that] by simp
    then show ?thesis using emit(3) Cons.IH [of "n + 1"] parse_stats_line_identity [OF emit(2)] by auto
  qed (use Cons.IH [of n] in simp_all)
qed simp

lemma sample_once_records:
  "r \<in> set (fst (sample_once rt h res reg t n)) \<Longrightarrow>
   known reg h (container_id r) \<noteq> None \<and> docker_host r = h \<and> ts r = t \<and> metric_scope r = CONTAINER \<and>
   n \<le> seq r \<and> seq r < fst (snd (sample_once rt h res reg t n))"
proof -
  assume r: "r \<in> set (fst (sample_once rt h res reg t n))"
  then obtain out where out: "checked_stdout res = Inr out"
    by (auto simp: sample_once_def split: sum.splits)
  have "known_ids reg h = {c. known reg h c \<noteq> None}"
    by (auto simp: known_ids_def known_def state_for_def new_daemon_state_def split: option.splits)
  with sample_lines_record [of r rt h "known_ids reg h" t n "nonblank_lines out"] r out
  show ?thesis by (simp add: sample_once_def)
qed

lemma sample_once_seq: "n \<le> fst (snd (sample_once rt h res reg t n))"
  using sample_lines_seq by (auto simp: sample_once_def split: sum.splits)

lemma sample_once_sorted: "sorted_wrt (<) (map seq (fst (sample_once rt h res reg t n)))"
  using sample_lines_sorted by (auto simp: sample_once_def split: sum.splits)

lemma run_stats_records:
  "r \<in> set (fst (run_container_stats rt h cycles n)) \<Longrightarrow>
   n \<le> seq r \<and> docker_host r = h \<and> metric_scope r = CONTAINER \<and>
   (\<exists>(res, reg, t) \<in> set cycles. ts r = t \<and> known reg h (container_id r) \<noteq> None)"
proof (induction cycles arbitrary: n)
  case (Cons c cycles)
  obtain res reg t where c: "c = (res, reg, t)" by (cases c)
  obtain rs n' err where s: "sample_once rt h res reg t n = (rs, n', err)"
    by (cases "sample_once rt h res reg t n")
  have "r \<in> set rs \<or> r \<in> set (fst (run_container_stats rt h cycles n'))"
    using Cons.prems by (auto simp: c s split: if_splits prod.splits)
  then show ?case
    using sample_once_records [of r rt h res reg t n] Cons.IH [of n'] sample_once_seq [of n rt h res reg t]
    by (auto simp: c s)
qed simp

lemma run_stats_sorted: "sorted_wrt (<) (map seq (fst (run_container_stats rt h cycles n)))"
proof (induction cycles arbitrary: n)
  case (Cons c cycles)
  obtain res reg t where c: "c = (res, reg, t)" by (cases c)
  obtain rs n' err where s: "sample_once rt h res reg t n = (rs, n', err)"
    by (cases "sample_once rt h res reg t n")
  have "a < b" if "a \<in> seq ` set rs" "b \<in> seq ` set (fst (run_container_stats rt h cycles n'))" for a b
    using that sample_once_records [of _ rt h res reg t n] run_stats_records [of _ rt h cycles n']
    by (fastforce simp: s)
  then show ?case using Cons.IH [of n'] sample_once_sorted [of rt h res reg t n]
    by (auto simp: c s sorted_wrt_append split: prod.splits)
qed simp

section \<open>Properties\<close>

text \<open>
  Every container metric is about a container the registry held when the sample was taken
  and carries that sample's time, and \<open>seq\<close> strictly increases over all the records of the
  loop, across cycles that fail or are cut short by a bad row.
\<close>

lemma stats_only_for_known_containers:
  "sorted_wrt (<) (map seq (fst (run_container_stats rt h cycles n))) \<and>
   (\<forall>r. r \<in> set (fst (run_container_stats rt h cycles n)) \<longrightarrow>
      docker_host r = h \<and> metric_scope r = CONTAINER \<and>
      (\<exists>(res, reg, t) \<in> set cycles. ts r = t \<and> known reg h (container_id r) \<noteq> None))"
  using run_stats_sorted run_stats_records by blast


lemma stats_only_for_known_containers_example:
  "let rt = table_runtime [(''x'', JObj [(''ID'', JStr ''c1''), (''Name'', JStr ''web'')])] [];
       reg = fst (update (new_registry :: unit registry) ''d'' [\<lparr>ref_id = ''c1'', ref_name = ''web''\<rparr>]);
       now = \<lparr>dt_us = 0, dt_aware = True\<rparr>;
       rs = fst (run_container_stats rt ''d'' [(Inr \<lparr>returncode = 0, stdout = ''x'', stderr = []\<rparr>, reg, now)] 1)
   in map seq rs = [1] \<and> map metric_scope rs = [CONTAINER]"
proof -
  let ?rt = "table_runtime [(''x'', JObj [(''ID'', JStr ''c1''), (''Name'', JStr ''web'')])] []"
  let ?reg = "fst (update (new_registry :: unit registry) ''d'' [\<lparr>ref_id = ''c1'', ref_name = ''web''\<rparr>])"
  let ?now = "\<lparr>dt_us = 0, dt_aware = True\<rparr>"
  let ?cs = "[(Inr \<lparr>returncode = 0, stdout = ''x'', stderr = []\<rparr>, ?reg, ?now)]"
  have "known ?reg ''d'' ''c1'' \<noteq> None" by (simp add: known_update)
  then have k: "''c1'' \<in> known_ids ?reg ''d''"
    by (auto simp: known_ids_def known_def state_for_def split: option.splits)
  let ?d = "[(''ID'', JStr ''c1''), (''Name'', JStr ''web'')]"
  have row: "stats_row ?rt (known_ids ?reg ''d'') ''x'' = Inr (Some ?d)"
    unfolding stats_row_Some using k by (auto simp: dict_get_def)
  have none: "parse_pair_bytes [] = Inr (None, None)"
    by (simp add: parse_pair_bytes_def py_partition_def)
  obtain r where r: "parse_stats_line ?rt ''d'' ?d 1 ?now = Inr r"
    by (simp add: parse_stats_line_def get_str_def dict_get_def none)
  have "nonblank_lines ''x'' = [''x'']" by code_simp
  moreover have "checked_stdout (Inr \<lparr>returncode = 0, stdout = ''x'', stderr = []\<rparr>) = Inr ''x''"
    by (simp add: checked_stdout_Inr)
  ultimately have run: "fst (run_container_stats ?rt ''d'' ?cs 1) = [r]"
    using row r by (simp add: sample_once_def)
  have "metric_scope r = CONTAINER"
    using stats_only_for_known_containers [of ?rt "''d''" ?cs 1] unfolding run by simp
  then show ?thesis using run parse_stats_line_identity [OF r] by (simp add: Let_def)
qed


text \<open>
  A row with sizes Docker prints, whole numbers with a known suffix below 2^53 bytes,
  becomes a record with exactly those byte counts, the row itself kept in \<open>raw\<close>.
\<close>

lemma stats_row_values:
  assumes "docker_pair (get_str rt d ''MemUsage'' []) mu ml"
    and "docker_pair (get_str rt d ''NetIO'' []) rx tx"
    and "docker_pair (get_str rt d ''BlockIO'' []) br bw"
  shows "\<exists>r. parse_stats_line rt h d n t = Inr r \<and>
    mem_used_bytes r = Some mu \<and> mem_limit_bytes r = Some ml \<and>
    net_rx_bytes r = Some rx \<and> net_tx_bytes r = Some tx \<and>
    blk_read_bytes r = Some br \<and> blk_write_bytes r = Some bw \<and>
    container_id r = get_str rt d ''ID'' [] \<and> raw_data r = JObj d"
  unfolding parse_stats_line_def assms [THEN docker_pair_parse] by simp

lemma stats_row_values_example:
  "let d = [(''ID'', JStr ''c1''), (''MemUsage'', JStr ''50MiB / 2GiB''),
            (''NetIO'', JStr ''1kB / 2MB''), (''BlockIO'', JStr ''0B / 4MB'')] in
   \<exists>r. parse_stats_line (table_runtime [] []) ''d'' d 1 \<lparr>dt_us = 0, dt_aware = True\<rparr> = Inr r \<and>
     mem_used_bytes r = Some 52428800 \<and> mem_limit_bytes r = Some 2147483648 \<and>
     net_rx_bytes r = Some 1000 \<and> blk_read_bytes r = Some 0"
proof -
  let ?d = "[(''ID'', JStr ''c1''), (''MemUsage'', JStr ''50MiB / 2GiB''),
            (''NetIO'', JStr ''1kB / 2MB''), (''BlockIO'', JStr ''0B / 4MB'')]"
  have size: "docker_size (show_nat a @ u) (int a * m)"
    if "SIZE_UNITS (py_upper u) = Some m" "u \<noteq> []" "\<forall>c\<in>set u. is_alpha_az c" "int a * m \<le> 2 ^ 53" for a u m
    using that unfolding docker_size_def by blast
  have u: "SIZE_UNITS (py_upper ''MiB'') = Some (1024 ^ 2)" "SIZE_UNITS (py_upper ''GiB'') = Some (1024 ^ 3)"
    "SIZE_UNITS (py_upper ''kB'') = Some 1000" "SIZE_UNITS (py_upper ''MB'') = Some (1000 ^ 2)"
    "SIZE_UNITS (py_upper ''B'') = Some 1"
    by code_simp+
  have al: "\<forall>c\<in>set ''MiB''. is_alpha_az c" "\<forall>c\<in>set ''GiB''. is_alpha_az c" "\<forall>c\<in>set ''kB''. is_alpha_az c"
    "\<forall>c\<in>set ''MB''. is_alpha_az c" "\<forall>c\<in>set ''B''. is_alpha_az c"
    by code_simp+
  have sh: "show_nat 50 = ''50''" "show_nat 2 = ''2''" "show_nat 1 = ''1''" "show_nat 0 = ''0''" "show_nat 4 = ''4''"
    by code_simp+
  have 1: "docker_pair (get_str (table_runtime [] []) ?d ''MemUsage'' []) 52428800 2147483648"
    using size [OF u(1) _ al(1), of 50] size [OF u(2) _ al(2), of 2]
    unfolding docker_pair_def sh by (intro exI [of _ "''50MiB''"] exI [of _ "''2GiB''"])
      (simp add: get_str_def dict_get_def py_str_def)
  have 2: "docker_pair (get_str (table_runtime [] []) ?d ''NetIO'' []) 1000 2000000"
    using size [OF u(3) _ al(3), of 1] size [OF u(4) _ al(4), of 2]
    unfolding docker_pair_def sh by (intro exI [of _ "''1kB''"] exI [of _ "''2MB''"])
      (simp add: get_str_def dict_get_def py_str_def)
  have 3: "docker_pair (get_str (table_runtime [] []) ?d ''BlockIO'' []) 0 4000000"
    using size [OF u(5) _ al(5), of 0] size [OF u(4) _ al(4), of 4]
    unfolding docker_pair_def sh by (intro exI [of _ "''0B''"] exI [of _ "''4MB''"])
      (simp add: get_str_def dict_get_def py_str_def)
  show ?thesis
    using stats_row_values [OF 1 2 3, of "''d''" 1 "\<lparr>dt_us = 0, dt_aware = True\<rparr>"]
    unfolding Let_def by blast
qed

end
