(* ===== verification/Proc_Parsers.thy ===== *)
theory Proc_Parsers
  imports Transport
begin

text \<open>
  The \<open>/proc\<close> half of \<^verbatim>\<open>log_sump_listener/system_stats.py\<close>: the script that prints the four
  files between markers, the split of its output, the parsers of \<^verbatim>\<open>/proc/stat\<close>,
  \<^verbatim>\<open>/proc/meminfo\<close>, \<^verbatim>\<open>/proc/net/dev\<close> and \<^verbatim>\<open>/proc/diskstats\<close>, and the CPU percentage between two
  samples, in the float arithmetic of the code.

  Lemmas: the split undoes the script's output; the counters are the sums over the rows they
  are meant to sum; the percentage lies between 0 and 100.
\<close>

definition MARKER_STAT :: string where "MARKER_STAT = ''===STAT===''"
definition MARKER_MEMINFO :: string where "MARKER_MEMINFO = ''===MEMINFO===''"
definition MARKER_NETDEV :: string where "MARKER_NETDEV = ''===NETDEV===''"
definition MARKER_DISKSTATS :: string where "MARKER_DISKSTATS = ''===DISKSTATS===''"

definition markers :: "string list" where
  "markers = [MARKER_STAT, MARKER_MEMINFO, MARKER_NETDEV, MARKER_DISKSTATS]"

lemmas marker_defs = MARKER_STAT_def MARKER_MEMINFO_def MARKER_NETDEV_def MARKER_DISKSTATS_def markers_def

definition PROC_READ_SCRIPT :: string where
  "PROC_READ_SCRIPT =
     ''echo '' @ MARKER_STAT @ ''; cat /proc/stat; '' @
     ''echo '' @ MARKER_MEMINFO @ ''; cat /proc/meminfo; '' @
     ''echo '' @ MARKER_NETDEV @ ''; cat /proc/net/dev; '' @
     ''echo '' @ MARKER_DISKSTATS @ ''; cat /proc/diskstats''"

section \<open>Sections\<close>

text \<open>The dict of line lists, in insertion order, and the marker the next lines belong to.\<close>

type_synonym sections = "(string \<times> string list) list"

fun set_section :: "sections \<Rightarrow> string \<Rightarrow> string list \<Rightarrow> sections" where
  "set_section [] k v = [(k, v)]"
| "set_section ((k', v') # d) k v = (if k' = k then (k, v) # d else (k', v') # set_section d k v)"

fun append_section :: "sections \<Rightarrow> string \<Rightarrow> string \<Rightarrow> sections" where
  "append_section [] k l = []"
| "append_section ((k', v') # d) k l =
     (if k' = k then (k', v' @ [l]) # d else (k', v') # append_section d k l)"

fun split_lines :: "sections \<Rightarrow> string option \<Rightarrow> string list \<Rightarrow> sections" where
  "split_lines secs cur [] = secs"
| "split_lines secs cur (line # lines) =
     (if line \<in> set markers then split_lines (set_section secs line []) (Some line) lines
      else case cur of
        None \<Rightarrow> split_lines secs None lines
      | Some m \<Rightarrow> split_lines (append_section secs m line) cur lines)"

definition split_proc_sections :: "string \<Rightarrow> (string \<times> string) list" where
  "split_proc_sections out =
     map (\<lambda>(marker, ls). (marker, join_nl ls)) (split_lines [] None (py_splitlines out))"

definition section_text :: "(string \<times> string) list \<Rightarrow> string \<Rightarrow> string" where
  "section_text secs marker = (case map_of secs marker of None \<Rightarrow> [] | Some t \<Rightarrow> t)"

section \<open>The four files\<close>

fun parse_cpu_lines :: "string list \<Rightarrow> (int \<times> int) option result" where
  "parse_cpu_lines [] = Inr None"
| "parse_cpu_lines (line # lines) =
     (if py_startswith line ''cpu '' then
        bind_r (map_r py_int (filter py_isdigit (drop 1 (py_split line)))) (\<lambda>values.
          if length values < 4 then Inr None
          else Inr (Some (sum_list values, values ! 3 + (if 4 < length values then values ! 4 else 0))))
      else parse_cpu_lines lines)"

definition parse_cpu_total_idle :: "string \<Rightarrow> (int \<times> int) option result" where
  "parse_cpu_total_idle stat_text = parse_cpu_lines (py_splitlines stat_text)"

definition meminfo_line :: "(string \<rightharpoonup> int) \<Rightarrow> string \<Rightarrow> (string \<rightharpoonup> int)" where
  "meminfo_line vals line =
     (case py_partition CHR '':'' line of (key, _, rest0) \<Rightarrow>
        let rest = py_strip rest0 in
        if py_endswith rest ''kB''
        then (case py_int (py_strip (drop_right 2 rest)) of
                Inl e \<Rightarrow> vals
              | Inr n \<Rightarrow> vals(key \<mapsto> n * 1024))
        else vals)"

definition parse_meminfo :: "string \<Rightarrow> (int \<times> int) option" where
  "parse_meminfo meminfo_text =
     (let vals = foldl meminfo_line Map.empty (py_splitlines meminfo_text) in
      case vals ''MemTotal'' of
        None \<Rightarrow> None
      | Some mem_total \<Rightarrow>
          Some (mem_total, case vals ''MemAvailable'' of None \<Rightarrow> mem_total | Some a \<Rightarrow> a))"

text \<open>
  Two running totals and whether a row counted. A row whose second number does not parse has
  already added its first: the \<open>try\<close> covers both additions.
\<close>

type_synonym totals = "int \<times> int \<times> bool"

definition add_counters :: "totals \<Rightarrow> string \<Rightarrow> string \<Rightarrow> totals" where
  "add_counters acc a b =
     (case acc of (x, y, found) \<Rightarrow>
        case py_int a of
          Inl e \<Rightarrow> (x, y, found)
        | Inr i \<Rightarrow> (case py_int b of
            Inl e \<Rightarrow> (x + i, y, found)
          | Inr j \<Rightarrow> (x + i, y + j, True)))"

definition net_dev_line :: "totals \<Rightarrow> string \<Rightarrow> totals" where
  "net_dev_line acc line =
     (case py_partition CHR '':'' line of (iface0, sep, rest) \<Rightarrow>
        let iface = py_strip iface0; flds = py_split rest in
        if \<not> sep \<or> iface = ''lo'' \<or> iface = [] then acc
        else if length flds < 9 then acc
        else add_counters acc (flds ! 0) (flds ! 8))"

definition parse_net_dev :: "string \<Rightarrow> (int \<times> int) option" where
  "parse_net_dev netdev_text =
     (case foldl net_dev_line (0, 0, False) (py_splitlines netdev_text) of
        (rx, tx, found) \<Rightarrow> if found then Some (rx, tx) else None)"

text \<open>\<open>_PARTITION_RE\<close>: \<open>sda1\<close>, \<open>hda1\<close>, \<open>vda1\<close>, \<open>xvda1\<close> and \<open>nvme0n1p1\<close> names.\<close>

definition letters_then_digits :: "string \<Rightarrow> bool" where
  "letters_then_digits s \<longleftrightarrow>
     takeWhile is_lower_az s \<noteq> [] \<and> dropWhile is_lower_az s \<noteq> [] \<and>
     (\<forall>c\<in>set (dropWhile is_lower_az s). is_dec c)"

definition digits_prefix :: "string \<Rightarrow> (string \<times> string) option" where
  "digits_prefix s = (if takeWhile is_dec s = [] then None else Some (takeWhile is_dec s, dropWhile is_dec s))"

definition expect :: "string \<Rightarrow> string \<Rightarrow> string option" where
  "expect p s = (if py_startswith s p then Some (drop (length p) s) else None)"

definition is_partition :: "string \<Rightarrow> bool" where
  "is_partition name \<longleftrightarrow>
     (\<exists>p\<in>set [''sd'', ''hd'', ''vd'', ''xvd''].
        case expect p name of None \<Rightarrow> False | Some r \<Rightarrow> letters_then_digits r) \<or>
     (case expect ''nvme'' name of None \<Rightarrow> False | Some r1 \<Rightarrow>
        (case digits_prefix r1 of None \<Rightarrow> False | Some (_, r2) \<Rightarrow>
          (case expect ''n'' r2 of None \<Rightarrow> False | Some r3 \<Rightarrow>
            (case digits_prefix r3 of None \<Rightarrow> False | Some (_, r4) \<Rightarrow>
              (case expect ''p'' r4 of None \<Rightarrow> False | Some r5 \<Rightarrow> r5 \<noteq> [] \<and> (\<forall>c\<in>set r5. is_dec c))))))"

definition is_virtual_device :: "string \<Rightarrow> bool" where
  "is_virtual_device name \<longleftrightarrow> (\<exists>p\<in>set [''loop'', ''ram'', ''dm-'']. py_startswith name p)"

definition diskstats_line :: "totals \<Rightarrow> string \<Rightarrow> totals" where
  "diskstats_line acc line =
     (let flds = py_split line in
      if length flds < 10 then acc
      else if is_virtual_device (flds ! 2) \<or> is_partition (flds ! 2) then acc
      else add_counters acc (flds ! 5) (flds ! 9))"

definition parse_diskstats :: "string \<Rightarrow> (int \<times> int) option" where
  "parse_diskstats diskstats_text =
     (case foldl diskstats_line (0, 0, False) (py_splitlines diskstats_text) of
        (r, w, found) \<Rightarrow> if found then Some (r * 512, w * 512) else None)"

section \<open>The CPU percentage\<close>

record cpu_sample =
  cpu_at :: pyfloat
  cpu_total :: int
  cpu_idle :: int

definition cpu_percent :: "cpu_sample \<Rightarrow> cpu_sample \<Rightarrow> pyfloat option result" where
  "cpu_percent prev now =
     (let d_total = cpu_total now - cpu_total prev; d_idle = cpu_idle now - cpu_idle prev in
      if d_total \<le> 0 then Inr None
      else bind_r (int_truediv d_idle d_total) (\<lambda>q.
        Inr (Some (py_fmax (round_ratio 0 1) (fmul (round_ratio 100 1) (fsub (round_ratio 1 1) q))))))"

lemma rnd_between:
  assumes "of_int a \<le> x" and "x \<le> of_int b" and "\<bar>a\<bar> \<le> 2 ^ 53" and "\<bar>b\<bar> \<le> 2 ^ 53"
  shows "of_int a \<le> rnd x" and "rnd x \<le> of_int b"
  using rnd_mono [OF assms(1)] rnd_mono [OF assms(2)] rnd_of_int [OF assms(3)] rnd_of_int [OF assms(4)]
  by simp_all

lemma below_overflow: "\<bar>x\<bar> \<le> 100 \<Longrightarrow> \<bar>x :: real\<bar> < 2 powi 1023"
proof -
  assume "\<bar>x\<bar> \<le> 100"
  also have "(100::real) < 2 ^ 7" by simp
  also have "(2::real) ^ 7 \<le> 2 powi 1023" by (simp add: power_int_def)
  finally show ?thesis .
qed

lemma cpu_percent_value:
  assumes "0 \<le> cpu_idle now - cpu_idle prev" and "cpu_idle now - cpu_idle prev \<le> cpu_total now - cpu_total prev"
    and "0 < cpu_total now - cpu_total prev"
  shows "\<exists>f. cpu_percent prev now = Inr (Some f) \<and> is_finite f \<and>
    fval f = rnd (100 * rnd (1 - rnd (of_int (cpu_idle now - cpu_idle prev) / of_int (cpu_total now - cpu_total prev)))) \<and>
    0 \<le> fval f \<and> fval f \<le> 100"
proof -
  let ?di = "cpu_idle now - cpu_idle prev" and ?dt = "cpu_total now - cpu_total prev"
  let ?x = "real_of_int ?di / of_int ?dt"
  have x: "of_int 0 \<le> ?x" "?x \<le> of_int 1" using assms by (auto simp: divide_le_eq)
  define x where "x = ?x"
  have x': "0 \<le> x" "x \<le> 1" using x unfolding x_def by simp_all
  then have "\<bar>x\<bar> < 2 powi 1023" using below_overflow [of x] by linarith
  moreover have "\<bar>real_of_int (?di * sgn ?dt)\<bar> / of_int \<bar>?dt\<bar> = x"
    using assms by (simp add: x_def)
  ultimately have "\<bar>real_of_int (?di * sgn ?dt)\<bar> / of_int \<bar>?dt\<bar> < 2 powi 1023" using x' by simp
  then have fin: "is_finite (round_ratio (?di * sgn ?dt) \<bar>?dt\<bar>)"
    using assms(3) by (intro round_ratio_finite) auto
  then obtain q where q: "int_truediv ?di ?dt = Inr q" using assms(3) by (auto simp: int_truediv_def Let_def)
  note qv = int_truediv_val [OF q]
  have q01: "0 \<le> fval q" "fval q \<le> 1" using rnd_between [OF x] qv(2) by simp_all
  note one = round_ratio_of_int [of 1, simplified] and hun = round_ratio_of_int [of 100, simplified]
    and zero = round_ratio_of_int [of 0]
  let ?s = "fsub (round_ratio 1 1) q"
  have fs: "is_finite ?s" unfolding fsub_def
    using one qv(1) q01 by (intro fadd_finite below_overflow) auto
  then have sv: "fval ?s = rnd (1 - fval q)" using fsub_val [of "round_ratio 1 1" q] one qv(1) by simp
  have s01: "0 \<le> fval ?s" "fval ?s \<le> 1" using rnd_between [of 0 "1 - fval q" 1] q01 sv by simp_all
  let ?p = "fmul (round_ratio 100 1) ?s"
  have fp: "is_finite ?p" using hun fs s01 by (intro fmul_finite below_overflow) auto
  then have pv: "fval ?p = rnd (100 * fval ?s)" using fmul_val [of "round_ratio 100 1" ?s] hun fs by simp
  have p01: "0 \<le> fval ?p" "fval ?p \<le> 100" using rnd_between [of 0 "100 * fval ?s" 100] s01 pv by simp_all
  let ?m = "py_fmax (round_ratio 0 1) ?p"
  have m: "is_finite ?m \<and> fval ?m = fval ?p"
  proof (cases "fless (round_ratio 0 1) ?p")
    case True
    then show ?thesis using fp by (simp add: py_fmax_def)
  next
    case False
    have z: "is_finite (round_ratio 0 1)" "fval (round_ratio 0 1) = 0" using zero by simp_all
    then have "fval ?p = 0" using False fless_val [OF z(1) fp] p01 by simp
    then show ?thesis using False z by (simp add: py_fmax_def)
  qed
  have "cpu_percent prev now = Inr (Some ?m)"
    using assms(3) q by (simp add: cpu_percent_def Let_def)
  then show ?thesis using m p01 pv sv qv(2) by (intro exI [of _ ?m]) simp
qed

text \<open>The clamped percentage, on either side of an idle time that fell or outgrew the total.\<close>

lemma cpu_percent_clamped:
  assumes "cpu_percent prev now = Inr (Some f)"
  defines "dt \<equiv> cpu_total now - cpu_total prev" and "di \<equiv> cpu_idle now - cpu_idle prev"
  shows "0 < dt" and "\<not> fless f (round_ratio 0 1)"
    and "dt \<le> di \<Longrightarrow> is_finite f \<and> fval f = 0 \<and> rnd (100 * rnd (1 - rnd (of_int di / of_int dt))) \<le> 0"
    and "di < 0 \<Longrightarrow> at_least f 100"
proof -
  show dt: "0 < dt" using assms(1) by (simp add: cpu_percent_def Let_def dt_def split: if_splits)
  obtain q where q: "int_truediv di dt = Inr q"
    and f: "f = py_fmax (round_ratio 0 1) (fmul (round_ratio 100 1) (fsub (round_ratio 1 1) q))"
    using assms(1) dt by (auto simp: cpu_percent_def Let_def bind_r_eq_Inr dt_def di_def split: if_splits)
  show "\<not> fless f (round_ratio 0 1)" unfolding f by (rule py_fmax_ge)
  let ?s = "fsub (round_ratio 1 1) q" and ?hun = "round_ratio 100 1"
  note qv = int_truediv_val [OF q]
  note one = round_ratio_of_int [of 1, simplified] and hun = round_ratio_of_int [of 100, simplified]
  have zero: "is_finite (round_ratio 0 1)" "fval (round_ratio 0 1) = 0" by simp_all
  show "is_finite f \<and> fval f = 0 \<and> rnd (100 * rnd (1 - rnd (of_int di / of_int dt))) \<le> 0" if "dt \<le> di"
  proof -
    have "of_int 1 \<le> real_of_int di / of_int dt" using that dt by (simp add: le_divide_eq)
    from rnd_mono [OF this] have q1: "1 \<le> fval q" using rnd_of_int [of 1] qv(2) by simp
    then have "at_most ?s 0" using fsub_bound(1) [OF one(1) qv(1), of 0] one(2) by simp
    moreover have "at_most (fmul ?hun ?s) 0" if "is_finite ?s" "fval ?s \<le> 0"
      using fmul_bound(1) [OF hun(1) that(1), of 0] that(2) hun(2) by simp
    moreover have "fmul ?hun NInf = NInf"
      using fmul_infinite [OF hun(1)] hun(2) by simp
    ultimately have p: "at_most (fmul ?hun ?s) 0" by (auto simp: at_most_def)
    have "\<not> fless (round_ratio 0 1) (fmul ?hun ?s)"
      by (rule fless_zero(1) [OF p])
    then have "f = round_ratio 0 1" unfolding f by (simp add: py_fmax_def)
    moreover have "rnd (100 * rnd (1 - fval q)) \<le> 0"
      using rnd_mono [of "1 - fval q" 0] rnd_mono [of "100 * rnd (1 - fval q)" 0] q1 by simp
    ultimately show ?thesis using zero qv(2) by simp
  qed
  show "at_least f 100" if "di < 0"
  proof -
    have "real_of_int di / of_int dt \<le> 0" using that dt by (simp add: divide_nonpos_pos)
    from rnd_mono [OF this] have "fval q \<le> 0" using qv(2) by simp
    then have "at_least ?s 1" using fsub_bound(2) [OF one(1) qv(1), of 1] one(2) by simp
    moreover have "at_least (fmul ?hun ?s) 100" if "is_finite ?s" "1 \<le> fval ?s"
      using fmul_bound(2) [OF hun(1) that(1), of 100] that(2) hun(2) by simp
    moreover have "fmul ?hun PInf = PInf"
      using fmul_infinite [OF hun(1)] hun(2) by simp
    ultimately have p: "at_least (fmul ?hun ?s) 100" by (auto simp: at_least_def)
    then have "fless (round_ratio 0 1) (fmul ?hun ?s)"
      by (rule fless_zero(2)) simp
    then show ?thesis using p unfolding f by (simp add: py_fmax_def)
  qed
qed

section \<open>The split undoes the script\<close>

text \<open>What the script prints: every file after its marker, each line ended by a newline.\<close>

definition script_lines :: "string list \<Rightarrow> string list \<Rightarrow> string list \<Rightarrow> string list \<Rightarrow> string list" where
  "script_lines stat mem net disk =
     MARKER_STAT # stat @ MARKER_MEMINFO # mem @ MARKER_NETDEV # net @ MARKER_DISKSTATS # disk"

definition file_lines :: "string list \<Rightarrow> bool" where
  "file_lines ls \<longleftrightarrow> (\<forall>l\<in>set ls. l \<noteq> [] \<and> l \<notin> set markers \<and> (\<forall>c\<in>set l. \<not> is_linebreak c))"

lemma markers_distinct [simp]:
  "MARKER_STAT \<noteq> MARKER_MEMINFO" "MARKER_STAT \<noteq> MARKER_NETDEV" "MARKER_STAT \<noteq> MARKER_DISKSTATS"
  "MARKER_MEMINFO \<noteq> MARKER_STAT" "MARKER_NETDEV \<noteq> MARKER_STAT" "MARKER_DISKSTATS \<noteq> MARKER_STAT"
  "MARKER_MEMINFO \<noteq> MARKER_NETDEV" "MARKER_MEMINFO \<noteq> MARKER_DISKSTATS" "MARKER_NETDEV \<noteq> MARKER_MEMINFO"
  "MARKER_DISKSTATS \<noteq> MARKER_MEMINFO" "MARKER_NETDEV \<noteq> MARKER_DISKSTATS" "MARKER_DISKSTATS \<noteq> MARKER_NETDEV"
  by (simp_all add: marker_defs)

lemma set_section_new: "k \<notin> fst ` set secs \<Longrightarrow> set_section secs k v = secs @ [(k, v)]"
  by (induction secs k v rule: set_section.induct) auto

lemma append_section_last: "k \<notin> fst ` set secs \<Longrightarrow> append_section (secs @ [(k, v)]) k l = secs @ [(k, v @ [l])]"
  by (induction secs k l rule: append_section.induct) auto

lemma split_lines_file:
  assumes "k \<notin> fst ` set secs" and "\<forall>l\<in>set ls. l \<notin> set markers"
  shows "split_lines (secs @ [(k, v)]) (Some k) (ls @ rest) = split_lines (secs @ [(k, v @ ls)]) (Some k) rest"
  using assms(2)
proof (induction ls arbitrary: v)
  case (Cons l ls)
  then show ?case using append_section_last [OF assms(1), of v l] by simp
qed simp

lemma split_lines_marker:
  "k \<in> set markers \<Longrightarrow> k \<notin> fst ` set secs \<Longrightarrow>
   split_lines secs cur (k # rest) = split_lines (secs @ [(k, [])]) (Some k) rest"
  by (simp add: set_section_new)

lemma split_script_lines:
  assumes "file_lines stat" and "file_lines mem" and "file_lines net" and "file_lines disk"
  shows "split_lines [] None (script_lines stat mem net disk) =
    [(MARKER_STAT, stat), (MARKER_MEMINFO, mem), (MARKER_NETDEV, net), (MARKER_DISKSTATS, disk)]"
proof -
  have m: "MARKER_STAT \<in> set markers" "MARKER_MEMINFO \<in> set markers" "MARKER_NETDEV \<in> set markers"
    "MARKER_DISKSTATS \<in> set markers"
    by (simp_all add: markers_def)
  note part = split_lines_file [where v = "[]", simplified]
  have "split_lines [] None (script_lines stat mem net disk) =
      split_lines ([] @ [(MARKER_STAT, stat)]) (Some MARKER_STAT) (MARKER_MEMINFO # mem @ MARKER_NETDEV # net @ MARKER_DISKSTATS # disk)"
    using assms(1) m part [of MARKER_STAT "[]" stat] split_lines_marker [of MARKER_STAT "[]" None]
    by (simp add: script_lines_def file_lines_def del: split_lines.simps)
  also have "\<dots> = split_lines ([(MARKER_STAT, stat)] @ [(MARKER_MEMINFO, mem)]) (Some MARKER_MEMINFO)
      (MARKER_NETDEV # net @ MARKER_DISKSTATS # disk)"
    using assms(2) m part [of MARKER_MEMINFO "[(MARKER_STAT, stat)]" mem]
      split_lines_marker [of MARKER_MEMINFO "[(MARKER_STAT, stat)]"]
    by (simp add: file_lines_def del: split_lines.simps)
  also have "\<dots> = split_lines ([(MARKER_STAT, stat), (MARKER_MEMINFO, mem)] @ [(MARKER_NETDEV, net)])
      (Some MARKER_NETDEV) (MARKER_DISKSTATS # disk)"
    using assms(3) m part [of MARKER_NETDEV "[(MARKER_STAT, stat), (MARKER_MEMINFO, mem)]" net]
      split_lines_marker [of MARKER_NETDEV "[(MARKER_STAT, stat), (MARKER_MEMINFO, mem)]"]
    by (simp add: file_lines_def del: split_lines.simps)
  also have "\<dots> = [(MARKER_STAT, stat), (MARKER_MEMINFO, mem), (MARKER_NETDEV, net), (MARKER_DISKSTATS, disk)]"
    using assms(4) m part [of MARKER_DISKSTATS "[(MARKER_STAT, stat), (MARKER_MEMINFO, mem), (MARKER_NETDEV, net)]" disk "[]"]
      split_lines_marker [of MARKER_DISKSTATS "[(MARKER_STAT, stat), (MARKER_MEMINFO, mem), (MARKER_NETDEV, net)]"]
    by (simp add: file_lines_def del: split_lines.simps(2))
  finally show ?thesis .
qed


lemma section_text_lines:
  assumes "file_lines ls"
  shows "py_splitlines (join_nl ls) = ls"
proof (cases "ls = []")
  case False
  then have "last ls \<noteq> []" using assms by (simp add: file_lines_def)
  then show ?thesis using assms False by (intro splitlines_join_nl) (auto simp: file_lines_def)
qed (simp add: py_splitlines_def)

section \<open>The counters are sums over the rows\<close>

text \<open>The two number texts of a row that takes part in the totals.\<close>

definition net_row :: "string \<Rightarrow> (string \<times> string) option" where
  "net_row line =
     (case py_partition CHR '':'' line of (iface0, sep, rest) \<Rightarrow>
        if \<not> sep \<or> py_strip iface0 = ''lo'' \<or> py_strip iface0 = [] \<or> length (py_split rest) < 9 then None
        else Some (py_split rest ! 0, py_split rest ! 8))"

definition disk_row :: "string \<Rightarrow> (string \<times> string) option" where
  "disk_row line =
     (let flds = py_split line in
      if length flds < 10 \<or> is_virtual_device (flds ! 2) \<or> is_partition (flds ! 2) then None
      else Some (flds ! 5, flds ! 9))"

definition int_value :: "string \<Rightarrow> int option" where
  "int_value s = (case py_int s of Inl e \<Rightarrow> None | Inr n \<Rightarrow> Some n)"

definition first_counter :: "string \<times> string \<Rightarrow> int option" where
  "first_counter row = int_value (fst row)"

definition second_counter :: "string \<times> string \<Rightarrow> int option" where
  "second_counter row = (if int_value (fst row) = None then None else int_value (snd row))"

lemma net_dev_line_row: "net_dev_line acc line =
    (case net_row line of None \<Rightarrow> acc | Some (a, b) \<Rightarrow> add_counters acc a b)"
  by (simp add: net_dev_line_def net_row_def Let_def split: prod.splits)

lemma diskstats_line_row: "diskstats_line acc line =
    (case disk_row line of None \<Rightarrow> acc | Some (a, b) \<Rightarrow> add_counters acc a b)"
  by (simp add: diskstats_line_def disk_row_def Let_def)

lemma add_counters_row:
  "add_counters (x, y, found) a b =
     (x + (case first_counter (a, b) of None \<Rightarrow> 0 | Some i \<Rightarrow> i),
      y + (case second_counter (a, b) of None \<Rightarrow> 0 | Some j \<Rightarrow> j),
      found \<or> second_counter (a, b) \<noteq> None)"
  by (auto simp: add_counters_def first_counter_def second_counter_def int_value_def split: sum.splits)

lemma totals_fold:
  assumes "\<And>acc line. step acc line = (case row line of None \<Rightarrow> acc | Some (a, b) \<Rightarrow> add_counters acc a b)"
  shows "foldl step (x, y, found) ls =
    (let rows = List.map_filter row ls in
     (x + sum_list (List.map_filter first_counter rows), y + sum_list (List.map_filter second_counter rows),
      found \<or> List.map_filter second_counter rows \<noteq> []))"
proof (induction ls arbitrary: x y found)
  case Nil
  show ?case by (simp add: List.map_filter_def)
next
  case (Cons l ls)
  show ?case
  proof (cases "row l")
    case None
    then show ?thesis using Cons.IH assms by (simp add: map_filter_Cons)
  next
    case (Some ab)
    obtain a b where ab: "ab = (a, b)" by (cases ab)
    show ?thesis
      using Cons.IH Some ab assms add_counters_row [of x y found a b]
      by (simp add: map_filter_Cons Let_def algebra_simps split: option.splits)
  qed
qed

definition row_totals :: "(string \<times> string) list \<Rightarrow> (int \<times> int) option" where
  "row_totals rows =
     (if List.map_filter second_counter rows = [] then None
      else Some (sum_list (List.map_filter first_counter rows), sum_list (List.map_filter second_counter rows)))"

lemma parse_net_dev_rows: "parse_net_dev t = row_totals (List.map_filter net_row (py_splitlines t))"
  unfolding parse_net_dev_def totals_fold [of net_dev_line net_row, OF net_dev_line_row] row_totals_def Let_def
  by simp

lemma parse_diskstats_rows: "parse_diskstats t =
    map_option (\<lambda>(r, w). (r * 512, w * 512)) (row_totals (List.map_filter disk_row (py_splitlines t)))"
  unfolding parse_diskstats_def totals_fold [of diskstats_line disk_row, OF diskstats_line_row] row_totals_def Let_def
  by simp


text \<open>The \<open>cpu\<close> line of \<^verbatim>\<open>/proc/stat\<close> as the kernel prints it.\<close>

definition cpu_line :: "nat list \<Rightarrow> string" where
  "cpu_line ns = ''cpu  '' @ join_with '' '' (map show_nat ns)"

lemma py_split_cpu_line: "py_split (cpu_line ns) = ''cpu'' # map show_nat ns"
proof -
  have "\<forall>w\<in>set (map show_nat ns). w \<noteq> [] \<and> (\<forall>c\<in>set w. \<not> is_space c)"
    using show_nat_digits is_dec_not_space by auto
  then show ?thesis using py_split_join [of "map show_nat ns"]
    by (simp add: cpu_line_def py_split_def is_space_def)
qed

lemma show_nat_isdigit: "py_isdigit (show_nat n)"
  using show_nat_digits by (auto simp: py_isdigit_def)

lemma map_r_show_nat:
  assumes "\<forall>n\<in>set ns. length (show_nat n) \<le> 4300"
  shows "map_r py_int (map show_nat ns) = Inr (map int ns)"
proof -
  have "py_int (show_nat n) = Inr (int n)" if "n \<in> set ns" for n
    using py_int_digits [of "show_nat n"] show_nat_digits assms that by (auto simp: decimal_val_show_nat)
  then show ?thesis by (induction ns) auto
qed

section \<open>Properties\<close>

text \<open>
  The sections the code reads back are the files the script printed: whatever their
  lines, as long as none is empty or is itself a marker, each parser gets exactly the lines of
  its own file.
\<close>

lemma proc_output_read_back:
  assumes "file_lines stat" and "file_lines mem" and "file_lines net" and "file_lines disk"
  defines "secs \<equiv> split_proc_sections (print_lines (script_lines stat mem net disk))"
  shows "py_splitlines (section_text secs MARKER_STAT) = stat \<and>
    py_splitlines (section_text secs MARKER_MEMINFO) = mem \<and>
    py_splitlines (section_text secs MARKER_NETDEV) = net \<and>
    py_splitlines (section_text secs MARKER_DISKSTATS) = disk"
proof -
  have "\<forall>l\<in>set (script_lines stat mem net disk). \<forall>c\<in>set l. \<not> is_linebreak c"
  proof -
    have "\<forall>m\<in>set markers. \<forall>c\<in>set m. \<not> is_linebreak c" by code_simp
    then show ?thesis using assms(1-4) by (auto simp: script_lines_def file_lines_def markers_def)
  qed
  then have "secs = [(MARKER_STAT, join_nl stat), (MARKER_MEMINFO, join_nl mem),
      (MARKER_NETDEV, join_nl net), (MARKER_DISKSTATS, join_nl disk)]"
    unfolding secs_def split_proc_sections_def
    using split_script_lines [OF assms(1-4)] by (simp add: splitlines_print_lines)
  then show ?thesis using assms(1-4) [THEN section_text_lines] by (simp add: section_text_def)
qed

lemma proc_output_read_back_example:
  "py_splitlines (section_text (split_proc_sections (print_lines
     (script_lines [''cpu  1 2 3 4''] [''MemTotal: 5 kB''] [''Inter-|'', ''eth0: 1''] []))) MARKER_NETDEV) =
   [''Inter-|'', ''eth0: 1'']"
proof -
  have "file_lines [''cpu  1 2 3 4'']" "file_lines [''MemTotal: 5 kB'']" "file_lines [''Inter-|'', ''eth0: 1'']"
    "file_lines []"
    by code_simp+
  from proc_output_read_back [OF this] show ?thesis by blast
qed

text \<open>
  The total CPU time is the sum of all the fields of the \<open>cpu\<close> line and the idle time its
  fourth field plus, when there is one, the fifth (iowait).
\<close>

lemma cpu_line_totals:
  assumes "4 \<le> length ns" and "\<forall>n\<in>set ns. length (show_nat n) \<le> 4300"
  shows "parse_cpu_lines (cpu_line ns # lines) =
    Inr (Some (int (sum_list ns), int (ns ! 3) + (if 4 < length ns then int (ns ! 4) else 0)))"
proof -
  have "py_startswith (cpu_line ns) ''cpu ''" by (simp add: cpu_line_def py_startswith_def)
  moreover have "filter py_isdigit (map show_nat ns) = map show_nat ns"
    using show_nat_isdigit by (simp add: filter_id_conv)
  moreover have "sum_list (map int ns) = int (sum_list ns)" by (induction ns) simp_all
  ultimately show ?thesis using assms map_r_show_nat [OF assms(2)] by (simp add: py_split_cpu_line)
qed

lemma cpu_line_totals_example:
  "parse_cpu_lines [cpu_line [10, 20, 30, 40, 5]] = Inr (Some (105, 45))"
proof -
  have "\<forall>n\<in>set [10, 20, 30, 40, 5]. length (show_nat n) \<le> 4300" by code_simp
  from cpu_line_totals [OF _ this] show ?thesis by simp
qed

text \<open>
  C25. \<open>cpu_pct\<close> between any two samples: absent exactly when the total did not grow;
  \<open>OverflowError\<close> only for an idle share beyond the range of floats; otherwise never below 0.
  When idle time did not fall it is a finite number from 0 to 100, namely 100 minus the rounded
  idle share in percent or 0 if that is less, whatever the counters' sizes: exactly 100 when
  nothing was idle, and exactly 0 when idle time grew by as much as the total or more. When idle
  time fell it is at least 100.
\<close>

theorem cpu_percent_in_range:
  "let dt = cpu_total now - cpu_total prev; di = cpu_idle now - cpu_idle prev in
   (cpu_percent prev now = Inr None \<longleftrightarrow> dt \<le> 0) \<and>
   (\<forall>e. cpu_percent prev now = Inl e \<longrightarrow> e = OverflowError \<and> 2 powi 1023 \<le> \<bar>real_of_int di / of_int dt\<bar>) \<and>
   (\<forall>f. cpu_percent prev now = Inr (Some f) \<longrightarrow> \<not> fless f (round_ratio 0 1) \<and>
      (0 \<le> di \<longrightarrow> is_finite f \<and> 0 \<le> fval f \<and> fval f \<le> 100 \<and>
        fval f = max 0 (rnd (100 * rnd (1 - rnd (of_int di / of_int dt)))) \<and>
        (di = 0 \<longrightarrow> fval f = 100) \<and> (dt \<le> di \<longrightarrow> fval f = 0)) \<and>
      (di < 0 \<longrightarrow> f = PInf \<or> is_finite f \<and> 100 \<le> fval f))"
proof -
  let ?dt = "cpu_total now - cpu_total prev" and ?di = "cpu_idle now - cpu_idle prev"
  have none: "cpu_percent prev now = Inr None \<longleftrightarrow> ?dt \<le> 0"
    by (auto simp: cpu_percent_def Let_def bind_r_eq_Inr)
  have err: "e = OverflowError \<and> 2 powi 1023 \<le> \<bar>real_of_int ?di / of_int ?dt\<bar>" if "cpu_percent prev now = Inl e" for e
  proof -
    have "int_truediv ?di ?dt = Inl e" and dt: "0 < ?dt"
      using that by (auto simp: cpu_percent_def Let_def bind_r_eq_Inl split: if_splits)
    then have "e = OverflowError" "\<not> is_finite (round_ratio ?di ?dt)"
      by (auto simp: int_truediv_def Let_def split: if_splits)
    moreover have "\<bar>real_of_int ?di / of_int ?dt\<bar> = \<bar>real_of_int ?di\<bar> / of_int ?dt" using dt by (simp del: of_int_diff)
    ultimately show ?thesis using round_ratio_finite [OF dt, of ?di] by (metis not_less)
  qed
  have pos: "is_finite f \<and> 0 \<le> fval f \<and> fval f \<le> 100 \<and>
        fval f = max 0 (rnd (100 * rnd (1 - rnd (of_int ?di / of_int ?dt)))) \<and>
        (?di = 0 \<longrightarrow> fval f = 100) \<and> (?dt \<le> ?di \<longrightarrow> fval f = 0)"
    if f: "cpu_percent prev now = Inr (Some f)" and di: "0 \<le> ?di" for f
  proof (cases "?dt \<le> ?di")
    case True
    then show ?thesis using cpu_percent_clamped(1,3) [OF f] by (simp del: of_int_diff)
  next
    case False
    then have "?di \<le> ?dt" "0 < ?dt" using cpu_percent_clamped(1) [OF f] by simp_all
    from cpu_percent_value [OF di this] f have v: "is_finite f"
      "fval f = rnd (100 * rnd (1 - rnd (of_int ?di / of_int ?dt)))" "0 \<le> fval f" "fval f \<le> 100" by auto
    moreover have "rnd 100 = 100" "rnd 1 = 1" using rnd_of_int [of 100] rnd_of_int [of 1] by simp_all
    then have "?di = 0 \<longrightarrow> fval f = 100" unfolding v(2) by (simp del: of_int_diff)
    ultimately show ?thesis using False by (simp del: of_int_diff)
  qed
  show ?thesis unfolding Let_def
    using none err pos cpu_percent_clamped(2,4) by (auto simp: at_least_def simp del: of_int_diff)
qed

theorem cpu_percent_in_range_witness:
  "let s = (\<lambda>total idle. \<lparr>cpu_at = Fin 0 0, cpu_total = total, cpu_idle = idle\<rparr>)
   in \<exists>f g. cpu_percent (s 100 40) (s 300 340) = Inr (Some f) \<and> fval f = 0 \<and>
        cpu_percent (s 100 40) (s 300 39) = Inr (Some g) \<and> (g = PInf \<or> 100 \<le> fval g)"
proof -
  let ?s = "\<lambda>total idle. \<lparr>cpu_at = Fin 0 0, cpu_total = total, cpu_idle = idle\<rparr>"
  have big: "\<not> 2 powi 1023 \<le> \<bar>x\<bar>" if "\<bar>x\<bar> \<le> 100" for x :: real
    using below_overflow [OF that] by linarith
  note th = cpu_percent_in_range [of "?s 300 340" "?s 100 40"] cpu_percent_in_range [of "?s 300 39" "?s 100 40"]
  obtain f where "cpu_percent (?s 100 40) (?s 300 340) = Inr (Some f)"
    using th(1) big [of "300 / 200"] by (cases "cpu_percent (?s 100 40) (?s 300 340)") (auto simp: Let_def)
  moreover obtain g where "cpu_percent (?s 100 40) (?s 300 39) = Inr (Some g)"
    using th(2) big [of "-1 / 200"] by (cases "cpu_percent (?s 100 40) (?s 300 39)") (auto simp: Let_def)
  ultimately show ?thesis using th unfolding Let_def by (intro exI [of _ f] exI [of _ g]) auto
qed

text \<open>
  C34. The network totals are sums over the interface rows other than loopback with at least
  nine fields, absent when no such row has two readable counters; but a row whose transmit
  counter cannot be read still adds its receive counter, since the two additions share one
  \<open>try\<close>. The disk totals are the same over whole devices, in bytes of 512-byte sectors.
\<close>

theorem proc_counter_totals:
  "parse_net_dev t = row_totals (List.map_filter net_row (py_splitlines t)) \<and>
   parse_diskstats t = map_option (\<lambda>(r, w). (r * 512, w * 512))
     (row_totals (List.map_filter disk_row (py_splitlines t)))"
  using parse_net_dev_rows parse_diskstats_rows by simp

end
