(* ===== verification/Config.thy ===== *)
theory Config
  imports Py_Floats Transport
begin

text \<open>
  \<^verbatim>\<open>log_sump_common/config.py\<close>: the settings classes with their defaults, the three helpers
  that derive a value from others, and the priority of the sources a setting is read from.
  pydantic's own parsing of a source is not modelled; \<open>settings_value\<close> states its documented
  rule, the first source of the tuple that provides a field wins.
\<close>

datatype transport_kind = Ssh | Local

record daemon_config =
  dc_id :: string
  dc_host :: string
  dc_user :: string
  dc_transport :: transport_kind
  dc_ssh_options :: "string list"
  dc_enabled :: bool

definition daemon_defaults :: "string \<Rightarrow> string \<Rightarrow> daemon_config" where
  "daemon_defaults i host = \<lparr>dc_id = i, dc_host = host, dc_user = ''root'', dc_transport = Ssh,
     dc_ssh_options = [], dc_enabled = True\<rparr>"

record listener_config =
  listing_interval_s :: pyfloat
  tracker_interval_s :: pyfloat
  missing_threshold_cycles :: int
  stats_interval_s :: pyfloat
  system_stats_interval_s :: "pyfloat option"
  max_concurrent_listener_spawns :: int

definition listener_defaults :: listener_config where
  "listener_defaults = \<lparr>listing_interval_s = Fin 5 0, tracker_interval_s = Fin 10 0,
     missing_threshold_cycles = 3, stats_interval_s = Fin 15 0, system_stats_interval_s = None,
     max_concurrent_listener_spawns = 10\<rparr>"

text \<open>Python's truth of a float: every float but a zero.\<close>

definition float_truthy :: "pyfloat \<Rightarrow> bool" where
  "float_truthy f = (case f of Fin m e \<Rightarrow> m \<noteq> 0 | _ \<Rightarrow> True)"

definition effective_system_stats_interval_s :: "listener_config \<Rightarrow> pyfloat" where
  "effective_system_stats_interval_s c =
     (case system_stats_interval_s c of
        None \<Rightarrow> stats_interval_s c
      | Some f \<Rightarrow> if float_truthy f then f else stats_interval_s c)"

datatype metrics_source = PROC | CONTAINER_AGGREGATE | NO_SOURCE

record metrics_config =
  mc_enabled :: bool
  system_enabled :: bool
  cpu_enabled :: bool
  memory_enabled :: bool
  disk_enabled :: bool
  network_enabled :: bool
  system_metrics_source :: metrics_source

definition metrics_defaults :: metrics_config where
  "metrics_defaults = \<lparr>mc_enabled = True, system_enabled = True, cpu_enabled = True,
     memory_enabled = True, disk_enabled = True, network_enabled = True, system_metrics_source = PROC\<rparr>"

record retention_config =
  retention_days :: int
  metrics_retention_days :: "int option"
  trim_interval_seconds :: pyfloat

definition retention_defaults :: retention_config where
  "retention_defaults = \<lparr>retention_days = 7, metrics_retention_days = None, trim_interval_seconds = Fin 300 0\<rparr>"

definition effective_metrics_retention_days :: "retention_config \<Rightarrow> int" where
  "effective_metrics_retention_days c =
     (case metrics_retention_days c of Some d \<Rightarrow> d | None \<Rightarrow> retention_days c)"

record logstash_config =
  ls_host :: string
  ls_port :: int
  database_path :: string

definition logstash_defaults :: logstash_config where
  "logstash_defaults = \<lparr>ls_host = ''127.0.0.1'', ls_port = 5959,
     database_path = ''/data/logstash-async-buffer.db''\<rparr>"

record redis_config =
  redis_url :: string

definition redis_defaults :: redis_config where
  "redis_defaults = \<lparr>redis_url = ''redis://127.0.0.1:6379/0''\<rparr>"

record server_config =
  bind_host :: string
  bind_port :: int
  page_size_default :: int
  page_size_max :: int

definition server_defaults :: server_config where
  "server_defaults = \<lparr>bind_host = ''0.0.0.0'', bind_port = 8080, page_size_default = 200, page_size_max = 1000\<rparr>"

record settings =
  st_daemons :: "daemon_config list"
  st_listener :: listener_config
  st_metrics :: metrics_config
  st_retention :: retention_config
  st_logstash :: logstash_config
  st_redis :: redis_config
  st_server :: server_config

definition default_settings :: settings where
  "default_settings = \<lparr>st_daemons = [], st_listener = listener_defaults, st_metrics = metrics_defaults,
     st_retention = retention_defaults, st_logstash = logstash_defaults, st_redis = redis_defaults,
     st_server = server_defaults\<rparr>"

definition enabled_daemons :: "settings \<Rightarrow> daemon_config list" where
  "enabled_daemons s = filter dc_enabled (st_daemons s)"

section \<open>Sources\<close>

datatype settings_source = InitSource | EnvSource | DotenvSource | YamlSource string | FileSecretSource

text \<open>\<open>settings_customise_sources\<close>: the environment variable and \<open>Path.is_file\<close> are its inputs.\<close>

definition settings_sources :: "string option \<Rightarrow> (string \<Rightarrow> bool) \<Rightarrow> settings_source list" where
  "settings_sources config_file is_file =
     [InitSource, EnvSource, DotenvSource] @
     (case config_file of None \<Rightarrow> [] | Some p \<Rightarrow> if p \<noteq> [] \<and> is_file p then [YamlSource p] else []) @
     [FileSecretSource]"

fun settings_value :: "settings_source list \<Rightarrow> (settings_source \<Rightarrow> 'f \<Rightarrow> 'v option) \<Rightarrow> 'v \<Rightarrow> 'f \<Rightarrow> 'v" where
  "settings_value [] provides dflt f = dflt"
| "settings_value (src # srcs) provides dflt f =
     (case provides src f of Some v \<Rightarrow> v | None \<Rightarrow> settings_value srcs provides dflt f)"

text \<open>\<open>load_settings\<close>: \<open>Settings()\<close> without arguments, so the first source provides nothing.\<close>

definition load_setting :: "string option \<Rightarrow> (string \<Rightarrow> bool) \<Rightarrow> (settings_source \<Rightarrow> 'f \<Rightarrow> 'v option) \<Rightarrow> 'v \<Rightarrow> 'f \<Rightarrow> 'v" where
  "load_setting config_file is_file provides dflt f =
     settings_value (settings_sources config_file is_file) (\<lambda>src. if src = InitSource then (\<lambda>f. None) else provides src) dflt f"

text \<open>\<open>model_config\<close>: the environment variable of a field, given the path of field names to it.\<close>

fun nested_name :: "string list \<Rightarrow> string" where
  "nested_name [] = []"
| "nested_name [f] = f"
| "nested_name (f # g # fs) = f @ ''__'' @ nested_name (g # fs)"

definition env_variable :: "string list \<Rightarrow> string" where
  "env_variable path = ''LOG_SUMP_'' @ nested_name path"

section \<open>The transport of a daemon\<close>

text \<open>\<open>build_transport\<close> of \<^verbatim>\<open>log_sump_listener/app.py\<close>.\<close>

definition build_transport :: "daemon_config \<Rightarrow> transport" where
  "build_transport d =
     (case dc_transport d of
        Local \<Rightarrow> LocalTransport
      | Ssh \<Rightarrow> SSHTransport (dc_host d) (dc_user d) (dc_ssh_options d))"

lemma enabled_daemons_set: "d \<in> set (enabled_daemons s) \<longleftrightarrow> d \<in> set (st_daemons s) \<and> dc_enabled d"
  by (auto simp: enabled_daemons_def)

section \<open>Properties\<close>

text \<open>
  A field set in the environment is never overridden by the YAML file, a field set in
  neither takes the file secret or the default, and the file counts only when
  \<^verbatim>\<open>LOG_SUMP_CONFIG_FILE\<close> names an existing file.
\<close>

lemma environment_overrides_yaml:
  "settings_value (settings_sources config_file is_file) provides dflt f =
   (case provides InitSource f of Some v \<Rightarrow> v | None \<Rightarrow>
     (case provides EnvSource f of Some v \<Rightarrow> v | None \<Rightarrow>
       (case provides DotenvSource f of Some v \<Rightarrow> v | None \<Rightarrow>
         (case (case config_file of None \<Rightarrow> None
                | Some p \<Rightarrow> if p \<noteq> [] \<and> is_file p then provides (YamlSource p) f else None) of
            Some v \<Rightarrow> v
          | None \<Rightarrow> (case provides FileSecretSource f of Some v \<Rightarrow> v | None \<Rightarrow> dflt)))))"
  by (auto simp: settings_sources_def split: option.splits)

text \<open>
  An explicit system-stats interval of zero is not used: the helper falls back to
  \<open>stats_interval_s\<close> although the field is set, unlike the retention helper, which takes an
  explicit zero; the comment says the fallback is for an unset field.
\<close>

lemma explicit_zero_interval_falls_back:
  "effective_system_stats_interval_s (c\<lparr>system_stats_interval_s := Some (Fin 0 e)\<rparr>) = stats_interval_s c \<and>
   effective_system_stats_interval_s (c\<lparr>system_stats_interval_s := None\<rparr>) = stats_interval_s c \<and>
   effective_metrics_retention_days (rc\<lparr>metrics_retention_days := Some 0\<rparr>) = 0"
  by (simp add: effective_system_stats_interval_s_def effective_metrics_retention_days_def float_truthy_def)

text \<open>
  The settings that are plain fields of a section, and that no two of them share an
  environment variable although their names contain the delimiter's character.
\<close>

definition section_fields :: "(string \<times> string list) list" where
  "section_fields =
    [(''listener'', [''listing_interval_s'', ''tracker_interval_s'', ''missing_threshold_cycles'', ''stats_interval_s'',
        ''system_stats_interval_s'', ''max_concurrent_listener_spawns'']),
     (''metrics'', [''enabled'', ''system_enabled'', ''cpu_enabled'', ''memory_enabled'', ''disk_enabled'', ''network_enabled'',
        ''system_metrics_source'']),
     (''retention'', [''retention_days'', ''metrics_retention_days'', ''trim_interval_seconds'']),
     (''logstash'', [''host'', ''port'', ''database_path'']),
     (''redis'', [''url'']),
     (''server'', [''bind_host'', ''bind_port'', ''page_size_default'', ''page_size_max''])]"

definition field_paths :: "string list list" where
  "field_paths = [''daemons''] # concat (map (\<lambda>(sec, fs). [sec] # map (\<lambda>f. [sec, f]) fs) section_fields)"

lemma env_variables_distinct: "distinct (map env_variable field_paths)"
  by code_simp

text \<open>Without a file and an environment every field has its default.\<close>

lemma load_setting_default:
  "provides FileSecretSource f = None \<Longrightarrow> provides EnvSource f = None \<Longrightarrow> provides DotenvSource f = None \<Longrightarrow>
   load_setting None is_file provides dflt f = dflt"
  by (simp add: load_setting_def settings_sources_def)

end
