(* ===== verification/System_Stats.thy ===== *)
theory System_Stats
  imports Proc_Parsers Units Docker_Cli Config Sampling_Loop
begin

text \<open>
  The rest of \<^verbatim>\<open>log_sump_listener/system_stats.py\<close>: \<open>docker system df\<close>, the aggregate of
  \<open>docker stats\<close> used as a fallback, one \<open>/proc\<close> sample, and the loop with its choice of
  source and the previous CPU sample it carries from one cycle to a later one. A cycle's input
  is what its commands answered and the clocks; \<open>rows\<close> is an association list in insertion
  order, keyed by the JSON value of \<open>Type\<close>, which pydantic rejects unless it is a string.
\<close>

record host_metrics =
  hm_cpu_pct :: "pyfloat option"
  hm_mem_used :: "int option"
  hm_mem_limit :: "int option"
  hm_mem_pct :: "pyfloat option"
  hm_net_rx :: "int option"
  hm_net_tx :: "int option"
  hm_blk_read :: "int option"
  hm_blk_write :: "int option"

definition no_metrics :: host_metrics where
  "no_metrics = \<lparr>hm_cpu_pct = None, hm_mem_used = None, hm_mem_limit = None, hm_mem_pct = None,
     hm_net_rx = None, hm_net_tx = None, hm_blk_read = None, hm_blk_write = None\<rparr>"

section \<open>Docker disk usage\<close>

definition parse_reclaimable :: "string \<Rightarrow> int option result" where
  "parse_reclaimable text = parse_bytes (py_strip (takeWhile (\<lambda>c. c \<noteq> CHR ''('') text))"

definition json_opt :: "json option \<Rightarrow> json" where
  "json_opt v = (case v of None \<Rightarrow> JNull | Some w \<Rightarrow> w)"

definition json_int :: "int option \<Rightarrow> json" where
  "json_int v = (case v of None \<Rightarrow> JNull | Some n \<Rightarrow> JInt n)"

fun put_row :: "(json \<times> json) list \<Rightarrow> json \<Rightarrow> json \<Rightarrow> (json \<times> json) list" where
  "put_row [] k v = [(k, v)]"
| "put_row ((k', v') # rows) k v = (if k' = k then (k', v) # rows else (k', v') # put_row rows k v)"

definition disk_usage_row :: "runtime \<Rightarrow> json_dict \<Rightarrow> json result" where
  "disk_usage_row rt d =
     bind_r (parse_bytes (get_str rt d ''Size'' [])) (\<lambda>size.
     bind_r (parse_reclaimable (get_str rt d ''Reclaimable'' [])) (\<lambda>reclaimable.
       Inr (JObj [(''total'', json_opt (dict_get d ''TotalCount'')), (''active'', json_opt (dict_get d ''Active'')),
         (''size_bytes'', json_int size), (''reclaimable_bytes'', json_int reclaimable), (''raw'', JObj d)])))"

text \<open>
  One line: not JSON, or without a true \<open>Type\<close>, is skipped. The row is built before the
  subscript hashes its key.
\<close>

definition df_line :: "runtime \<Rightarrow> (json \<times> json) list \<Rightarrow> string \<Rightarrow> (json \<times> json) list result" where
  "df_line rt rows line =
     (case json_loads rt line of
        Inl e \<Rightarrow> Inr rows
      | Inr (JObj d) \<Rightarrow>
          (case dict_get d ''Type'' of
             None \<Rightarrow> Inr rows
           | Some row_type \<Rightarrow>
               if \<not> json_truthy row_type then Inr rows
               else bind_r (disk_usage_row rt d) (\<lambda>row.
                 if hashable row_type then Inr (put_row rows row_type row) else Inl TypeError))
      | Inr v \<Rightarrow> Inl AttributeError)"

definition try_sample_docker_disk_usage :: "runtime \<Rightarrow> exec_result result \<Rightarrow> (json \<times> json) list option result" where
  "try_sample_docker_disk_usage rt res =
     (case checked_stdout res of
        Inl e \<Rightarrow> if caught_by_cycle e then Inr None else Inl e
      | Inr out \<Rightarrow> bind_r (fold_r (df_line rt) [] (nonblank_lines out)) (\<lambda>rows.
          Inr (if rows = [] then None else Some rows)))"

section \<open>The aggregate of \<open>docker stats\<close>\<close>

record aggregate =
  agg_cpu :: pyfloat
  agg_mem :: int
  agg_rx :: int
  agg_tx :: int
  agg_count :: nat

definition empty_aggregate :: aggregate where
  "empty_aggregate = \<lparr>agg_cpu = round_ratio 0 1, agg_mem = 0, agg_rx = 0, agg_tx = 0, agg_count = 0\<rparr>"

definition int_or_0 :: "int option \<Rightarrow> int" where
  "int_or_0 v = (case v of None \<Rightarrow> 0 | Some n \<Rightarrow> n)"

definition float_or_0 :: "pyfloat option \<Rightarrow> pyfloat" where
  "float_or_0 v = (case v of None \<Rightarrow> round_ratio 0 1 | Some f \<Rightarrow> if json_truthy (JFloat f) then f else round_ratio 0 1)"

definition aggregate_line :: "runtime \<Rightarrow> aggregate \<Rightarrow> string \<Rightarrow> aggregate result" where
  "aggregate_line rt a line =
     (case json_loads rt line of
        Inl e \<Rightarrow> Inr a
      | Inr (JObj d) \<Rightarrow>
          bind_r (parse_pair_bytes (get_str rt d ''MemUsage'' [])) (\<lambda>(mem_used, _).
          bind_r (parse_pair_bytes (get_str rt d ''NetIO'' [])) (\<lambda>(net_rx, net_tx).
            Inr \<lparr>agg_cpu = fadd (agg_cpu a) (float_or_0 (parse_percent (get_str rt d ''CPUPerc'' []))),
                 agg_mem = agg_mem a + int_or_0 mem_used, agg_rx = agg_rx a + int_or_0 net_rx,
                 agg_tx = agg_tx a + int_or_0 net_tx, agg_count = agg_count a + 1\<rparr>))
      | Inr v \<Rightarrow> Inl AttributeError)"

definition try_sample_container_aggregate :: "runtime \<Rightarrow> exec_result result \<Rightarrow> host_metrics result" where
  "try_sample_container_aggregate rt res =
     (case checked_stdout res of
        Inl e \<Rightarrow> if caught_by_cycle e then Inr no_metrics else Inl e
      | Inr out \<Rightarrow> bind_r (fold_r (aggregate_line rt) empty_aggregate (nonblank_lines out)) (\<lambda>a.
          Inr (if agg_count a = 0 then no_metrics
               else no_metrics\<lparr>hm_cpu_pct := Some (agg_cpu a), hm_mem_used := Some (agg_mem a),
                 hm_net_rx := Some (agg_rx a), hm_net_tx := Some (agg_tx a)\<rparr>)))"

section \<open>One \<open>/proc\<close> sample\<close>

definition mem_percent :: "int \<Rightarrow> int \<Rightarrow> pyfloat option result" where
  "mem_percent mem_total mem_available =
     (if mem_total = 0 then Inr None
      else bind_r (float_of_int (mem_total - mem_available)) (\<lambda>used.
        bind_r (fdiv_int (fmul (round_ratio 100 1) used) mem_total) (\<lambda>p. Inr (Some p))))"

text \<open>The part inside the \<open>try\<close>: the sections and the two mandatory parses.\<close>

definition read_proc :: "exec_result result \<Rightarrow> ((string \<times> string) list \<times> (int \<times> int) \<times> int \<times> int) result" where
  "read_proc res =
     bind_r (checked_stdout res) (\<lambda>out.
       let secs = split_proc_sections out in
       bind_r (parse_cpu_total_idle (section_text secs MARKER_STAT)) (\<lambda>cpu.
         case (cpu, parse_meminfo (section_text secs MARKER_MEMINFO)) of
           (Some c, Some m) \<Rightarrow> Inr (secs, c, m)
         | _ \<Rightarrow> Inl ValueError))"

definition try_sample_proc :: "exec_result result \<Rightarrow> pyfloat \<Rightarrow> (host_metrics \<times> cpu_sample) option result" where
  "try_sample_proc res monotonic =
     (case read_proc res of
        Inl e \<Rightarrow> if caught_by_cycle e then Inr None else Inl e
      | Inr (secs, (c_total, c_idle), (mem_total, mem_available)) \<Rightarrow>
          (let net = parse_net_dev (section_text secs MARKER_NETDEV);
               disk = parse_diskstats (section_text secs MARKER_DISKSTATS)
           in bind_r (mem_percent mem_total mem_available) (\<lambda>pct.
             Inr (Some
               (\<lparr>hm_cpu_pct = None, hm_mem_used = Some (mem_total - mem_available),
                 hm_mem_limit = Some mem_total, hm_mem_pct = pct,
                 hm_net_rx = map_option fst net, hm_net_tx = map_option snd net,
                 hm_blk_read = map_option fst disk, hm_blk_write = map_option snd disk\<rparr>,
                \<lparr>cpu_at = monotonic, cpu_total = c_total, cpu_idle = c_idle\<rparr>)))))"

section \<open>The loop\<close>

text \<open>What one cycle's commands answered (an unused one is never looked at) and its clocks.\<close>

record cycle_input =
  ci_df :: "exec_result result"
  ci_proc :: "exec_result result"
  ci_stats :: "exec_result result"
  ci_monotonic :: pyfloat
  ci_now :: datetime

text \<open>The host metrics of a cycle, the CPU sample to keep and the \<open>source\<close> label.\<close>

definition sample_host :: "runtime \<Rightarrow> metrics_source \<Rightarrow> cpu_sample option \<Rightarrow> cycle_input
    \<Rightarrow> (host_metrics \<times> cpu_sample option \<times> string) result" where
  "sample_host rt src prev_cpu ci =
     (case src of
        PROC \<Rightarrow>
          bind_r (try_sample_proc (ci_proc ci) (ci_monotonic ci)) (\<lambda>sampled.
            case sampled of
              Some (hm, cpu_sample) \<Rightarrow>
                (case prev_cpu of
                   None \<Rightarrow> Inr (hm, Some cpu_sample, ''/proc'')
                 | Some prev \<Rightarrow> bind_r (cpu_percent prev cpu_sample) (\<lambda>pct.
                     Inr (hm\<lparr>hm_cpu_pct := pct\<rparr>, Some cpu_sample, ''/proc'')))
            | None \<Rightarrow> bind_r (try_sample_container_aggregate rt (ci_stats ci)) (\<lambda>hm.
                Inr (hm, prev_cpu, ''container-aggregate'')))
      | CONTAINER_AGGREGATE \<Rightarrow> bind_r (try_sample_container_aggregate rt (ci_stats ci)) (\<lambda>hm.
          Inr (hm, prev_cpu, ''container-aggregate''))
      | NO_SOURCE \<Rightarrow> Inr (no_metrics, prev_cpu, ''docker system df''))"

fun string_keys :: "(json \<times> json) list \<Rightarrow> json_dict option" where
  "string_keys [] = Some []"
| "string_keys ((JStr k, v) # rows) = map_option (\<lambda>d. (k, v) # d) (string_keys rows)"
| "string_keys ((k, v) # rows) = None"

text \<open>\<open>MetricRecord(...)\<close>: pydantic validates \<open>system\<close>.\<close>

definition system_record :: "string \<Rightarrow> host_metrics \<Rightarrow> (json \<times> json) list option \<Rightarrow> string \<Rightarrow> datetime \<Rightarrow> int
    \<Rightarrow> metric_record result" where
  "system_record host hm docker_disk label t n =
     bind_r (case docker_disk of
               None \<Rightarrow> Inr None
             | Some rows \<Rightarrow> (case string_keys rows of
                 None \<Rightarrow> Inl ValidationError
               | Some d \<Rightarrow> Inr (Some (JObj [(''docker_disk_usage'', JObj d)])))) (\<lambda>sys.
       Inr \<lparr>docker_host = host, container_name = SYSTEM_SCOPE_ID, container_id = SYSTEM_SCOPE_ID,
            ts = t, seq = n, metric_scope = SYSTEM, cpu_pct = hm_cpu_pct hm,
            mem_used_bytes = hm_mem_used hm, mem_limit_bytes = hm_mem_limit hm, mem_pct = hm_mem_pct hm,
            net_rx_bytes = hm_net_rx hm, net_tx_bytes = hm_net_tx hm,
            blk_read_bytes = hm_blk_read hm, blk_write_bytes = hm_blk_write hm,
            pids = None, system = sys, source = label, raw_data = JNull\<rparr>)"

definition system_cycle :: "runtime \<Rightarrow> string \<Rightarrow> metrics_source \<Rightarrow> cpu_sample option \<Rightarrow> int \<Rightarrow> cycle_input
    \<Rightarrow> (metric_record \<times> cpu_sample option) result" where
  "system_cycle rt host src prev_cpu n ci =
     bind_r (try_sample_docker_disk_usage rt (ci_df ci)) (\<lambda>docker_disk.
     bind_r (sample_host rt src prev_cpu ci) (\<lambda>(hm, prev', label).
     bind_r (system_record host hm docker_disk label (ci_now ci) n) (\<lambda>r. Inr (r, prev'))))"

fun system_loop :: "runtime \<Rightarrow> string \<Rightarrow> metrics_source \<Rightarrow> cpu_sample option \<Rightarrow> int \<Rightarrow> cycle_input list
    \<Rightarrow> metric_record list \<times> py_error option" where
  "system_loop rt host src prev_cpu n [] = ([], None)"
| "system_loop rt host src prev_cpu n (ci # cycles) =
     (case system_cycle rt host src prev_cpu n ci of
        Inl e \<Rightarrow> ([], Some e)
      | Inr (r, prev') \<Rightarrow>
          (case system_loop rt host src prev' (n + 1) cycles of (rs, err) \<Rightarrow> (r # rs, err)))"

definition run_system_stats :: "runtime \<Rightarrow> string \<Rightarrow> metrics_source \<Rightarrow> cycle_input list
    \<Rightarrow> metric_record list \<times> py_error option" where
  "run_system_stats rt host src cycles = system_loop rt host src None 1 cycles"


text \<open>The cycle as the interface of theory \<open>Sampling_Loop\<close> sees it.\<close>

definition emitting_cycle :: "runtime \<Rightarrow> string \<Rightarrow> metrics_source \<Rightarrow> cpu_sample option \<times> int \<Rightarrow> cycle_input
    \<Rightarrow> metric_record list \<times> ((cpu_sample option \<times> int) + py_error)" where
  "emitting_cycle rt host src s ci =
     (case system_cycle rt host src (fst s) (snd s) ci of
        Inl e \<Rightarrow> ([], Inr e)
      | Inr (r, prev') \<Rightarrow> ([r], Inl (prev', snd s + 1)))"

interpretation system_loops: sampling_loop "emitting_cycle rt h src" "\<lambda>s cycles. system_loop rt h src (fst s) (snd s) cycles" for rt h src
  by unfold_locales (auto simp: emitting_cycle_def split: sum.splits prod.splits)

section \<open>What the loop emits\<close>

definition sample_of :: "cycle_input \<Rightarrow> cpu_sample option" where
  "sample_of ci =
     (case try_sample_proc (ci_proc ci) (ci_monotonic ci) of
        Inr (Some (hm, c)) \<Rightarrow> Some c
      | _ \<Rightarrow> None)"

text \<open>The last CPU sample taken before a cycle, the failed cycles in between skipped.\<close>

definition last_sample :: "cycle_input list \<Rightarrow> cpu_sample option" where
  "last_sample cycles = last_option (List.map_filter sample_of cycles)"

definition or_else :: "'a option \<Rightarrow> 'a option \<Rightarrow> 'a option" where
  "or_else x y = (case x of None \<Rightarrow> y | Some v \<Rightarrow> Some v)"

lemma last_sample_Cons: "or_else (last_sample (ci # cs)) p = or_else (last_sample cs) (or_else (sample_of ci) p)"
  by (auto simp: last_sample_def or_else_def last_option_def List.map_filter_def split: option.splits if_splits)

lemma system_record_fields:
  "system_record h hm dd label t n = Inr r \<Longrightarrow>
   seq r = n \<and> source r = label \<and> ts r = t \<and> docker_host r = h \<and> container_id r = SYSTEM_SCOPE_ID \<and>
   metric_scope r = SYSTEM \<and> cpu_pct r = hm_cpu_pct hm \<and> mem_used_bytes r = hm_mem_used hm \<and>
   mem_limit_bytes r = hm_mem_limit hm"
  by (auto simp: system_record_def bind_r_eq_Inr)

lemma try_sample_proc_fresh: "try_sample_proc res t = Inr (Some (hm, c)) \<Longrightarrow> hm_cpu_pct hm = None"
  by (auto simp: try_sample_proc_def bind_r_eq_Inr Let_def split: sum.splits prod.splits if_splits)

lemma system_cycle_Inr:
  assumes "system_cycle rt h src prev n ci = Inr (r, prev')"
  shows "\<exists>hm label. sample_host rt src prev ci = Inr (hm, prev', label) \<and> seq r = n \<and> source r = label \<and>
    ts r = ci_now ci \<and> docker_host r = h \<and> container_id r = SYSTEM_SCOPE_ID \<and> metric_scope r = SYSTEM \<and>
    cpu_pct r = hm_cpu_pct hm"
  using assms by (auto simp: system_cycle_def bind_r_eq_Inr dest!: system_record_fields)

lemma sample_host_proc:
  assumes "sample_host rt PROC prev ci = Inr (hm, prev', label)"
  shows "prev' = or_else (sample_of ci) prev"
    and "label = (if sample_of ci = None then ''container-aggregate'' else ''/proc'')"
    and "sample_of ci = Some c \<Longrightarrow>
      (case prev of None \<Rightarrow> hm_cpu_pct hm = None | Some p \<Rightarrow> cpu_percent p c = Inr (hm_cpu_pct hm))"
proof -
  obtain sampled where s: "try_sample_proc (ci_proc ci) (ci_monotonic ci) = Inr sampled"
    using assms by (auto simp: sample_host_def bind_r_eq_Inr)
  have "prev' = or_else (sample_of ci) prev \<and>
    label = (if sample_of ci = None then ''container-aggregate'' else ''/proc'') \<and>
    (sample_of ci = Some c \<longrightarrow>
      (case prev of None \<Rightarrow> hm_cpu_pct hm = None | Some p \<Rightarrow> cpu_percent p c = Inr (hm_cpu_pct hm)))"
  proof (cases sampled)
    case None
    then show ?thesis using assms s by (auto simp: sample_host_def bind_r_eq_Inr sample_of_def or_else_def)
  next
    case (Some hc)
    obtain hm0 c0 where hc: "hc = (hm0, c0)" by (cases hc)
    then have "hm_cpu_pct hm0 = None" using s Some try_sample_proc_fresh by blast
    then show ?thesis using assms s Some hc
      by (auto simp: sample_host_def bind_r_eq_Inr sample_of_def or_else_def split: option.splits)
  qed
  then show "prev' = or_else (sample_of ci) prev"
    and "label = (if sample_of ci = None then ''container-aggregate'' else ''/proc'')"
    and "sample_of ci = Some c \<Longrightarrow>
      (case prev of None \<Rightarrow> hm_cpu_pct hm = None | Some p \<Rightarrow> cpu_percent p c = Inr (hm_cpu_pct hm))"
    by auto
qed

text \<open>
  What a cycle reports of the host, given the last CPU sample taken before it: the label, and
  the percentage with the two memory figures.
\<close>

definition host_label :: "metrics_source \<Rightarrow> cycle_input \<Rightarrow> string" where
  "host_label src ci =
     (case src of
        PROC \<Rightarrow> if sample_of ci = None then ''container-aggregate'' else ''/proc''
      | CONTAINER_AGGREGATE \<Rightarrow> ''container-aggregate''
      | NO_SOURCE \<Rightarrow> ''docker system df'')"

definition reported_cpu :: "runtime \<Rightarrow> metrics_source \<Rightarrow> cpu_sample option \<Rightarrow> cycle_input \<Rightarrow> pyfloat option result" where
  "reported_cpu rt src prev ci =
     (case (src, sample_of ci) of
        (NO_SOURCE, _) \<Rightarrow> Inr None
      | (PROC, Some c) \<Rightarrow> (case prev of None \<Rightarrow> Inr None | Some p \<Rightarrow> cpu_percent p c)
      | _ \<Rightarrow> bind_r (try_sample_container_aggregate rt (ci_stats ci)) (\<lambda>hm. Inr (hm_cpu_pct hm)))"

lemma sample_host_reported:
  assumes "sample_host rt src prev ci = Inr (hm, prev', label)"
  shows "label = host_label src ci" and "reported_cpu rt src prev ci = Inr (hm_cpu_pct hm)"
    and "src = PROC \<Longrightarrow> prev' = or_else (sample_of ci) prev"
proof -
  have "label = host_label src ci \<and> reported_cpu rt src prev ci = Inr (hm_cpu_pct hm) \<and>
    (src = PROC \<longrightarrow> prev' = or_else (sample_of ci) prev)"
  proof (cases src)
    case PROC
    have sh: "sample_host rt PROC prev ci = Inr (hm, prev', label)" using assms PROC by simp
    show ?thesis
    proof (cases "sample_of ci")
      case None
      then have "try_sample_container_aggregate rt (ci_stats ci) = Inr hm"
        using sh by (auto simp: sample_host_def bind_r_eq_Inr sample_of_def split: sum.splits option.splits)
      then show ?thesis using sample_host_proc(1,2) [OF sh] None PROC
        by (simp add: host_label_def reported_cpu_def)
    next
      case (Some c)
      then show ?thesis using sample_host_proc [OF sh] PROC
        by (auto simp: host_label_def reported_cpu_def split: option.splits)
    qed
  qed (use assms in \<open>auto simp: sample_host_def bind_r_eq_Inr host_label_def reported_cpu_def no_metrics_def\<close>)
  then show "label = host_label src ci" "reported_cpu rt src prev ci = Inr (hm_cpu_pct hm)"
    "src = PROC \<Longrightarrow> prev' = or_else (sample_of ci) prev" by simp_all
qed

lemma reported_cpu_prev: "src \<noteq> PROC \<Longrightarrow> reported_cpu rt src p ci = reported_cpu rt src q ci"
  by (cases src) (simp_all add: reported_cpu_def)

lemma system_loop_Cons:
  assumes "system_loop rt h src prev n (ci # cycles) = (rs, err)"
  obtains (stops) e where "system_cycle rt h src prev n ci = Inl e" "rs = []" "err = Some e"
  | (goes) r prev' rs' where "system_cycle rt h src prev n ci = Inr (r, prev')"
    "system_loop rt h src prev' (n + 1) cycles = (rs', err)" "rs = r # rs'"
  using assms by (auto split: sum.splits prod.splits)

lemma system_loop_length:
  "system_loop rt h src prev n cycles = (rs, err) \<Longrightarrow>
   length rs \<le> length cycles \<and> (err = None \<longleftrightarrow> length rs = length cycles)"
proof (induction cycles arbitrary: prev n rs)
  case (Cons ci cycles)
  from Cons.prems show ?case by (cases rule: system_loop_Cons) (use Cons.IH in auto)
qed simp

lemma system_loop_nth:
  "system_loop rt h src prev n cycles = (rs, err) \<Longrightarrow> i < length rs \<Longrightarrow>
   seq (rs ! i) = n + int i \<and> ts (rs ! i) = ci_now (cycles ! i) \<and> docker_host (rs ! i) = h \<and>
   container_id (rs ! i) = SYSTEM_SCOPE_ID \<and> metric_scope (rs ! i) = SYSTEM \<and>
   source (rs ! i) = host_label src (cycles ! i) \<and>
   reported_cpu rt src (or_else (last_sample (take i cycles)) prev) (cycles ! i) = Inr (cpu_pct (rs ! i))"
proof (induction cycles arbitrary: prev n rs i)
  case (Cons ci cycles)
  from Cons.prems(1) show ?case
  proof (cases rule: system_loop_Cons)
    case (stops e)
    then show ?thesis using Cons.prems(2) by simp
  next
    case (goes r prev' rs')
    from system_cycle_Inr [OF goes(1)] obtain hm label where sh: "sample_host rt src prev ci = Inr (hm, prev', label)"
      and r: "seq r = n" "source r = label" "ts r = ci_now ci" "docker_host r = h" "container_id r = SYSTEM_SCOPE_ID"
        "metric_scope r = SYSTEM" "cpu_pct r = hm_cpu_pct hm" by blast
    note rep = sample_host_reported [OF sh]
    show ?thesis
    proof (cases i)
      case 0
      have "or_else (last_sample []) prev = prev" by (simp add: last_sample_def or_else_def List.map_filter_def)
      then show ?thesis using 0 goes(3) r rep(1,2) by simp
    next
      case (Suc j)
      then have j: "j < length rs'" using Cons.prems(2) goes(3) by simp
      have "reported_cpu rt src (or_else (last_sample (take j cycles)) prev') (cycles ! j) =
          reported_cpu rt src (or_else (last_sample (take i (ci # cycles))) prev) (cycles ! j)"
      proof (cases "src = PROC")
        case True
        then show ?thesis using Suc last_sample_Cons [of ci "take j cycles" prev] rep(3) by simp
      qed (rule reported_cpu_prev)
      then show ?thesis using Cons.IH [OF goes(2) j] Suc goes(3) by simp
    qed
  qed
qed simp

section \<open>Failures\<close>

definition command_failed :: "exec_result result \<Rightarrow> bool" where
  "command_failed res \<longleftrightarrow> (case checked_stdout res of Inl e \<Rightarrow> caught_by_cycle e | Inr out \<Rightarrow> False)"

lemma failed_df: "command_failed res \<Longrightarrow> try_sample_docker_disk_usage rt res = Inr None"
  by (auto simp: command_failed_def try_sample_docker_disk_usage_def split: sum.splits)

lemma failed_stats: "command_failed res \<Longrightarrow> try_sample_container_aggregate rt res = Inr no_metrics"
  by (auto simp: command_failed_def try_sample_container_aggregate_def split: sum.splits)

lemma failed_proc: "command_failed res \<Longrightarrow> try_sample_proc res t = Inr None"
  by (auto simp: command_failed_def try_sample_proc_def read_proc_def split: sum.splits)

lemma failed_cycle:
  assumes "command_failed (ci_df ci)" and "command_failed (ci_proc ci)" and "command_failed (ci_stats ci)"
  shows "\<exists>r. system_cycle rt h src prev n ci = Inr (r, prev)"
  using failed_df [OF assms(1)] failed_stats [OF assms(3)] failed_proc [OF assms(2)]
  by (cases src) (simp_all add: system_cycle_def sample_host_def system_record_def)

lemma failed_cycles:
  "\<forall>ci\<in>set cycles. command_failed (ci_df ci) \<and> command_failed (ci_proc ci) \<and> command_failed (ci_stats ci) \<Longrightarrow>
   \<exists>rs. system_loop rt h src prev n cycles = (rs, None)"
proof (induction cycles arbitrary: n)
  case (Cons ci cycles)
  then obtain r where "system_cycle rt h src prev n ci = Inr (r, prev)" using failed_cycle by fastforce
  then show ?case using Cons.IH [of "n + 1"] Cons.prems by auto
qed simp

section \<open>Properties\<close>

text \<open>
  C26. Every record a daemon's system-stats loop emits, whatever its source is and whether or not
  an exception ends the loop later: it is the record of its own cycle, numbered from 1, under
  the daemon and \<open>__system__\<close>, and labelled with where its host metrics came from: \<open>/proc\<close>
  when that is the source and the sample succeeded, \<open>docker system df\<close> alone when there is no
  source, and the aggregate otherwise. From \<open>/proc\<close>, \<open>cpu_pct\<close> is absent when no earlier
  sample succeeded and otherwise the percentage since the last one that did, however
  many failed cycles lie between; from the aggregate it is the aggregate's; without a source it is
  absent. The loop has emitted one record per cycle unless an exception ended it.
\<close>

theorem system_cpu_since_last_sample:
  assumes "run_system_stats rt h src cycles = (rs, err)"
  shows "length rs \<le> length cycles \<and> (err = None \<longleftrightarrow> length rs = length cycles) \<and>
    (\<forall>i < length rs.
      seq (rs ! i) = int i + 1 \<and> ts (rs ! i) = ci_now (cycles ! i) \<and> docker_host (rs ! i) = h \<and>
      container_id (rs ! i) = SYSTEM_SCOPE_ID \<and> metric_scope (rs ! i) = SYSTEM \<and>
      (case (src, sample_of (cycles ! i)) of
         (PROC, Some c) \<Rightarrow> source (rs ! i) = ''/proc'' \<and>
           (case last_sample (take i cycles) of
              None \<Rightarrow> cpu_pct (rs ! i) = None
            | Some p \<Rightarrow> cpu_percent p c = Inr (cpu_pct (rs ! i)))
       | (NO_SOURCE, _) \<Rightarrow> source (rs ! i) = ''docker system df'' \<and> cpu_pct (rs ! i) = None
       | _ \<Rightarrow> source (rs ! i) = ''container-aggregate'' \<and>
           (\<exists>hm. try_sample_container_aggregate rt (ci_stats (cycles ! i)) = Inr hm \<and> cpu_pct (rs ! i) = hm_cpu_pct hm)))"
proof (intro conjI allI impI)
  note l = assms [unfolded run_system_stats_def]
  show "length rs \<le> length cycles" "err = None \<longleftrightarrow> length rs = length cycles" using system_loop_length [OF l] by simp_all
  fix i assume i: "i < length rs"
  have o: "or_else (last_sample (take i cycles)) None = last_sample (take i cycles)"
    by (cases "last_sample (take i cycles)") (simp_all add: or_else_def)
  note n = system_loop_nth [OF l i, unfolded o]
  then show "seq (rs ! i) = int i + 1" "ts (rs ! i) = ci_now (cycles ! i)" "docker_host (rs ! i) = h"
    "container_id (rs ! i) = SYSTEM_SCOPE_ID" "metric_scope (rs ! i) = SYSTEM" by simp_all
  show "case (src, sample_of (cycles ! i)) of
         (PROC, Some c) \<Rightarrow> source (rs ! i) = ''/proc'' \<and>
           (case last_sample (take i cycles) of
              None \<Rightarrow> cpu_pct (rs ! i) = None
            | Some p \<Rightarrow> cpu_percent p c = Inr (cpu_pct (rs ! i)))
       | (NO_SOURCE, _) \<Rightarrow> source (rs ! i) = ''docker system df'' \<and> cpu_pct (rs ! i) = None
       | _ \<Rightarrow> source (rs ! i) = ''container-aggregate'' \<and>
           (\<exists>hm. try_sample_container_aggregate rt (ci_stats (cycles ! i)) = Inr hm \<and> cpu_pct (rs ! i) = hm_cpu_pct hm)"
    using n by (auto simp: reported_cpu_def host_label_def bind_r_eq_Inr split: metrics_source.splits option.splits)
qed

text \<open>Two good samples with a failed cycle between them.\<close>

definition proc_cycle :: "string \<Rightarrow> cycle_input" where
  "proc_cycle cpu =
     (let bad = Inr \<lparr>returncode = 1, stdout = [], stderr = []\<rparr>;
          out = print_lines [MARKER_STAT, cpu, MARKER_MEMINFO, ''MemTotal: 8 kB'']
      in \<lparr>ci_df = bad, ci_proc = Inr \<lparr>returncode = 0, stdout = out, stderr = []\<rparr>, ci_stats = bad,
          ci_monotonic = Fin 0 0, ci_now = \<lparr>dt_us = 0, dt_aware = True\<rparr>\<rparr>)"

lemma proc_samples:
  "sample_of (proc_cycle ''cpu  10 20 30 40'') = Some \<lparr>cpu_at = Fin 0 0, cpu_total = 100, cpu_idle = 40\<rparr>"
  "sample_of (proc_cycle ''none'') = None"
  "sample_of (proc_cycle ''cpu  30 40 40 90'') = Some \<lparr>cpu_at = Fin 0 0, cpu_total = 200, cpu_idle = 90\<rparr>"
  by code_simp+

lemma proc_cycles_run:
  "snd (run_system_stats (table_runtime [] []) ''d'' PROC [proc_cycle ''cpu  10 20 30 40'', proc_cycle ''none'', proc_cycle ''cpu  30 40 40 90'']) = None"
  by code_simp

theorem system_cpu_since_last_sample_witness:
  "\<exists>r1 r2 r3. run_system_stats (table_runtime [] []) ''d'' PROC
       [proc_cycle ''cpu  10 20 30 40'', proc_cycle ''none'', proc_cycle ''cpu  30 40 40 90''] = ([r1, r2, r3], None) \<and>
     source r1 = ''/proc'' \<and> cpu_pct r1 = None \<and> source r2 = ''container-aggregate'' \<and>
     source r3 = ''/proc'' \<and> cpu_pct r3 = Some (round_ratio 50 1) \<and> seq r3 = 3"
proof -
  let ?cs = "[proc_cycle ''cpu  10 20 30 40'', proc_cycle ''none'', proc_cycle ''cpu  30 40 40 90'']"
  obtain rs where rs: "run_system_stats (table_runtime [] []) ''d'' PROC ?cs = (rs, None)"
    using proc_cycles_run by (cases "run_system_stats (table_runtime [] []) ''d'' PROC ?cs") simp
  have pct: "cpu_percent \<lparr>cpu_at = Fin 0 0, cpu_total = 100, cpu_idle = 40\<rparr>
      \<lparr>cpu_at = Fin 0 0, cpu_total = 200, cpu_idle = 90\<rparr> = Inr (Some (round_ratio 50 1))" by code_simp
  note th = system_cpu_since_last_sample [OF rs]
  then have "length rs = 3" by simp
  then obtain r1 r2 r3 where r: "rs = [r1, r2, r3]" by (auto simp: numeral_3_eq_3 length_Suc_conv)
  note f = th [THEN conjunct2, THEN conjunct2, rule_format, unfolded r]
  have "source r1 = ''/proc'' \<and> cpu_pct r1 = None" using f [of 0]
    by (simp add: proc_samples last_sample_def last_option_def List.map_filter_def)
  moreover have "source r2 = ''container-aggregate''" using f [of 1] by (simp add: proc_samples)
  moreover have "source r3 = ''/proc'' \<and> cpu_pct r3 = Some (round_ratio 50 1) \<and> seq r3 = 3" using f [of 2] pct
    by (simp add: proc_samples last_sample_def last_option_def List.map_filter_def)
  ultimately show ?thesis using rs r by blast
qed

text \<open>
  Transport failures and non-zero exits never stop the loop: if every command of every
  cycle fails, each cycle still emits its numbered record, whatever the source.
\<close>

lemma system_loop_survives_failures:
  assumes "\<forall>ci\<in>set cycles. command_failed (ci_df ci) \<and> command_failed (ci_proc ci) \<and> command_failed (ci_stats ci)"
  shows "\<exists>rs. run_system_stats rt h src cycles = (rs, None) \<and> length rs = length cycles \<and>
    (\<forall>i < length cycles. seq (rs ! i) = int i + 1 \<and> ts (rs ! i) = ci_now (cycles ! i))"
proof -
  obtain rs where l: "system_loop rt h src None 1 cycles = (rs, None)" using failed_cycles [OF assms] by blast
  then show ?thesis using system_loop_length [OF l] system_loop_nth [OF l]
    by (intro exI [of _ rs]) (simp add: run_system_stats_def)
qed

lemma system_loop_survives_failures_example:
  "let down = Inl (TransportError ''no route'');
       ci = \<lparr>ci_df = down, ci_proc = down, ci_stats = down, ci_monotonic = Fin 0 0, ci_now = \<lparr>dt_us = 0, dt_aware = True\<rparr>\<rparr>
   in snd (run_system_stats (table_runtime [] []) ''d'' CONTAINER_AGGREGATE [ci, ci, ci]) = None"
proof -
  let ?down = "Inl (TransportError ''no route'') :: exec_result result"
  let ?ci = "\<lparr>ci_df = ?down, ci_proc = ?down, ci_stats = ?down, ci_monotonic = Fin 0 0, ci_now = \<lparr>dt_us = 0, dt_aware = True\<rparr>\<rparr>"
  have "command_failed ?down" by (simp add: command_failed_def checked_stdout_def)
  then have "\<forall>ci\<in>set [?ci, ?ci, ?ci]. command_failed (ci_df ci) \<and> command_failed (ci_proc ci) \<and> command_failed (ci_stats ci)"
    by simp
  from system_loop_survives_failures [OF this, of "table_runtime [] []" "''d''" CONTAINER_AGGREGATE]
  show ?thesis unfolding Let_def by (metis snd_conv)
qed

text \<open>
  The loop is not safe from the rows of \<open>docker system df\<close>: they are parsed outside the
  \<open>try\<close>, so a row with a \<open>Type\<close> whose \<open>Size\<close> makes \<open>parse_bytes\<close> raise, wherever it comes
  after rows that parse and in whatever cycle, ends the loop for good with what the cycles before
  emitted, although \<open>ValueError\<close> is one of the exceptions the clause names.
\<close>

lemma df_size_raises:
  assumes "checked_stdout res = Inr out" and "nonblank_lines out = before @ line # rest"
    and "fold_r (df_line rt) [] before = Inr rows"
    and "json_loads rt line = Inr (JObj d)" and "dict_get d ''Type'' = Some v" and "json_truthy v"
    and "parse_bytes (get_str rt d ''Size'' []) = Inl ValueError"
  shows "try_sample_docker_disk_usage rt res = Inl ValueError"
proof -
  have "df_line rt rows line = Inl ValueError"
    using assms(4-7) by (simp add: df_line_def disk_usage_row_def)
  then have "fold_r (df_line rt) [] (before @ line # rest) = Inl ValueError"
    using assms(3) by (simp add: fold_r_append)
  then show ?thesis using assms(1,2) by (simp add: try_sample_docker_disk_usage_def)
qed

lemma system_loop_df_raises:
  "system_loop rt h src prev n before = (rs, None) \<Longrightarrow> try_sample_docker_disk_usage rt (ci_df ci) = Inl e \<Longrightarrow>
   system_loop rt h src prev n (before @ ci # cycles) = (rs, Some e)"
proof (induction before arbitrary: prev n rs)
  case Nil
  then show ?case by (simp add: system_cycle_def)
next
  case (Cons c0 before)
  from Cons.prems(1) show ?case
    by (cases rule: system_loop_Cons) (use Cons.IH [OF _ Cons.prems(2)] in auto)
qed

end
