(* ===== verification/Ingest_Consumer.thy ===== *)
theory Ingest_Consumer
  imports Schema
begin

text \<open>
  \<^verbatim>\<open>log_sump_server/ingest/consumer.py\<close>: the loop that drains Logstash's Redis list and adds
  every valid record to its daemon's stream. The Redis client is a record of operations over
  an arbitrary server state, each returning what the awaited call gives or raises. What is
  documented of \<open>BLPOP\<close>, \<open>LPOP count\<close> and a pipeline of \<open>XADD\<close>s is stated as
  \<open>list_redis\<close>, over two readings of the server's state: the ingest list and the \<open>data\<close>
  fields of a stream in order. \<open>store_redis\<close> is a concrete client that satisfies it.
\<close>

datatype raw_item = Text string | Number int

definition BATCH_SIZE :: int where
  "BATCH_SIZE = 200"

record 'r redis_client =
  rc_blpop :: "'r \<Rightarrow> string \<Rightarrow> raw_item option result \<times> 'r"
  rc_lpop :: "'r \<Rightarrow> string \<Rightarrow> int \<Rightarrow> raw_item list result \<times> 'r"
  rc_xadds :: "'r \<Rightarrow> (string \<times> string) list \<Rightarrow> unit result \<times> 'r"

section \<open>The consumer\<close>

text \<open>What one item queues on the pipeline: nothing, or one \<open>XADD\<close> of the normalized record.\<close>

definition item_xadd :: "runtime \<Rightarrow> raw_item \<Rightarrow> (string \<times> string) option" where
  "item_xadd rt item =
     (case item of
        Number n \<Rightarrow> None
      | Text data \<Rightarrow>
          (case validate_json rt data of
             Inl e \<Rightarrow> None
           | Inr r \<Rightarrow> Some (stream_key (rec_docker_host r) (rec_kind r), dump_json rt r)))"

definition batch_xadds :: "runtime \<Rightarrow> raw_item list \<Rightarrow> (string \<times> string) list" where
  "batch_xadds rt batch = List.map_filter (item_xadd rt) batch"

definition ingest_batch :: "runtime \<Rightarrow> 'r redis_client \<Rightarrow> raw_item list \<Rightarrow> 'r \<Rightarrow> unit result \<times> 'r" where
  "ingest_batch rt rc batch s =
     (if batch_xadds rt batch = [] then (Inr (), s) else rc_xadds rc s (batch_xadds rt batch))"

definition consume_once :: "runtime \<Rightarrow> 'r redis_client \<Rightarrow> int \<Rightarrow> 'r \<Rightarrow> unit result \<times> 'r" where
  "consume_once rt rc batch_size s =
     (case rc_blpop rc s INGEST_LIST of
        (Inl e, s1) \<Rightarrow> (Inl e, s1)
      | (Inr None, s1) \<Rightarrow> (Inr (), s1)
      | (Inr (Some first), s1) \<Rightarrow>
          if 1 < batch_size then
            (case rc_lpop rc s1 INGEST_LIST (batch_size - 1) of
               (Inl e, s2) \<Rightarrow> (Inl e, s2)
             | (Inr rest, s2) \<Rightarrow> ingest_batch rt rc (first # rest) s2)
          else ingest_batch rt rc [first] s1)"

text \<open>\<open>n\<close> turns of the loop: a Redis error is logged, any other exception leaves it.\<close>

fun run_consumer :: "runtime \<Rightarrow> 'r redis_client \<Rightarrow> int \<Rightarrow> nat \<Rightarrow> 'r \<Rightarrow> py_error option \<times> 'r" where
  "run_consumer rt rc batch_size 0 s = (None, s)"
| "run_consumer rt rc batch_size (Suc n) s =
     (case consume_once rt rc batch_size s of
        (Inr u, s') \<Rightarrow> run_consumer rt rc batch_size n s'
      | (Inl RedisError, s') \<Rightarrow> run_consumer rt rc batch_size n s'
      | (Inl e, s') \<Rightarrow> (Some e, s'))"

section \<open>What the consumer relies on of Redis\<close>

definition added :: "string \<Rightarrow> (string \<times> string) list \<Rightarrow> string list" where
  "added key cmds = map snd (filter (\<lambda>c. fst c = key) cmds)"

fun blpop_spec :: "raw_item list \<Rightarrow> raw_item option result \<Rightarrow> raw_item list \<Rightarrow> bool" where
  "blpop_spec [] res after = (res = Inr None \<and> after = [])"
| "blpop_spec (x # xs) res after = (res = Inr (Some x) \<and> after = xs)"

definition pops_ok :: "'r redis_client \<Rightarrow> ('r \<Rightarrow> raw_item list) \<Rightarrow> ('r \<Rightarrow> string \<Rightarrow> string list) \<Rightarrow> bool" where
  "pops_ok rc items streams \<longleftrightarrow>
     (\<forall>s res s'. rc_blpop rc s INGEST_LIST = (res, s') \<longrightarrow> blpop_spec (items s) res (items s') \<and> streams s' = streams s) \<and>
     (\<forall>s n res s'. 0 < n \<longrightarrow> rc_lpop rc s INGEST_LIST n = (res, s') \<longrightarrow>
        res = Inr (take (nat n) (items s)) \<and> items s' = drop (nat n) (items s) \<and> streams s' = streams s)"

definition xadds_ok :: "'r redis_client \<Rightarrow> ('r \<Rightarrow> raw_item list) \<Rightarrow> ('r \<Rightarrow> string \<Rightarrow> string list) \<Rightarrow> bool" where
  "xadds_ok rc items streams \<longleftrightarrow>
     (\<forall>s cmds res s'. rc_xadds rc s cmds = (res, s') \<longrightarrow>
        res = Inr () \<and> items s' = items s \<and> (\<forall>key. streams s' key = streams s key @ added key cmds))"

definition list_redis :: "'r redis_client \<Rightarrow> ('r \<Rightarrow> raw_item list) \<Rightarrow> ('r \<Rightarrow> string \<Rightarrow> string list) \<Rightarrow> bool" where
  "list_redis rc items streams \<longleftrightarrow> pops_ok rc items streams \<and> xadds_ok rc items streams"

lemma pops_okD:
  assumes "pops_ok rc items streams"
  shows "rc_blpop rc s INGEST_LIST = (b, s') \<Longrightarrow> blpop_spec (items s) b (items s') \<and> streams s' = streams s"
    and "0 < n \<Longrightarrow> rc_lpop rc s INGEST_LIST n = (l, s') \<Longrightarrow>
      l = Inr (take (nat n) (items s)) \<and> items s' = drop (nat n) (items s) \<and> streams s' = streams s"
  using assms unfolding pops_ok_def by blast+

lemma xadds_okD:
  "xadds_ok rc items streams \<Longrightarrow> rc_xadds rc s cmds = (res, s') \<Longrightarrow>
   res = Inr () \<and> items s' = items s \<and> (\<forall>key. streams s' key = streams s key @ added key cmds)"
  unfolding xadds_ok_def by blast

text \<open>A client over a list and a function, for the witnesses.\<close>

record store =
  store_items :: "raw_item list"
  store_streams :: "string \<Rightarrow> string list"

definition store_redis :: "store redis_client" where
  "store_redis =
     \<lparr>rc_blpop = (\<lambda>s k. case store_items s of [] \<Rightarrow> (Inr None, s)
        | x # xs \<Rightarrow> (Inr (Some x), s\<lparr>store_items := xs\<rparr>)),
      rc_lpop = (\<lambda>s k n. (Inr (take (nat n) (store_items s)), s\<lparr>store_items := drop (nat n) (store_items s)\<rparr>)),
      rc_xadds = (\<lambda>s cmds. (Inr (), s\<lparr>store_streams := (\<lambda>key. store_streams s key @ added key cmds)\<rparr>))\<rparr>"

lemma store_redis_ok: "list_redis store_redis store_items store_streams"
  by (auto simp: list_redis_def pops_ok_def xadds_ok_def store_redis_def split: list.splits)

lemma added_append [simp]: "added key (xs @ ys) = added key xs @ added key ys"
  by (simp add: added_def)

lemma added_Nil [simp]: "added key [] = []"
  by (simp add: added_def)

lemma batch_xadds_append: "batch_xadds rt (xs @ ys) = batch_xadds rt xs @ batch_xadds rt ys"
  by (simp add: batch_xadds_def map_filter_append)

lemma batch_xadds_Nil [simp]: "batch_xadds rt [] = []"
  by (simp add: batch_xadds_def List.map_filter_def)

lemma ingest_batch_ok:
  assumes "xadds_ok rc items streams" and "ingest_batch rt rc batch s = (res, s')"
  shows "res = Inr () \<and> items s' = items s \<and> (\<forall>key. streams s' key = streams s key @ added key (batch_xadds rt batch))"
proof (cases "batch_xadds rt batch = []")
  case True
  then show ?thesis using assms(2) by (simp add: ingest_batch_def)
next
  case False
  then have "rc_xadds rc s (batch_xadds rt batch) = (res, s')" using assms(2) by (simp add: ingest_batch_def)
  then show ?thesis by (rule xadds_okD [OF assms(1)])
qed

text \<open>One turn hands the first \<open>batch_size\<close> items (at least one) to \<open>ingest_batch\<close>, in order.\<close>

definition turn_size :: "int \<Rightarrow> nat" where
  "turn_size batch_size = max 1 (nat batch_size)"

lemma consume_once_batch:
  assumes rc: "pops_ok rc items streams"
  shows "\<exists>s1. items s1 = drop (turn_size batch_size) (items s) \<and> streams s1 = streams s \<and>
    consume_once rt rc batch_size s = ingest_batch rt rc (take (turn_size batch_size) (items s)) s1"
proof -
  obtain b s1 where b: "rc_blpop rc s INGEST_LIST = (b, s1)" by (cases "rc_blpop rc s INGEST_LIST")
  note bl = pops_okD(1) [OF rc b]
  show ?thesis
  proof (cases "items s")
    case Nil
    then show ?thesis using bl b by (intro exI [of _ s1]) (simp add: consume_once_def ingest_batch_def)
  next
    case (Cons x xs)
    then have s1: "b = Inr (Some x)" "items s1 = xs" "streams s1 = streams s" using bl by simp_all
    show ?thesis
    proof (cases "1 < batch_size")
      case True
      obtain l s2 where l: "rc_lpop rc s1 INGEST_LIST (batch_size - 1) = (l, s2)"
        by (cases "rc_lpop rc s1 INGEST_LIST (batch_size - 1)")
      have "0 < batch_size - 1" using True by simp
      then have s2: "l = Inr (take (nat (batch_size - 1)) xs)" "items s2 = drop (nat (batch_size - 1)) xs"
        "streams s2 = streams s"
        using pops_okD(2) [OF rc _ l] s1 by simp_all
      have n: "turn_size batch_size = Suc (nat (batch_size - 1))" using True by (simp add: turn_size_def)
      show ?thesis using b s1 l s2 True n Cons by (intro exI [of _ s2]) (simp add: consume_once_def)
    next
      case False
      then have n: "turn_size batch_size = 1" by (simp add: turn_size_def)
      show ?thesis using b s1 False n Cons by (intro exI [of _ s1]) (simp add: consume_once_def)
    qed
  qed
qed

lemma consume_once_ok:
  assumes rc: "list_redis rc items streams" and "consume_once rt rc batch_size s = (res, s')"
  shows "res = Inr () \<and> items s' = drop (turn_size batch_size) (items s) \<and>
    (\<forall>key. streams s' key = streams s key @ added key (batch_xadds rt (take (turn_size batch_size) (items s))))"
proof -
  obtain s1 where s1: "items s1 = drop (turn_size batch_size) (items s)" "streams s1 = streams s"
    and "consume_once rt rc batch_size s = ingest_batch rt rc (take (turn_size batch_size) (items s)) s1"
    using consume_once_batch [of rc items streams batch_size s rt] rc by (auto simp: list_redis_def)
  then have "ingest_batch rt rc (take (turn_size batch_size) (items s)) s1 = (res, s')" using assms(2) by simp
  then show ?thesis using ingest_batch_ok rc s1 unfolding list_redis_def by fastforce
qed

lemma run_consumer_ok:
  assumes rc: "list_redis rc items streams"
  shows "run_consumer rt rc batch_size n s = (err, s') \<Longrightarrow>
    err = None \<and> items s' = drop (n * turn_size batch_size) (items s) \<and>
    (\<forall>key. streams s' key = streams s key @ added key (batch_xadds rt (take (n * turn_size batch_size) (items s))))"
proof (induction n arbitrary: s)
  case 0
  then show ?case by simp
next
  case (Suc n)
  obtain res s1 where c: "consume_once rt rc batch_size s = (res, s1)" by (cases "consume_once rt rc batch_size s")
  note one = consume_once_ok [OF rc c]
  then have "run_consumer rt rc batch_size n s1 = (err, s')" using Suc.prems c by simp
  note ih = Suc.IH [OF this]
  let ?k = "turn_size batch_size"
  have "take (Suc n * ?k) (items s) = take ?k (items s) @ take (n * ?k) (drop ?k (items s))"
    by (simp add: take_add)
  then show ?case using one ih by (simp add: batch_xadds_append add.commute)
qed


section \<open>Properties\<close>

text \<open>The records of a list of items that the adapter accepts, in order.\<close>

definition valid_records :: "runtime \<Rightarrow> raw_item list \<Rightarrow> sump_record list" where
  "valid_records rt items = List.map_filter (\<lambda>item. case item of Text d \<Rightarrow> rt_validate_json rt d | Number n \<Rightarrow> None) items"

lemma added_valid_records:
  "added (stream_key h k) (batch_xadds rt items) =
   map (dump_json rt) (filter (\<lambda>r. rec_docker_host r = h \<and> rec_kind r = k) (valid_records rt items))"
proof (induction items)
  case (Cons item items)
  show ?case using Cons
    by (auto simp: valid_records_def batch_xadds_def item_xadd_def validate_json_def added_def map_filter_Cons
        split: raw_item.splits option.splits)
qed (simp add: valid_records_def List.map_filter_def)

text \<open>
  C19. Whatever the batch size, enough turns of the loop empty the ingest list, and by then
  every stream of every daemon has gained exactly the valid records of that daemon and kind,
  re-serialized, in the order they stood in the list; malformed entries are skipped without
  affecting the others.
\<close>

theorem consumer_drains_in_order:
  assumes "list_redis rc items streams" and "length (items s) \<le> n * turn_size batch_size"
  shows "\<exists>s'. run_consumer rt rc batch_size n s = (None, s') \<and> items s' = [] \<and>
    (\<forall>h k. streams s' (stream_key h k) = streams s (stream_key h k) @
      map (dump_json rt) (filter (\<lambda>r. rec_docker_host r = h \<and> rec_kind r = k) (valid_records rt (items s))))"
proof -
  obtain err s' where r: "run_consumer rt rc batch_size n s = (err, s')"
    by (cases "run_consumer rt rc batch_size n s")
  from run_consumer_ok [OF assms(1) r] assms(2) show ?thesis
    using r by (intro exI [of _ s']) (simp add: added_valid_records)
qed

theorem consumer_drains_in_order_witness:
  "let rt = one_record_runtime ''ok'' (sample_log ''d'' 1);
       s = \<lparr>store_items = [Text ''bad'', Text ''ok'', Number 3], store_streams = (\<lambda>key. [])\<rparr>
   in \<exists>s'. run_consumer rt store_redis 2 2 s = (None, s') \<and> store_items s' = [] \<and>
        store_streams s' (stream_key ''d'' LOG) = [''ok''] \<and> store_streams s' (stream_key ''e'' LOG) = []"
proof -
  let ?rt = "one_record_runtime ''ok'' (sample_log ''d'' 1)"
  let ?s = "\<lparr>store_items = [Text ''bad'', Text ''ok'', Number 3], store_streams = (\<lambda>key. [])\<rparr>"
  have v: "valid_records ?rt (store_items ?s) = [sample_log ''d'' 1]"
    by (simp add: valid_records_def List.map_filter_def one_record_runtime_def)
  have len: "length (store_items ?s) \<le> 2 * turn_size 2" by (simp add: turn_size_def)
  obtain s' where "run_consumer ?rt store_redis 2 2 ?s = (None, s')" "store_items s' = []"
    "\<forall>h k. store_streams s' (stream_key h k) = store_streams ?s (stream_key h k) @
      map (dump_json ?rt) (filter (\<lambda>r. rec_docker_host r = h \<and> rec_kind r = k) (valid_records ?rt (store_items ?s)))"
    using consumer_drains_in_order [OF store_redis_ok len, of ?rt] by blast
  then show ?thesis unfolding Let_def v
    by (intro exI [of _ s']) (simp add: sample_log_def dump_json_def one_record_runtime_def)
qed

text \<open>
  The items of a turn leave the ingest list before they reach a stream: when the pipeline
  fails, the turn's whole batch is gone from the list and in no stream, the loop goes on as if
  nothing had happened, and no later turn brings it back.
\<close>

lemma failed_pipeline_loses_batch:
  assumes "pops_ok rc items streams" and "\<And>s cmds. rc_xadds rc s cmds = (Inl RedisError, s)"
  shows "\<exists>s'. run_consumer rt rc batch_size n s = (None, s') \<and>
    items s' = drop (n * turn_size batch_size) (items s) \<and> streams s' = streams s"
proof (induction n arbitrary: s)
  case 0
  then show ?case by simp
next
  case (Suc n)
  obtain s1 where s1: "items s1 = drop (turn_size batch_size) (items s)" "streams s1 = streams s"
    and c: "consume_once rt rc batch_size s = ingest_batch rt rc (take (turn_size batch_size) (items s)) s1"
    using consume_once_batch [OF assms(1)] by blast
  have "consume_once rt rc batch_size s \<in> {(Inr (), s1), (Inl RedisError, s1)}"
    using c assms(2) by (simp add: ingest_batch_def)
  then have "run_consumer rt rc batch_size (Suc n) s = run_consumer rt rc batch_size n s1" by auto
  then show ?case using Suc.IH [of s1] s1 by (auto simp: add.commute)
qed

lemma failed_pipeline_loses_batch_example:
  "let rc = store_redis\<lparr>rc_xadds := (\<lambda>s cmds. (Inl RedisError, s))\<rparr>;
       s = \<lparr>store_items = [Text ''ok'', Text ''ok''], store_streams = (\<lambda>key. [])\<rparr>
   in \<exists>s'. run_consumer (one_record_runtime ''ok'' (sample_log ''d'' 1)) rc BATCH_SIZE 1 s = (None, s') \<and>
        store_items s' = [] \<and> store_streams s' = (\<lambda>key. [])"
proof -
  let ?rc = "store_redis\<lparr>rc_xadds := (\<lambda>s cmds. (Inl RedisError, s))\<rparr>"
  have "pops_ok ?rc store_items store_streams"
    using store_redis_ok unfolding list_redis_def pops_ok_def by simp
  from failed_pipeline_loses_batch [OF this, of "one_record_runtime ''ok'' (sample_log ''d'' 1)" BATCH_SIZE 1
      "\<lparr>store_items = [Text ''ok'', Text ''ok''], store_streams = (\<lambda>key. [])\<rparr>"]
  show ?thesis by (simp add: turn_size_def BATCH_SIZE_def)
qed

end
