(* ===== verification/Producers.thy ===== *)
theory Producers
  imports Container_Listener Container_Stats System_Stats Ingest_Consumer "HOL-Library.Multiset"
begin

text \<open>
  What the three loops of \<^verbatim>\<open>log_sump_listener\<close> that ship records have in common: the shape of
  their records by kind and scope (\<open>record_typed\<close>, a type that \<^verbatim>\<open>schema.py\<close> leaves to its
  producers: its metric fields are all optional), the stream the consumer adds them to, and
  what a listener that is started again for the same container ships.
\<close>

section \<open>The shape of a shipped record\<close>

text \<open>
  A log record; a container's metrics, which carry the whole row and no \<open>system\<close> object; the
  daemon's own metrics, which name no container and carry nothing but the disk usage.
\<close>

definition container_typed :: "metric_record \<Rightarrow> bool" where
  "container_typed r \<longleftrightarrow> metric_scope r = CONTAINER \<and> source r = ''docker stats'' \<and> system r = None \<and>
     (\<exists>row. raw_data r = JObj row)"

definition system_typed :: "metric_record \<Rightarrow> bool" where
  "system_typed r \<longleftrightarrow> metric_scope r = SYSTEM \<and> container_id r = SYSTEM_SCOPE_ID \<and> container_name r = SYSTEM_SCOPE_ID \<and>
     source r \<in> {''/proc'', ''container-aggregate'', ''docker system df''} \<and> pids r = None \<and> raw_data r = JNull \<and>
     (\<forall>v. system r = Some v \<longrightarrow> (\<exists>rows. v = JObj [(''docker_disk_usage'', JObj rows)]))"

fun record_typed :: "string \<Rightarrow> sump_record \<Rightarrow> bool" where
  "record_typed h (LogRecord r) \<longleftrightarrow> docker_host r = h \<and> 1 \<le> seq r"
| "record_typed h (MetricRecord r) \<longleftrightarrow> docker_host r = h \<and> 1 \<le> seq r \<and> (container_typed r \<or> system_typed r)"

definition shipped_records :: "runtime \<Rightarrow> string \<Rightarrow> (string \<times> string \<times> stream_line list) list
    \<Rightarrow> (exec_result result \<times> 'cb registry \<times> datetime) list \<Rightarrow> metrics_source \<Rightarrow> cycle_input list \<Rightarrow> sump_record set" where
  "shipped_records rt h listeners samples src cycles =
     (\<Union>(cid, cn, lines)\<in>set listeners. LogRecord ` set (listener_records rt h cid cn 1 lines)) \<union>
     MetricRecord ` set (fst (run_container_stats rt h samples 1)) \<union>
     MetricRecord ` set (fst (run_system_stats rt h src cycles))"

lemma listener_typed: "r \<in> set (listener_records rt h cid cn 1 lines) \<Longrightarrow> record_typed h (LogRecord r)"
proof -
  assume "r \<in> set (listener_records rt h cid cn 1 lines)"
  note l = listener_records_from [OF this]
  show "record_typed h (LogRecord r)" using l parse_line_identity [OF conjunct2 [OF conjunct2 [OF l]]] by simp
qed

lemma sample_lines_typed:
  "r \<in> set (fst (sample_lines rt h ks t n lines)) \<Longrightarrow> container_typed r"
proof (induction lines arbitrary: n)
  case (Cons line lines)
  show ?case
  proof (cases rule: sample_lines_cases [of rt h ks t n line lines])
    case (error e n')
    then show ?thesis using Cons.prems by simp
  next
    case skip
    then show ?thesis using Cons.prems Cons.IH [of n] by simp
  next
    case (emit d r')
    have "container_typed r'" using parse_stats_line_identity [OF emit(2)] by (simp add: container_typed_def)
    moreover have "r = r' \<or> r \<in> set (fst (sample_lines rt h ks t (n + 1) lines))" using Cons.prems emit(3) by simp
    ultimately show ?thesis using Cons.IH by blast
  qed
qed simp

lemma stats_typed:
  assumes "r \<in> set (fst (run_container_stats rt h cycles n))"
  shows "container_typed r"
proof -
  have "\<exists>m. \<exists>c\<in>set cycles. True \<and> r \<in> set (fst (stats_cycle rt h m c))"
    by (rule stats_loop.emitted_by_a_cycle [where P = "\<lambda>n. True" and s = n]) (use assms in simp_all)
  then obtain m c where "c \<in> set cycles" "r \<in> set (fst (stats_cycle rt h m c))" by blast
  then have "r \<in> set (fst (case c of (res, reg, t) \<Rightarrow> sample_once rt h res reg t m))"
    by (auto simp: stats_cycle_def split: prod.splits option.splits)
  then show ?thesis using sample_lines_typed by (auto simp: sample_once_def split: prod.splits sum.splits)
qed

lemma sample_host_label:
  "sample_host rt src prev ci = Inr (hm, prev', label) \<Longrightarrow> label \<in> {''/proc'', ''container-aggregate'', ''docker system df''}"
  by (cases src) (auto simp: sample_host_def bind_r_eq_Inr split: option.splits)

lemma system_cycle_typed:
  assumes "system_cycle rt h src prev n ci = Inr (r, prev')"
  shows "docker_host r = h \<and> seq r = n \<and> system_typed r"
proof -
  obtain dd hm label where "sample_host rt src prev ci = Inr (hm, prev', label)"
    and r: "system_record h hm dd label (ci_now ci) n = Inr r"
    using assms by (auto simp: system_cycle_def bind_r_eq_Inr)
  from this(1) have "label \<in> {''/proc'', ''container-aggregate'', ''docker system df''}" by (rule sample_host_label)
  then show ?thesis using r
    by (auto simp: system_record_def bind_r_eq_Inr system_typed_def split: option.splits)
qed

lemma system_loop_typed:
  assumes "r \<in> set (fst (system_loop rt h src prev n cycles))"
  shows "docker_host r = h \<and> n \<le> seq r \<and> system_typed r"
proof -
  have "n \<le> snd s'" if "n \<le> snd s" "emitting_cycle rt h src s ci = (xs, Inl s')" for s ci xs s'
    using that by (auto simp: emitting_cycle_def split: sum.splits)
  then have "\<exists>s'. \<exists>ci\<in>set cycles. n \<le> snd s' \<and> r \<in> set (fst (emitting_cycle rt h src s' ci))"
    by (intro system_loops.emitted_by_a_cycle [where P = "\<lambda>s. n \<le> snd s" and s = "(prev, n)"]) (use assms in auto)
  then obtain s' ci where s': "n \<le> snd s'" and r: "r \<in> set (fst (emitting_cycle rt h src s' ci))" by blast
  obtain prev' where "system_cycle rt h src (fst s') (snd s') ci = Inr (r, prev')"
    using r by (auto simp: emitting_cycle_def split: sum.splits)
  from system_cycle_typed [OF this] show ?thesis using s' by simp
qed

lemma shipped_typed: "r \<in> shipped_records rt h listeners samples src cycles \<Longrightarrow> record_typed h r"
  using listener_typed stats_typed run_stats_records [of _ rt h samples 1] system_loop_typed
  by (fastforce simp: shipped_records_def run_system_stats_def)

text \<open>What a loop has shipped depends on no later cycle: a finite list of cycles is a prefix of a run.\<close>

lemma shipped_stays:
  "prefix (fst (run_container_stats rt h samples n)) (fst (run_container_stats rt h (samples @ further) n))"
  "prefix (fst (run_system_stats rt h src cycles)) (fst (run_system_stats rt h src (cycles @ later)))"
  using stats_loop.emitted_stays system_loops.emitted_stays [of rt h src "(None, 1)" cycles later]
  by (simp_all add: run_system_stats_def)

section \<open>A listener started again\<close>

text \<open>The record of a line but for its number.\<close>

definition unnumbered :: "log_record \<Rightarrow> log_record" where
  "unnumbered r = r\<lparr>seq := 0\<rparr>"

lemma parse_line_number: "parse_line rt h cid cn line n = map_option (\<lambda>r. r\<lparr>seq := n\<rparr>) (parse_line rt h cid cn line 0)"
  by (auto simp: parse_line_def split: option.splits prod.splits)

lemma listener_records_unnumbered:
  "map unnumbered (listener_records rt h cid cn n lines) = List.map_filter (\<lambda>l. parse_line rt h cid cn l 0) lines"
proof (induction lines arbitrary: n)
  case (Cons line lines)
  have "unnumbered (r\<lparr>seq := n\<rparr>) = r" if "parse_line rt h cid cn line 0 = Some r" for r
    using parse_line_identity [OF that] by (cases r) (simp add: unnumbered_def)
  then show ?case using Cons [of "n + 1"] parse_line_number [of rt h cid cn line n]
    by (auto simp: map_filter_Cons split: option.splits)
qed (simp add: List.map_filter_def)

lemma listener_records_append:
  "listener_records rt h cid cn n (xs @ ys) =
   listener_records rt h cid cn n xs @ listener_records rt h cid cn (n + int (length xs)) ys"
  by (induction xs arbitrary: n) (auto simp: algebra_simps split: option.splits)

lemma mset_map_filter: "mset (List.map_filter f xs) = image_mset (the \<circ> f) (filter_mset (\<lambda>x. f x \<noteq> None) (mset xs))"
  by (induction xs) (auto simp: map_filter_Cons List.map_filter_def split: option.splits)

lemma mset_by_stream: "mset lines = mset (filter (\<lambda>l. sl_stream l = STDOUT) lines) + mset (filter (\<lambda>l. sl_stream l = STDERR) lines)"
proof (induction lines)
  case (Cons line lines)
  then show ?case by (cases "sl_stream line") simp_all
qed simp

text \<open>
  Docker is the parameter \<open>docker\<close>: the lines a command writes when the container's log is \<open>hist\<close>
  by the time it has caught up. What is documented of \<open>docker logs\<close>: with no option that selects
  a part (\<open>--since\<close>, \<open>--until\<close>, \<open>--tail\<close>) it writes the whole log, each of the two streams in
  order; how it interleaves them is left open.
\<close>

type_synonym docker_client = "string list \<Rightarrow> stream_line list \<Rightarrow> stream_line list"

definition of_stream :: "stream_name \<Rightarrow> stream_line list \<Rightarrow> stream_line list" where
  "of_stream s = filter (\<lambda>l. sl_stream l = s)"

definition writes_whole_log :: "docker_client \<Rightarrow> bool" where
  "writes_whole_log docker \<longleftrightarrow>
     (\<forall>opts cid hist s. set opts \<subseteq> {''-f'', ''--timestamps''} \<and> \<not> prefix ''-'' cid \<longrightarrow>
        of_stream s (docker ([''docker'', ''logs''] @ opts @ [cid]) hist) = of_stream s hist)"

lemma whole_log_mset:
  assumes "writes_whole_log docker" and "\<not> prefix ''-'' cid"
  shows "mset (docker (logs_command cid) hist) = mset hist"
proof -
  have "of_stream s (docker ([''docker'', ''logs''] @ [''-f'', ''--timestamps''] @ [cid]) hist) = of_stream s hist" for s
    using assms(1) [unfolded writes_whole_log_def, rule_format, of "[''-f'', ''--timestamps'']"] assms(2) by simp
  then have e: "of_stream s (docker (logs_command cid) hist) = of_stream s hist" for s by (simp add: logs_command_def)
  have split: "mset l = mset (of_stream STDOUT l) + mset (of_stream STDERR l)" for l
    unfolding of_stream_def by (rule mset_by_stream)
  show ?thesis unfolding split [of "docker (logs_command cid) hist"] e by (rule split [symmetric])
qed

lemma records_mset_mono:
  assumes "mset before \<subseteq># mset now"
  shows "mset (map unnumbered (listener_records rt h cid cn n before)) \<subseteq># mset (map unnumbered (listener_records rt h cid cn n now))"
  unfolding listener_records_unnumbered mset_map_filter
  by (intro image_mset_subseteq_mono multiset_filter_mono assms)

text \<open>A docker that knows \<open>--tail\<close>, for the witness.\<close>

definition tail_docker :: docker_client where
  "tail_docker cmd hist = (if ''--tail'' \<in> set (butlast cmd) then [] else hist)"

lemma tail_docker_ok: "writes_whole_log tail_docker"
  by (auto simp: writes_whole_log_def tail_docker_def butlast_append)

section \<open>Properties\<close>

text \<open>
  What the consumer reads back of a record need not be equal (an infinite percentage comes
  back absent), but has the same daemon and kind.
\<close>

definition reads_back :: "runtime \<Rightarrow> sump_record \<Rightarrow> bool" where
  "reads_back rt r \<longleftrightarrow> (\<exists>r'. rt_validate_json rt (rt_dump_json rt r) = Some r' \<and>
     rec_docker_host r' = rec_docker_host r \<and> rec_kind r' = rec_kind r)"

text \<open>
  C28. Every record a daemon's loops ship is of one of three shapes: a log record, a container's
  metrics from \<open>docker stats\<close> with the row they came from, or the daemon's own metrics under
  \<open>__system__\<close> with a documented source and at most the disk usage as \<open>system\<close>; it carries the
  daemon's id and a positive number, and the consumer queues it for that daemon's stream of its
  kind and for no other.
\<close>

theorem shipped_records_are_typed:
  assumes "r \<in> shipped_records rt h listeners samples src cycles"
  shows "record_typed h r \<and>
    (reads_back rt r \<longrightarrow> (\<exists>d. item_xadd rt (Text (dump_json rt r)) = Some (stream_key h (rec_kind r), d)))"
proof -
  have t: "record_typed h r" by (rule shipped_typed [OF assms])
  then have "rec_docker_host r = h" by (cases r) simp_all
  then have "\<exists>d. item_xadd rt (Text (dump_json rt r)) = Some (stream_key h (rec_kind r), d)" if "reads_back rt r"
    using that by (auto simp: reads_back_def item_xadd_def validate_json_def dump_json_def)
  then show ?thesis using t by blast
qed

text \<open>
  C29. A listener that is started again for a container ships the container's history again: its
  command, \<open>docker logs -f --timestamps\<close>, asks for the whole log. Whatever an earlier listener
  had read of the log when it was stopped, the new one, once it has caught up with the log as it is
  then, has shipped a record for every record shipped before, the same but for its number;
  and when docker interleaves the two streams as before, the very same texts come first, numbers
  included.
\<close>

theorem restarted_listener_ships_history_again:
  assumes "writes_whole_log docker" and "\<not> prefix ''-'' cid" and "prefix hist hist'"
    and "before = (\<lambda>cmd. take n (docker cmd hist))" and "again = (\<lambda>cmd. docker cmd hist')"
  shows "mset (map unnumbered (listener_records rt h cid cn 1 (before (logs_command cid)))) \<subseteq>#
      mset (map unnumbered (listener_records rt h cid cn 1 (again (logs_command cid)))) \<and>
    (prefix (docker (logs_command cid) hist) (docker (logs_command cid) hist') \<longrightarrow>
      prefix (listen rt before h cid cn) (listen rt again h cid cn))"
proof
  let ?c = "logs_command cid"
  have "mset (take n (docker ?c hist)) \<subseteq># mset (docker ?c hist)" by (metis append_take_drop_id mset_append mset_subset_eq_add_left)
  moreover have "mset hist \<subseteq># mset hist'" using assms(3) by (auto elim: prefixE)
  ultimately have "mset (take n (docker ?c hist)) \<subseteq># mset (docker ?c hist')"
    unfolding whole_log_mset [OF assms(1,2)] by (rule subset_mset.order_trans)
  then show "mset (map unnumbered (listener_records rt h cid cn 1 (before ?c))) \<subseteq>#
      mset (map unnumbered (listener_records rt h cid cn 1 (again ?c)))"
    unfolding assms(4,5) by (rule records_mset_mono)
  show "prefix (docker ?c hist) (docker ?c hist') \<longrightarrow> prefix (listen rt before h cid cn) (listen rt again h cid cn)"
  proof
    assume "prefix (docker ?c hist) (docker ?c hist')"
    then have "prefix (take n (docker ?c hist)) (docker ?c hist')" using take_is_prefix prefix_order.trans by blast
    then obtain zs where "docker ?c hist' = take n (docker ?c hist) @ zs" by (rule prefixE)
    then show "prefix (listen rt before h cid cn) (listen rt again h cid cn)"
      unfolding assms(4,5) listen_def run_container_listener_def by (simp add: listener_records_append)
  qed
qed

definition one_line_rt :: runtime where
  "one_line_rt = (table_runtime [] [(''T'', \<lparr>dt_us = 0, dt_aware = True\<rparr>)])\<lparr>rt_dump_json := (\<lambda>r. show_int (rec_seq r)),
     rt_validate_json := (\<lambda>t. Some (sample_log ''d'' 1))\<rparr>"

lemma one_line_records:
  "listener_records one_line_rt ''d'' ''c'' ''web'' n [\<lparr>sl_stream = s, sl_text = ''T hi''\<rparr>] =
   [\<lparr>docker_host = ''d'', container_name = ''web'', container_id = ''c'', ts = \<lparr>dt_us = 0, dt_aware = True\<rparr>, seq = n, stream = s,
     level = ''info'', message = ''hi'', log_fields = [], raw = ''T hi''\<rparr>]"
  by (simp add: parse_line_def one_line_rt_def py_partition_def replace_char_def try_parse_json_object_def
      json_loads_def table_runtime_def DEFAULT_LEVEL_def)

theorem shipped_records_are_typed_witness:
  "let r = LogRecord \<lparr>docker_host = ''d'', container_name = ''web'', container_id = ''c'', ts = \<lparr>dt_us = 0, dt_aware = True\<rparr>, seq = 1,
         stream = STDOUT, level = ''info'', message = ''hi'', log_fields = [], raw = ''T hi''\<rparr>
   in record_typed ''d'' r \<and> (\<exists>d. item_xadd one_line_rt (Text (dump_json one_line_rt r)) = Some (stream_key ''d'' LOG, d))"
proof -
  let ?line = "\<lparr>sl_stream = STDOUT, sl_text = ''T hi''\<rparr>"
  let ?r = "LogRecord \<lparr>docker_host = ''d'', container_name = ''web'', container_id = ''c'', ts = \<lparr>dt_us = 0, dt_aware = True\<rparr>, seq = 1,
    stream = STDOUT, level = ''info'', message = ''hi'', log_fields = [], raw = ''T hi''\<rparr>"
  have s: "?r \<in> shipped_records one_line_rt ''d'' [(''c'', ''web'', [?line])] ([] :: (exec_result result \<times> unit registry \<times> datetime) list)
      NO_SOURCE []"
    unfolding shipped_records_def list.set UN_insert prod.case one_line_records by simp
  have b: "reads_back one_line_rt ?r" by (simp add: reads_back_def one_line_rt_def sample_log_def)
  show ?thesis unfolding Let_def using shipped_records_are_typed [OF s] b by simp
qed

theorem restarted_listener_ships_history_again_witness:
  "let out = \<lparr>sl_stream = STDOUT, sl_text = ''T hi''\<rparr>; err = \<lparr>sl_stream = STDERR, sl_text = ''T hi''\<rparr>
   in \<exists>more. listen one_line_rt (\<lambda>cmd. tail_docker cmd [out, err]) ''d'' ''c'' ''web'' =
        listen one_line_rt (\<lambda>cmd. take 1 (tail_docker cmd [out])) ''d'' ''c'' ''web'' @ more \<and>
        listen one_line_rt (\<lambda>cmd. take 1 (tail_docker cmd [out])) ''d'' ''c'' ''web'' = [''1'']"
proof -
  let ?out = "\<lparr>sl_stream = STDOUT, sl_text = ''T hi''\<rparr>" and ?err = "\<lparr>sl_stream = STDERR, sl_text = ''T hi''\<rparr>"
  have p: "prefix [?out] [?out, ?err]" by simp
  have t: "tail_docker (logs_command ''c'') l = l" for l by (simp add: tail_docker_def logs_command_def)
  have c: "\<not> prefix ''-'' ''c''" by simp
  note th = restarted_listener_ships_history_again [OF tail_docker_ok c p refl refl, of one_line_rt "''d''" "''web''" 1]
  have one: "listen one_line_rt (\<lambda>cmd. take 1 (tail_docker cmd [?out])) ''d'' ''c'' ''web'' = [''1'']"
    unfolding listen_def t run_container_listener_def take_Suc_Cons One_nat_def take_0 one_line_records
    by (simp add: dump_json_def one_line_rt_def) code_simp
  have "prefix (listen one_line_rt (\<lambda>cmd. take 1 (tail_docker cmd [?out])) ''d'' ''c'' ''web'')
      (listen one_line_rt (\<lambda>cmd. tail_docker cmd [?out, ?err]) ''d'' ''c'' ''web'')"
    using conjunct2 [OF th] p unfolding t by (rule mp)
  then show ?thesis using one unfolding Let_def prefix_def by blast
qed

end
