(* ===== verification/Listener_Lifecycle.thy ===== *)
theory Listener_Lifecycle
  imports Config
begin

text \<open>
  The listener process from start to exit: the records logger of \<^verbatim>\<open>logging_setup.py\<close>, the loops
  that \<open>run_daemon\<close> and \<open>run\<close> of \<^verbatim>\<open>app.py\<close> start from the settings, and the shutdown of
  \<^verbatim>\<open>__main__.py\<close>. The Logstash handler is third-party: what the code does to it is kept as a
  trace of calls. What the loops do is modelled in their own theories; here a loop is its
  parameters and, when it ends, its outcome.
\<close>

section \<open>The records logger\<close>

record handler =
  h_host :: string
  h_port :: int
  h_database_path :: string

datatype handler_call = Emitted handler string | Flushed handler | Closed handler

record stdlib_logger =
  lg_level :: int
  lg_propagate :: bool
  lg_handlers :: "handler list"
  lg_calls :: "handler_call list"

definition build_records_logger :: "string \<Rightarrow> int \<Rightarrow> string \<Rightarrow> stdlib_logger \<Rightarrow> stdlib_logger" where
  "build_records_logger host port path lg =
     lg\<lparr>lg_level := 20, lg_propagate := False,
        lg_handlers := [\<lparr>h_host = host, h_port = port, h_database_path = path\<rparr>]\<rparr>"

text \<open>
  The other logger, for diagnostics: \<open>configure_logging\<close> replaces structlog's whole global
  configuration. A filtering bound logger drops what is below its level; the rest is printed.
\<close>

datatype log_processor = TimeStamper string | AddLogLevel | ConsoleRenderer

record structlog_config =
  sc_processors :: "log_processor list"
  sc_level :: int
  sc_to_stdout :: bool
  sc_cached :: bool

definition configure_logging :: "int \<Rightarrow> structlog_config" where
  "configure_logging lvl =
     \<lparr>sc_processors = [TimeStamper ''iso'', AddLogLevel, ConsoleRenderer], sc_level = lvl, sc_to_stdout = True, sc_cached = True\<rparr>"

definition console_lines :: "structlog_config \<Rightarrow> (int \<times> string) list \<Rightarrow> string list" where
  "console_lines sc events = (if sc_to_stdout sc then map snd (filter (\<lambda>ev. sc_level sc \<le> fst ev) events) else [])"

text \<open>\<open>await logger.ainfo(event)\<close>: INFO passes the level check and reaches every handler once.\<close>

definition ainfo :: "string \<Rightarrow> stdlib_logger \<Rightarrow> stdlib_logger" where
  "ainfo event lg =
     (if lg_level lg \<le> 20 then lg\<lparr>lg_calls := lg_calls lg @ map (\<lambda>h. Emitted h event) (lg_handlers lg)\<rparr> else lg)"

definition close_records_logger :: "stdlib_logger \<Rightarrow> stdlib_logger" where
  "close_records_logger lg = lg\<lparr>lg_calls := lg_calls lg @ concat (map (\<lambda>h. [Flushed h, Closed h]) (lg_handlers lg))\<rparr>"

section \<open>The loops of a daemon\<close>

datatype loop_task =
    ContainersListing string transport pyfloat
  | TrackerLoop string pyfloat int
  | ContainerStats string transport pyfloat
  | SystemStats string transport pyfloat metrics_source

definition daemon_loops :: "settings \<Rightarrow> daemon_config \<Rightarrow> transport \<Rightarrow> loop_task list" where
  "daemon_loops st d tr =
     [ContainersListing (dc_id d) tr (listing_interval_s (st_listener st)),
      TrackerLoop (dc_id d) (tracker_interval_s (st_listener st)) (missing_threshold_cycles (st_listener st))] @
     (if mc_enabled (st_metrics st)
      then [ContainerStats (dc_id d) tr (stats_interval_s (st_listener st))] @
        (if system_enabled (st_metrics st)
         then [SystemStats (dc_id d) tr (effective_system_stats_interval_s (st_listener st))
           (system_metrics_source (st_metrics st))] else [])
      else [])"

text \<open>One transport per daemon ID: of daemons with the same ID the last one's.\<close>

definition transports_by_daemon :: "settings \<Rightarrow> string \<Rightarrow> transport option" where
  "transports_by_daemon st = map_of (rev (map (\<lambda>d. (dc_id d, build_transport d)) (enabled_daemons st)))"

definition loops_of :: "settings \<Rightarrow> loop_task list list" where
  "loops_of st = map (\<lambda>d. daemon_loops st d (the (transports_by_daemon st (dc_id d)))) (enabled_daemons st)"

section \<open>Gathering\<close>

text \<open>
  \<open>asyncio.gather\<close> over the awaitables still pending, for the outcomes in the order in which
  they come: it returns when all have, and raises as soon as one does, without cancelling the
  others. \<open>None\<close> is still waiting.
\<close>

fun gather :: "nat list \<Rightarrow> (nat \<times> unit result) list \<Rightarrow> unit result option" where
  "gather [] evs = Some (Inr ())"
| "gather (p # ps) [] = None"
| "gather (p # ps) ((i, r) # evs) =
     (if i \<in> set (p # ps) then (case r of Inl e \<Rightarrow> Some (Inl e) | Inr u \<Rightarrow> gather (removeAll i (p # ps)) evs)
      else gather (p # ps) evs)"

text \<open>Events are the outcomes of loops, named by their daemon's and their own position.\<close>

type_synonym loop_event = "nat \<times> nat \<times> unit result"

definition run_daemon :: "loop_task list \<Rightarrow> (nat \<times> unit result) list \<Rightarrow> unit result option" where
  "run_daemon loops evs = gather [0..<length loops] evs"

definition daemon_result :: "loop_task list list \<Rightarrow> nat \<Rightarrow> loop_event list \<Rightarrow> unit result option" where
  "daemon_result loops d evs =
     (if d < length loops then run_daemon (loops ! d) (map snd (filter (\<lambda>ev. fst ev = d) evs)) else None)"

text \<open>When each daemon's \<open>run_daemon\<close> ends, in order.\<close>

fun completions :: "loop_task list list \<Rightarrow> loop_event list \<Rightarrow> loop_event list \<Rightarrow> (nat \<times> unit result) list" where
  "completions loops seen [] = []"
| "completions loops seen (ev # evs) =
     (case (daemon_result loops (fst ev) seen, daemon_result loops (fst ev) (seen @ [ev])) of
        (None, Some r) \<Rightarrow> [(fst ev, r)]
      | _ \<Rightarrow> []) @ completions loops (seen @ [ev]) evs"

definition run :: "settings \<Rightarrow> loop_event list \<Rightarrow> unit result option" where
  "run st evs =
     (if enabled_daemons st = [] then Some (Inr ())
      else gather [0..<length (loops_of st)] (completions (loops_of st) [] evs))"

section \<open>Shutdown\<close>

text \<open>\<open>suppress(CancelledError)\<close> around \<open>await run_task\<close>, then the closing of the logger.\<close>

definition await_and_close :: "unit result \<Rightarrow> stdlib_logger \<Rightarrow> unit result \<times> stdlib_logger" where
  "await_and_close r lg =
     (case r of
        Inr u \<Rightarrow> (Inr (), close_records_logger lg)
      | Inl e \<Rightarrow> if e = CancelledError then (Inr (), close_records_logger lg) else (Inl e, lg))"

text \<open>
  The process up to the closing of the logger, which is built from the settings and through
  which \<open>events\<close> are shipped before that. Either \<open>run\<close> ends by itself, or a signal has it cancelled and it ends as \<open>cancelled\<close> says;
  \<open>None\<close> is a process that still runs.
\<close>

definition run_until_signal :: "settings \<Rightarrow> loop_event list \<Rightarrow> string list \<Rightarrow> bool \<Rightarrow> unit result \<Rightarrow> stdlib_logger
    \<Rightarrow> (unit result \<times> stdlib_logger) option" where
  "run_until_signal st evs events signalled cancelled lg =
     (let lg1 = build_records_logger (ls_host (st_logstash st)) (ls_port (st_logstash st)) (database_path (st_logstash st)) lg;
          lg2 = fold ainfo events lg1
      in case run st evs of
           Some r \<Rightarrow> Some (await_and_close r lg2)
         | None \<Rightarrow> if signalled then Some (await_and_close cancelled lg2) else None)"

text \<open>
  The end of the process. \<open>logging\<close> of the standard library registers \<open>logging.shutdown\<close> to run
  at interpreter exit, after an exception as well: it flushes and closes every handler there
  is, in the reverse order of their creation.
\<close>

definition logging_shutdown :: "stdlib_logger \<Rightarrow> stdlib_logger" where
  "logging_shutdown lg = lg\<lparr>lg_calls := lg_calls lg @ concat (map (\<lambda>h. [Flushed h, Closed h]) (rev (lg_handlers lg)))\<rparr>"

text \<open>
  \<open>main\<close>: \<open>asyncio.run\<close> and the exit. \<open>late\<close> is what the container listeners still hand over
  between the end of \<open>_run_until_signal\<close> and the end of the event loop.
\<close>

definition main :: "settings \<Rightarrow> loop_event list \<Rightarrow> string list \<Rightarrow> bool \<Rightarrow> unit result \<Rightarrow> string list \<Rightarrow> stdlib_logger
    \<Rightarrow> (unit result \<times> stdlib_logger) option" where
  "main st evs events signalled cancelled late lg =
     map_option (\<lambda>(res, lg'). (res, logging_shutdown (fold ainfo late lg')))
       (run_until_signal st evs events signalled cancelled lg)"

text \<open>The outcome of a loop that ends only with an exception; \<open>None\<close> is one that goes on.\<close>

definition loop_outcome :: "'o list \<times> py_error option \<Rightarrow> unit result option" where
  "loop_outcome l = map_option Inl (snd l)"

section \<open>Lemmas\<close>

text \<open>
  The two loggers never meet: a shipped record is not passed on to the root logger's console
  handler, and a diagnostic line leaves the records logger as it was. \<open>main\<close> configures the
  level \<open>INFO\<close>, so warnings are printed and debug lines are not.
\<close>

lemma records_stay_off_console:
  "lg_propagate (fold ainfo events (build_records_logger host port path lg)) = False"
proof -
  have "lg_propagate (fold ainfo events l) = lg_propagate l" for l
    by (induction events arbitrary: l) (simp_all add: ainfo_def)
  then show ?thesis by (simp add: build_records_logger_def)
qed

lemma info_level_console: "console_lines (configure_logging 20) [(10, d), (20, i), (30, w)] = [i, w]"
  by (simp add: console_lines_def configure_logging_def)

definition handler_of :: "settings \<Rightarrow> handler" where
  "handler_of st = \<lparr>h_host = ls_host (st_logstash st), h_port = ls_port (st_logstash st),
     h_database_path = database_path (st_logstash st)\<rparr>"

lemma fold_ainfo:
  "lg_level lg \<le> 20 \<Longrightarrow>
   fold ainfo events lg = lg\<lparr>lg_calls := lg_calls lg @ concat (map (\<lambda>e. map (\<lambda>h. Emitted h e) (lg_handlers lg)) events)\<rparr>"
  by (induction events arbitrary: lg) (simp_all add: ainfo_def)

lemma concat_map_single [simp]: "concat (map (\<lambda>x. [f x]) xs) = map f xs"
  by (induction xs) simp_all

lemma shipped_calls:
  "lg_calls (fold ainfo events (build_records_logger (ls_host (st_logstash st)) (ls_port (st_logstash st)) (database_path (st_logstash st)) lg)) =
     lg_calls lg @ map (Emitted (handler_of st)) events"
  "lg_handlers (fold ainfo events (build_records_logger (ls_host (st_logstash st)) (ls_port (st_logstash st)) (database_path (st_logstash st)) lg)) =
     [handler_of st]"
  by (simp_all add: fold_ainfo build_records_logger_def handler_of_def)

lemma daemon_loops_nonempty: "0 < length (daemon_loops st d tr)"
  by (simp add: daemon_loops_def)

lemma gather_waits: "0 < n \<Longrightarrow> gather [0..<n] [] = None"
  by (cases "[0..<n]") auto

lemma gather_raises: "i \<in> set ps \<Longrightarrow> gather ps ((i, Inl e) # evs) = Some (Inl e)"
  by (cases ps) auto

text \<open>No loop is confined to its daemon: the first to fail, wherever it is, makes \<open>run\<close> raise.\<close>

lemma run_first_failure:
  assumes "d < length (loops_of st)" and "i < length (loops_of st ! d)"
  shows "run st ((d, i, Inl e) # evs) = Some (Inl e)"
proof -
  let ?L = "loops_of st"
  have "0 < length (?L ! d)" using assms(2) by linarith
  then have none: "daemon_result ?L d [] = None"
    using assms(1) gather_waits by (simp add: daemon_result_def run_daemon_def)
  have "daemon_result ?L d [(d, i, Inl e)] = Some (Inl e)"
    using assms gather_raises [of i "[0..<length (?L ! d)]"] by (simp add: daemon_result_def run_daemon_def)
  then have "completions ?L [] ((d, i, Inl e) # evs) = (d, Inl e) # completions ?L [(d, i, Inl e)] evs"
    using none by simp
  moreover have "enabled_daemons st \<noteq> []" using assms(1) by (auto simp: loops_of_def)
  ultimately show ?thesis using assms(1) gather_raises [of d "[0..<length ?L]"] by (simp add: run_def)
qed

lemma loops_of_nth:
  assumes "d < length (enabled_daemons st)" and "mc_enabled (st_metrics st)" and "system_enabled (st_metrics st)"
  shows "\<exists>tr. length (loops_of st ! d) = 4 \<and> loops_of st ! d ! 3 = SystemStats (dc_id (enabled_daemons st ! d)) tr
     (effective_system_stats_interval_s (st_listener st)) (system_metrics_source (st_metrics st))"
  using assms by (simp add: loops_of_def daemon_loops_def)

lemma loops_of_length [simp]: "length (loops_of st) = length (enabled_daemons st)"
  by (simp add: loops_of_def)

text \<open>
  The four resource switches of the metrics settings decide nothing: the loops of every daemon
  and their parameters are the same however they are set.
\<close>

lemma resource_switches_have_no_effect:
  "loops_of (st\<lparr>st_metrics := (st_metrics st)\<lparr>cpu_enabled := c, memory_enabled := m, disk_enabled := d, network_enabled := n\<rparr>\<rparr>) = loops_of st"
  by (simp add: loops_of_def daemon_loops_def enabled_daemons_def transports_by_daemon_def)

text \<open>
  A process whose \<open>run\<close> failed: \<open>_run_until_signal\<close> raises before it closes the logger, so the
  handler is flushed and closed at the exit of the interpreter and only there.
\<close>

lemma main_failed:
  assumes "run st evs = Some (Inl e)" and "e \<noteq> CancelledError"
  shows "\<exists>lg'. main st evs events signalled cancelled late lg = Some (Inl e, lg') \<and>
    lg_calls lg' = lg_calls lg @ map (Emitted (handler_of st)) (events @ late) @ [Flushed (handler_of st), Closed (handler_of st)]"
proof -
  let ?lg = "build_records_logger (ls_host (st_logstash st)) (ls_port (st_logstash st)) (database_path (st_logstash st)) lg"
  have "main st evs events signalled cancelled late lg = Some (Inl e, logging_shutdown (fold ainfo (events @ late) ?lg))"
    using assms by (simp add: main_def run_until_signal_def Let_def await_and_close_def)
  then show ?thesis using shipped_calls [of "events @ late" st lg] by (simp add: logging_shutdown_def)
qed

text \<open>A process that was stopped by a signal: closed by \<open>close_records_logger\<close>, and again at the exit.\<close>

lemma main_stopped:
  assumes "run st evs = None" and "cancelled = Inl CancelledError"
  shows "\<exists>lg'. main st evs events True cancelled late lg = Some (Inr (), lg') \<and>
    lg_calls lg' = lg_calls lg @ map (Emitted (handler_of st)) events @ [Flushed (handler_of st), Closed (handler_of st)] @
      map (Emitted (handler_of st)) late @ [Flushed (handler_of st), Closed (handler_of st)]"
proof -
  let ?lg = "fold ainfo events (build_records_logger (ls_host (st_logstash st)) (ls_port (st_logstash st)) (database_path (st_logstash st)) lg)"
  have "lg_level ?lg \<le> 20" by (simp add: fold_ainfo build_records_logger_def)
  then have "lg_level (close_records_logger ?lg) \<le> 20" by (simp add: close_records_logger_def)
  from fold_ainfo [OF this, of late] show ?thesis using assms shipped_calls [of events st lg]
    by (simp add: main_def run_until_signal_def Let_def await_and_close_def close_records_logger_def logging_shutdown_def)
qed

end
