(* ===== verification/Listener_World.thy ===== *)
theory Listener_World
  imports Orchestrator Producers Listener_Lifecycle
begin

text \<open>
  The listener process as a whole: the loops of \<open>Orchestrator\<close>, the container listeners they
  spawn reading their lines (\<^verbatim>\<open>container_listener.py\<close>), the executor threads in which
  \<open>await records_logger.ainfo(...)\<close> runs the handler, and the shutdown of \<^verbatim>\<open>__main__.py\<close>.

  A listener task reads a line and hands its record to a thread in one stretch, and goes on
  when the thread is done. Cancelling the task does not stop a thread that has begun: the
  record may still reach the handler afterwards, or never, when the thread had not begun.
  At a signal \<open>run_task.cancel()\<close> reaches, through the two \<open>gather\<close>s, the loops and nothing
  else; the listener tasks are cancelled by \<open>asyncio.run\<close> after \<open>_run_until_signal\<close> has
  returned. \<open>w_lines\<close> and \<open>w_trace\<close> are histories: the lines each task has read, the calls
  to the records logger.
\<close>

section \<open>State and steps\<close>

datatype world_event = Shipped nat log_record | LoggerClosed | AtExit

text \<open>
  Where \<open>_run_until_signal\<close> is: waiting; waiting for the cancelled \<open>run_task\<close>; returned with a
  result; with all remaining tasks cancelled by \<open>asyncio.run\<close>; and the process gone, after
  the handlers registered to run at its exit (\<open>AtExit\<close>).
\<close>

datatype phase = Serving | Stopping | Returned "unit result" | Final "unit result" | Exited "unit result"

record world =
  w_sys :: system
  w_lines :: "nat \<Rightarrow> stream_line list"
  w_thread :: "nat \<Rightarrow> log_record option"
  w_trace :: "world_event list"
  w_phase :: phase

definition init_world :: "string list \<Rightarrow> int \<Rightarrow> world" where
  "init_world hosts cap =
     \<lparr>w_sys = init_system hosts cap, w_lines = (\<lambda>i. []), w_thread = (\<lambda>i. None), w_trace = [], w_phase = Serving\<rparr>"

definition task_phase :: "system \<Rightarrow> nat \<Rightarrow> task_state option" where
  "task_phase s i = map_option task_st (task_of s i)"

definition alive :: "system \<Rightarrow> nat \<Rightarrow> bool" where
  "alive s i \<longleftrightarrow> task_phase s i \<in> {Some Running, Some Cancelling}"

text \<open>The record of the next line of a task: its lines are numbered from 1.\<close>

definition next_record :: "runtime \<Rightarrow> world \<Rightarrow> nat \<Rightarrow> stream_line \<Rightarrow> log_record option" where
  "next_record rt w i l =
     (case task_of (w_sys w) i of
        None \<Rightarrow> None
      | Some t \<Rightarrow> parse_line rt (task_host t) (task_cid t) (task_cname t) l (int (length (w_lines w i)) + 1))"

text \<open>A task whose record is in a thread is inside \<open>ainfo\<close> and does not end by itself.\<close>

definition threads_awaited :: "world \<Rightarrow> system \<Rightarrow> bool" where
  "threads_awaited w s' \<longleftrightarrow>
     (\<forall>i. task_phase (w_sys w) i = Some Running \<and> w_thread w i \<noteq> None \<longrightarrow> alive s' i)"

text \<open>
  Cancelling a loop at its \<open>await\<close>. A listing loop ends, giving its semaphore permit back when
  it holds one. A tracker that awaits a stopped listener does not: the cancellation is
  passed on to that listener (cancelled already), and its \<open>CancelledError\<close>, or the tracker's
  own when the listener has ended, is what \<open>stop\<close> swallows.
\<close>

definition cancel_listing :: "string \<Rightarrow> system \<Rightarrow> system" where
  "cancel_listing h s =
     (case sys_lpc s h of
        LDead e \<Rightarrow> s
      | LLog ref refs \<Rightarrow> set_ev (set_lpc s h (LDead CancelledError)) (release (sys_ev s))
      | _ \<Rightarrow> set_lpc s h (LDead CancelledError))"

definition cancel_tracker :: "string \<Rightarrow> system \<Rightarrow> system" where
  "cancel_tracker h s =
     (case sys_tpc s h of
        TDead e \<Rightarrow> s
      | TAwait c tid cs \<Rightarrow>
          if alive s tid then s else set_reg (set_tpc s h (TLoop cs)) (forget (sys_reg s) h c)
      | _ \<Rightarrow> set_tpc s h (TDead CancelledError))"

definition cancel_loops :: "string list \<Rightarrow> system \<Rightarrow> system" where
  "cancel_loops hosts s = fold (\<lambda>h s. cancel_tracker h (cancel_listing h s)) (remdups hosts) s"

definition cancelled_task :: "task \<Rightarrow> task" where
  "cancelled_task t = (if task_st t = Running then t\<lparr>task_st := Cancelling\<rparr> else t)"

definition cancel_listeners :: "system \<Rightarrow> system" where
  "cancel_listeners s =
     set_ev s ((sys_ev s)\<lparr>task_table := (\<lambda>i. map_option cancelled_task (task_table (sys_ev s) i))\<rparr>)"

text \<open>No loop is inside a stretch without \<open>await\<close>: it is at an \<open>await\<close> or has ended.\<close>

definition settled :: "string list \<Rightarrow> system \<Rightarrow> bool" where
  "settled hosts s \<longleftrightarrow> (\<forall>h\<in>set hosts.
     (case sys_lpc s h of LNotify refs \<Rightarrow> False | _ \<Rightarrow> True) \<and> (case sys_tpc s h of TLoop cs \<Rightarrow> False | _ \<Rightarrow> True))"

definition loops_dead :: "string list \<Rightarrow> system \<Rightarrow> bool" where
  "loops_dead hosts s \<longleftrightarrow> (\<forall>h\<in>set hosts.
     (case sys_lpc s h of LDead e \<Rightarrow> True | _ \<Rightarrow> False) \<and> (case sys_tpc s h of TDead e \<Rightarrow> True | _ \<Rightarrow> False))"

definition all_quiet :: "string list \<Rightarrow> world \<Rightarrow> bool" where
  "all_quiet hosts w \<longleftrightarrow> loops_dead hosts (w_sys w) \<and>
     (\<forall>i < next_task (sys_ev (w_sys w)). \<not> alive (w_sys w) i \<and> w_thread w i = None)"

inductive world_step :: "runtime \<Rightarrow> string list \<Rightarrow> int \<Rightarrow> world \<Rightarrow> world \<Rightarrow> bool" for rt hosts thr where
  w_loops: "\<lbrakk>sys_step hosts thr (w_sys w) s'; threads_awaited w s'; \<forall>r. w_phase w \<noteq> Exited r\<rbrakk> \<Longrightarrow>
    world_step rt hosts thr w (w\<lparr>w_sys := s'\<rparr>)"
| w_read: "\<lbrakk>task_phase (w_sys w) i = Some Running; w_thread w i = None; next_record rt w i l = Some r\<rbrakk> \<Longrightarrow>
    world_step rt hosts thr w
      (w\<lparr>w_lines := (w_lines w)(i := w_lines w i @ [l]), w_thread := (w_thread w)(i := Some r)\<rparr>)"
| w_skip: "\<lbrakk>task_phase (w_sys w) i = Some Running; w_thread w i = None; next_record rt w i l = None\<rbrakk> \<Longrightarrow>
    world_step rt hosts thr w (w\<lparr>w_lines := (w_lines w)(i := w_lines w i @ [l])\<rparr>)"
| w_ship: "w_thread w i = Some r \<Longrightarrow>
    world_step rt hosts thr w
      (w\<lparr>w_thread := (w_thread w)(i := None), w_trace := w_trace w @ [Shipped i r]\<rparr>)"
| w_lost: "\<lbrakk>w_thread w i = Some r; task_phase (w_sys w) i \<noteq> Some Running\<rbrakk> \<Longrightarrow>
    world_step rt hosts thr w (w\<lparr>w_thread := (w_thread w)(i := None)\<rparr>)"
| w_signal: "\<lbrakk>w_phase w = Serving; hosts \<noteq> []; settled hosts (w_sys w)\<rbrakk> \<Longrightarrow>
    world_step rt hosts thr w (w\<lparr>w_sys := cancel_loops hosts (w_sys w), w_phase := Stopping\<rparr>)"
| w_failed: "\<lbrakk>w_phase w \<in> {Serving, Stopping}; hosts \<noteq> []; e \<noteq> CancelledError\<rbrakk> \<Longrightarrow>
    world_step rt hosts thr w (w\<lparr>w_phase := Returned (Inl e)\<rparr>)"
| w_closed: "\<lbrakk>w_phase w = Stopping; h \<in> set hosts;
    sys_lpc (w_sys w) h = LDead CancelledError \<or> sys_tpc (w_sys w) h = TDead CancelledError\<rbrakk> \<Longrightarrow>
    world_step rt hosts thr w (w\<lparr>w_trace := w_trace w @ [LoggerClosed], w_phase := Returned (Inr ())\<rparr>)"
| w_no_daemons: "\<lbrakk>w_phase w = Serving; hosts = []\<rbrakk> \<Longrightarrow>
    world_step rt hosts thr w (w\<lparr>w_trace := w_trace w @ [LoggerClosed], w_phase := Returned (Inr ())\<rparr>)"
| w_final: "\<lbrakk>w_phase w = Returned r; settled hosts (w_sys w)\<rbrakk> \<Longrightarrow>
    world_step rt hosts thr w
      (w\<lparr>w_sys := cancel_listeners (cancel_loops hosts (w_sys w)), w_phase := Final r\<rparr>)"
| w_exit: "\<lbrakk>w_phase w = Final r; all_quiet hosts w\<rbrakk> \<Longrightarrow>
    world_step rt hosts thr w (w\<lparr>w_trace := w_trace w @ [AtExit], w_phase := Exited r\<rparr>)"

abbreviation world_steps :: "runtime \<Rightarrow> string list \<Rightarrow> int \<Rightarrow> world \<Rightarrow> world \<Rightarrow> bool" where
  "world_steps rt hosts thr \<equiv> (world_step rt hosts thr)\<^sup>*\<^sup>*"

definition reachable_world :: "runtime \<Rightarrow> string list \<Rightarrow> int \<Rightarrow> int \<Rightarrow> world \<Rightarrow> bool" where
  "reachable_world rt hosts thr cap w \<longleftrightarrow> world_steps rt hosts thr (init_world hosts cap) w"

text \<open>The records a task has shipped, and all of them.\<close>

fun by_task :: "nat \<Rightarrow> world_event list \<Rightarrow> log_record list" where
  "by_task i [] = []"
| "by_task i (Shipped j r # es) = (if j = i then r # by_task i es else by_task i es)"
| "by_task i (LoggerClosed # es) = by_task i es"
| "by_task i (AtExit # es) = by_task i es"

fun shipped :: "world_event list \<Rightarrow> log_record list" where
  "shipped [] = []"
| "shipped (Shipped j r # es) = r # shipped es"
| "shipped (LoggerClosed # es) = shipped es"
| "shipped (AtExit # es) = shipped es"

text \<open>What the calls do to the stdlib logger.\<close>

fun log_event :: "runtime \<Rightarrow> world_event \<Rightarrow> stdlib_logger \<Rightarrow> stdlib_logger" where
  "log_event rt (Shipped i r) lg = ainfo (dump_json rt (LogRecord r)) lg"
| "log_event rt LoggerClosed lg = close_records_logger lg"
| "log_event rt AtExit lg = logging_shutdown lg"

definition logger_of :: "runtime \<Rightarrow> world_event list \<Rightarrow> stdlib_logger \<Rightarrow> stdlib_logger" where
  "logger_of rt tr lg = fold (log_event rt) tr lg"

lemma by_task_append [simp]: "by_task i (xs @ ys) = by_task i xs @ by_task i ys"
  by (induction xs rule: by_task.induct [of _ i]) simp_all

lemma shipped_append [simp]: "shipped (xs @ ys) = shipped xs @ shipped ys"
  by (induction xs rule: shipped.induct) simp_all

lemma by_task_subseq: "subseq (by_task i es) (shipped es)"
  by (induction es rule: by_task.induct [of _ i]) (auto intro: subseq_Cons')

lemma by_task_Nil: "by_task i es = [] \<longleftrightarrow> (\<forall>r. Shipped i r \<notin> set es)"
  by (induction es rule: by_task.induct [of _ i]) auto

lemma shipped_set: "r \<in> set (shipped es) \<longleftrightarrow> (\<exists>i. Shipped i r \<in> set es)"
  by (induction es rule: shipped.induct) auto

lemma by_task_set: "r \<in> set (by_task i es) \<longleftrightarrow> Shipped i r \<in> set es"
  by (induction es rule: by_task.induct [of _ i]) auto

section \<open>Tasks over the steps\<close>

text \<open>
  The part of \<open>task_inv\<close> that also survives the shutdown, when registered tasks are cancelled
  without leaving their manager.
\<close>

definition run_inv :: "system \<Rightarrow> bool" where
  "run_inv s \<longleftrightarrow>
     (\<forall>h m. sys_mgrs s h = Some m \<longrightarrow> mgr_host m = h) \<and>
     (\<forall>i h c. runs s i h c \<longrightarrow> registered s h c = Some i) \<and>
     (\<forall>i. task_of s i \<noteq> None \<longrightarrow> i < next_task (sys_ev s))"

lemma run_inv_D:
  assumes "run_inv s"
  shows "sys_mgrs s h = Some m \<Longrightarrow> mgr_host m = h"
    and "runs s i h c \<Longrightarrow> registered s h c = Some i"
    and "task_of s i \<noteq> None \<Longrightarrow> i < next_task (sys_ev s)"
  using assms unfolding run_inv_def by blast+

definition same_task :: "task \<Rightarrow> task \<Rightarrow> bool" where
  "same_task t t' \<longleftrightarrow> task_host t' = task_host t \<and> task_cid t' = task_cid t \<and> task_cname t' = task_cname t"

lemma same_task_simps [simp]: "same_task t t" "same_task t (t\<lparr>task_st := st\<rparr>)"
  by (simp_all add: same_task_def)

lemma cancelled_task_simps [simp]: "same_task t (cancelled_task t)" "task_st (cancelled_task t) \<noteq> Running"
  by (simp_all add: cancelled_task_def)

lemma cancel_task_of:
  "task_table (cancel_task ev tid) i = (if i = tid then map_option cancelled_task (task_table ev tid) else task_table ev i)"
  by (simp add: cancelled_task_def [abs_def])

text \<open>
  A step keeps every task's identity and restarts none; the one task it may add runs, and no
  task was registered for its container.
\<close>

lemma task_kept:
  assumes "sys_step hosts thr s s'" and inv: "run_inv s" and "task_of s i = Some t"
  shows "\<exists>t'. task_of s' i = Some t' \<and> same_task t t' \<and> (task_st t \<noteq> Running \<longrightarrow> task_st t' \<noteq> Running)"
  using assms(1)
proof (cases rule: sys_step.cases)
  case (acquire_spawn h ref refs m m' ev')
  have "i \<noteq> next_task (sys_ev s)" using run_inv_D(3) [OF inv, of i] assms(3) by auto
  then show ?thesis using assms(3) acquire_spawn(1) spawn_locked_Some(3) [OF acquire_spawn(5)]
    by (simp add: task_of_def)
next
  case (stop_cancel h c cs m tid m')
  then show ?thesis using assms(3) by (auto simp: task_of_def cancel_task_of simp del: cancel_task_simps(3))
qed (use assms(3) in \<open>auto simp: task_of_def\<close>)

lemma task_added:
  assumes "sys_step hosts thr s s'" and inv: "run_inv s" and "task_of s i = None" and "task_of s' i = Some t"
  shows "i = next_task (sys_ev s) \<and> registered s (task_host t) (task_cid t) = None"
  using assms(1)
proof (cases rule: sys_step.cases)
  case (acquire_spawn h ref refs m m' ev')
  note sp = spawn_locked_Some [OF acquire_spawn(5)]
  have "mgr_host m = h" using run_inv_D(1) [OF inv acquire_spawn(4)] .
  then show ?thesis using assms(3,4) acquire_spawn(1,4) sp(1,3)
    by (auto simp: task_of_def registered_def split: if_splits)
qed (use assms(3,4) in \<open>auto simp: task_of_def split: if_splits\<close>)

lemma run_inv_frame:
  assumes "run_inv s" and "sys_mgrs s' = sys_mgrs s" and "next_task (sys_ev s') = next_task (sys_ev s)"
    and "\<And>i. task_of s' i = None \<longleftrightarrow> task_of s i = None" and "\<And>i h c. runs s' i h c \<Longrightarrow> runs s i h c"
  shows "run_inv s'"
  using assms unfolding run_inv_def registered_def by auto

lemma run_inv_init: "run_inv (init_system hosts cap)"
  by (auto simp: run_inv_def init_system_def runs_def task_of_def new_manager_def split: if_splits)

lemma run_inv_step:
  assumes "sys_step hosts thr s s'" and inv: "run_inv s"
  shows "run_inv s'"
  using assms(1)
proof (cases rule: sys_step.cases)
  case (acquire_spawn h ref refs m m' ev')
  note sp = spawn_locked_Some [OF acquire_spawn(5)]
  have host: "mgr_host m = h" using run_inv_D(1) [OF inv acquire_spawn(4)] .
  have none: "registered s h (ref_id ref) = None" using sp(1) acquire_spawn(4) by (simp add: registered_def)
  have "registered s' h' c = Some i" if "runs s' i h' c" for i h' c
    using that run_inv_D(2) [OF inv, of i h' c] none acquire_spawn(1,4) host
    by (auto simp: runs_def task_of_def sp(2,3) registered_def split: if_splits)
  moreover have "i < next_task (sys_ev s')" if "task_of s' i \<noteq> None" for i
    using that run_inv_D(3) [OF inv, of i] acquire_spawn(1) by (auto simp: task_of_def sp(3,4) split: if_splits)
  moreover have "mgr_host m2 = h'" if "sys_mgrs s' h' = Some m2" for h' m2
    using that run_inv_D(1) [OF inv, of h' m2] host acquire_spawn(1) by (auto simp: sp(2) split: if_splits)
  ultimately show ?thesis unfolding run_inv_def by blast
next
  case (stop_cancel h c cs m tid m')
  have "registered s' h' c' = Some i" if run: "runs s' i h' c'" for i h' c'
  proof -
    have "i \<noteq> tid" using run stop_cancel(1)
      by (auto simp: runs_def task_of_def cancel_task_of simp del: cancel_task_simps(3))
    then show ?thesis using run run_inv_D(2) [OF inv, of i h' c'] stop_cancel(1,3,4)
      by (auto simp: runs_def task_of_def registered_def stop_pop_def split: if_splits)
  qed
  moreover have "i < next_task (sys_ev s')" if "task_of s' i \<noteq> None" for i
    using that run_inv_D(3) [OF inv, of i] stop_cancel(1) by (auto simp: task_of_def split: if_splits)
  moreover have "mgr_host m2 = h'" if "sys_mgrs s' h' = Some m2" for h' m2
    using that run_inv_D(1) [OF inv, of h'] stop_cancel(1,3,4) by (auto simp: stop_pop_def split: if_splits)
  ultimately show ?thesis unfolding run_inv_def by blast
next
  case (done_cb tid t out m)
  have "registered s' h' c' = Some i" if "runs s' i h' c'" for i h' c'
    using that run_inv_D(2) [OF inv, of i h' c'] done_cb
    by (auto simp: runs_def task_of_def registered_def mgr_tasks_on_done split: if_splits)
  moreover have "i < next_task (sys_ev s')" if "task_of s' i \<noteq> None" for i
    using that run_inv_D(3) [OF inv, of i] done_cb(1) by (auto simp: task_of_def split: if_splits)
  moreover have "mgr_host m2 = h'" if "sys_mgrs s' h' = Some m2" for h' m2
    using that run_inv_D(1) [OF inv, of h'] done_cb(1,4) by (auto split: if_splits)
  ultimately show ?thesis unfolding run_inv_def by blast
qed (rule run_inv_frame [OF inv]; auto simp: runs_def task_of_def split: if_splits)+

lemma run_inv_steps: "sys_steps hosts thr s s' \<Longrightarrow> run_inv s \<Longrightarrow> run_inv s'"
  by (induction rule: rtranclp_induct) (auto intro: run_inv_step)

lemma cancel_one_loop [simp]:
  "sys_mgrs (cancel_listing h s) = sys_mgrs s" "task_table (sys_ev (cancel_listing h s)) = task_table (sys_ev s)"
  "next_task (sys_ev (cancel_listing h s)) = next_task (sys_ev s)"
  "sys_mgrs (cancel_tracker h s) = sys_mgrs s" "sys_ev (cancel_tracker h s) = sys_ev s"
  by (simp_all add: cancel_listing_def cancel_tracker_def split: listing_pc.splits tracker_pc.splits)

lemma cancel_loops_frame [simp]:
  "sys_mgrs (cancel_loops hosts s) = sys_mgrs s" "task_table (sys_ev (cancel_loops hosts s)) = task_table (sys_ev s)"
  "next_task (sys_ev (cancel_loops hosts s)) = next_task (sys_ev s)"
proof -
  have "sys_mgrs (fold (\<lambda>h s. cancel_tracker h (cancel_listing h s)) hs s) = sys_mgrs s \<and>
    task_table (sys_ev (fold (\<lambda>h s. cancel_tracker h (cancel_listing h s)) hs s)) = task_table (sys_ev s) \<and>
    next_task (sys_ev (fold (\<lambda>h s. cancel_tracker h (cancel_listing h s)) hs s)) = next_task (sys_ev s)" for hs
    by (induction hs arbitrary: s) simp_all
  then show "sys_mgrs (cancel_loops hosts s) = sys_mgrs s"
    "task_table (sys_ev (cancel_loops hosts s)) = task_table (sys_ev s)"
    "next_task (sys_ev (cancel_loops hosts s)) = next_task (sys_ev s)"
    by (simp_all add: cancel_loops_def)
qed

lemma cancel_listeners_simps [simp]:
  "sys_mgrs (cancel_listeners s) = sys_mgrs s" "sys_lpc (cancel_listeners s) = sys_lpc s"
  "sys_tpc (cancel_listeners s) = sys_tpc s" "next_task (sys_ev (cancel_listeners s)) = next_task (sys_ev s)"
  "task_of (cancel_listeners s) i = map_option cancelled_task (task_of s i)"
  by (simp_all add: cancel_listeners_def task_of_def)

lemma task_of_loops [simp]: "task_of (cancel_loops hosts s) i = task_of s i"
  by (simp add: task_of_def)

lemma runs_cancelled [simp]: "\<not> runs (cancel_listeners s) i h c"
  by (auto simp: runs_def cancelled_task_def split: if_splits)

section \<open>Tasks over a run of the process\<close>

lemma world_run_inv:
  assumes "world_step rt hosts thr w w'" and inv: "run_inv (w_sys w)"
  shows "run_inv (w_sys w')"
  using assms(1)
proof (cases rule: world_step.cases)
  case (w_loops s')
  then show ?thesis using run_inv_step [OF _ inv] by simp
next
  case w_signal
  then show ?thesis by (intro run_inv_frame [OF inv]) (simp_all add: runs_def)
next
  case (w_final r)
  then show ?thesis by (intro run_inv_frame [OF inv]) simp_all
qed (use inv in simp_all)

lemma world_task_kept:
  assumes "world_step rt hosts thr w w'" and inv: "run_inv (w_sys w)" and "task_of (w_sys w) i = Some t"
  shows "\<exists>t'. task_of (w_sys w') i = Some t' \<and> same_task t t' \<and> (task_st t \<noteq> Running \<longrightarrow> task_st t' \<noteq> Running)"
  using assms(1)
proof (cases rule: world_step.cases)
  case (w_loops s')
  then show ?thesis using task_kept [OF _ inv assms(3)] by simp
qed (use assms(3) in simp_all)

lemma world_task_added:
  assumes "world_step rt hosts thr w w'" and inv: "run_inv (w_sys w)" and "task_of (w_sys w) i = None"
    and "task_of (w_sys w') i = Some t"
  shows "i = next_task (sys_ev (w_sys w)) \<and> registered (w_sys w) (task_host t) (task_cid t) = None"
  using assms(1)
proof (cases rule: world_step.cases)
  case (w_loops s')
  then show ?thesis using task_added [OF _ inv assms(3)] assms(4) by simp
qed (use assms(3,4) in simp_all)

lemma task_phase_Some: "task_phase s i = Some st \<longleftrightarrow> (\<exists>t. task_of s i = Some t \<and> task_st t = st)"
  by (auto simp: task_phase_def)

section \<open>What a listener ships\<close>

definition records_read :: "runtime \<Rightarrow> task \<Rightarrow> stream_line list \<Rightarrow> log_record list" where
  "records_read rt t lines = listener_records rt (task_host t) (task_cid t) (task_cname t) 1 lines"

lemma records_read_same: "same_task t t' \<Longrightarrow> records_read rt t' lines = records_read rt t lines"
  by (simp add: records_read_def same_task_def)

lemma records_read_next:
  assumes "task_of (w_sys w) i = Some t"
  shows "records_read rt t (w_lines w i @ [l]) =
    records_read rt t (w_lines w i) @ (case next_record rt w i l of None \<Rightarrow> [] | Some r \<Rightarrow> [r])"
  by (simp add: records_read_def listener_records_append next_record_def assms algebra_simps split: option.splits)

text \<open>
  A listener's records are those of its lines; the last one may be in a thread, or lost when
  the task was cancelled.
\<close>

definition shipping :: "runtime \<Rightarrow> world \<Rightarrow> nat \<Rightarrow> bool" where
  "shipping rt w i \<longleftrightarrow>
     (case task_of (w_sys w) i of
        None \<Rightarrow> w_lines w i = [] \<and> w_thread w i = None \<and> by_task i (w_trace w) = []
      | Some t \<Rightarrow>
          (case w_thread w i of
             Some r \<Rightarrow> by_task i (w_trace w) @ [r] = records_read rt t (w_lines w i)
           | None \<Rightarrow> by_task i (w_trace w) = records_read rt t (w_lines w i) \<or>
               task_st t \<noteq> Running \<and> by_task i (w_trace w) = butlast (records_read rt t (w_lines w i))))"

lemma shipping_frame:
  assumes "shipping rt w i" and "w_lines w' i = w_lines w i" and "w_thread w' i = w_thread w i"
    and "by_task i (w_trace w') = by_task i (w_trace w)"
    and "\<And>t. task_of (w_sys w) i = Some t \<Longrightarrow>
      \<exists>t'. task_of (w_sys w') i = Some t' \<and> same_task t t' \<and> (task_st t \<noteq> Running \<longrightarrow> task_st t' \<noteq> Running)"
  shows "shipping rt w' i"
proof (cases "task_of (w_sys w) i")
  case None
  then show ?thesis using assms(1-4)
    by (auto simp: shipping_def records_read_def split: option.splits)
next
  case (Some t)
  obtain t' where t': "task_of (w_sys w') i = Some t'" "same_task t t'" "task_st t \<noteq> Running \<longrightarrow> task_st t' \<noteq> Running"
    using assms(5) [OF Some] by blast
  then show ?thesis using assms(1-4) records_read_same [OF t'(2)]
    by (auto simp: shipping_def Some split: option.splits)
qed

lemma shipping_step:
  assumes step: "world_step rt hosts thr w w'" and inv: "run_inv (w_sys w)" and sh: "shipping rt w i"
  shows "shipping rt w' i"
proof -
  note kept = world_task_kept [OF step inv]
  from step show ?thesis
  proof (cases rule: world_step.cases)
    case (w_read j l r)
    show ?thesis
    proof (cases "i = j")
      case True
      obtain t where t: "task_of (w_sys w) j = Some t" "task_st t = Running" using w_read(2) by (auto simp: task_phase_Some)
      then show ?thesis using sh w_read records_read_next [OF t(1), of rt l] by (simp add: shipping_def True)
    qed (rule shipping_frame [OF sh]; use w_read kept in simp)
  next
    case (w_skip j l)
    show ?thesis
    proof (cases "i = j")
      case True
      obtain t where t: "task_of (w_sys w) j = Some t" "task_st t = Running" using w_skip(2) by (auto simp: task_phase_Some)
      then show ?thesis using sh w_skip records_read_next [OF t(1), of rt l] by (simp add: shipping_def True)
    qed (rule shipping_frame [OF sh]; use w_skip kept in simp)
  next
    case (w_ship j r)
    show ?thesis
    proof (cases "i = j")
      case True
      then show ?thesis using sh w_ship by (auto simp: shipping_def split: option.splits)
    qed (rule shipping_frame [OF sh]; use w_ship kept in simp)
  next
    case (w_lost j r)
    show ?thesis
    proof (cases "i = j")
      case True
      obtain t where t: "task_of (w_sys w) j = Some t" "by_task j (w_trace w) @ [r] = records_read rt t (w_lines w j)"
        using sh w_lost(2) True by (auto simp: shipping_def split: option.splits)
      have "task_st t \<noteq> Running" using w_lost(3) t(1) by (simp add: task_phase_def)
      then show ?thesis using w_lost(1) t(1) by (simp add: shipping_def True flip: t(2))
    qed (rule shipping_frame [OF sh]; use w_lost kept in simp)
  qed (rule shipping_frame [OF sh]; use kept in simp)+
qed

section \<open>Two listeners of one container\<close>

text \<open>The tasks \<open>i\<close> and \<open>j\<close> follow the same container and \<open>i\<close> was started first.\<close>

definition older :: "system \<Rightarrow> nat \<Rightarrow> nat \<Rightarrow> bool" where
  "older s i j \<longleftrightarrow> i < j \<and>
     (case (task_of s i, task_of s j) of
        (Some t, Some t') \<Rightarrow> task_host t = task_host t' \<and> task_cid t = task_cid t'
      | _ \<Rightarrow> False)"

definition older_stopped :: "system \<Rightarrow> bool" where
  "older_stopped s \<longleftrightarrow> (\<forall>i j. older s i j \<longrightarrow> task_phase s i \<noteq> Some Running)"

definition in_thread :: "world \<Rightarrow> nat \<Rightarrow> nat" where
  "in_thread w i = (if w_thread w i = None then 0 else 1)"

definition late_once :: "world \<Rightarrow> bool" where
  "late_once w \<longleftrightarrow> (\<forall>i j xs r ys. older (w_sys w) i j \<longrightarrow> w_trace w = xs @ Shipped j r # ys \<longrightarrow>
     length (by_task i ys) + in_thread w i \<le> 1)"

lemma older_iff:
  "older s i j \<longleftrightarrow> i < j \<and> (\<exists>t t'. task_of s i = Some t \<and> task_of s j = Some t' \<and> task_host t = task_host t' \<and> task_cid t = task_cid t')"
  by (auto simp: older_def split: option.splits)

lemma older_before:
  assumes step: "world_step rt hosts thr w w'" and inv: "run_inv (w_sys w)" and old: "older (w_sys w') i j"
    and "task_of (w_sys w) j \<noteq> None"
  shows "older (w_sys w) i j"
proof -
  note kept = world_task_kept [OF step inv] and added = world_task_added [OF step inv]
  obtain t t' where w': "i < j" "task_of (w_sys w') i = Some t" "task_of (w_sys w') j = Some t'"
    "task_host t = task_host t'" "task_cid t = task_cid t'"
    using old by (auto simp: older_iff)
  have "task_of (w_sys w) i \<noteq> None"
  proof
    assume "task_of (w_sys w) i = None"
    then have "i = next_task (sys_ev (w_sys w))" using added [OF _ w'(2)] by simp
    then show False using run_inv_D(3) [OF inv assms(4)] w'(1) by simp
  qed
  then obtain u u' where u: "task_of (w_sys w) i = Some u" "task_of (w_sys w) j = Some u'" using assms(4) by auto
  have "same_task u t" "same_task u' t'" using kept [OF u(1)] kept [OF u(2)] w'(2,3) by auto
  then show ?thesis using u w' by (auto simp: older_iff same_task_def)
qed

lemma older_stopped_step:
  assumes step: "world_step rt hosts thr w w'" and inv: "run_inv (w_sys w)" and J: "older_stopped (w_sys w)"
  shows "older_stopped (w_sys w')"
  unfolding older_stopped_def
proof (intro allI impI)
  fix i j assume old: "older (w_sys w') i j"
  note kept = world_task_kept [OF step inv] and added = world_task_added [OF step inv]
  obtain t t' where w': "i < j" "task_of (w_sys w') i = Some t" "task_of (w_sys w') j = Some t'"
    "task_host t = task_host t'" "task_cid t = task_cid t'"
    using old by (auto simp: older_iff)
  show "task_phase (w_sys w') i \<noteq> Some Running"
  proof (cases "task_of (w_sys w) j")
    case (Some u)
    then have "older (w_sys w) i j" using older_before [OF step inv old] by simp
    then have st: "task_phase (w_sys w) i \<noteq> Some Running" and "task_of (w_sys w) i \<noteq> None"
      using J by (auto simp: older_stopped_def older_iff)
    then obtain u' where u': "task_of (w_sys w) i = Some u'" by auto
    show ?thesis using kept [OF u'] st u' by (auto simp: task_phase_def)
  next
    case None
    note j = added [OF None w'(3)]
    have "task_of (w_sys w) i \<noteq> None" using added [OF _ w'(2)] j w'(1) by auto
    then obtain u where u: "task_of (w_sys w) i = Some u" by auto
    have same: "same_task u t" using kept [OF u] w'(2) by auto
    have "task_st u \<noteq> Running"
    proof
      assume "task_st u = Running"
      then have "runs (w_sys w) i (task_host t') (task_cid t')"
        using u same w'(4,5) by (auto simp: runs_def same_task_def)
      from run_inv_D(2) [OF inv this] show False using j by simp
    qed
    then show ?thesis using kept [OF u] by (auto simp: task_phase_def)
  qed
qed

lemma late_once_step:
  assumes step: "world_step rt hosts thr w w'" and inv: "run_inv (w_sys w)" and J: "older_stopped (w_sys w)"
    and sh: "\<And>i. shipping rt w i" and late: "late_once w"
  shows "late_once w'"
  unfolding late_once_def
proof (intro allI impI)
  fix i j xs r ys assume old: "older (w_sys w') i j" and tr: "w_trace w' = xs @ Shipped j r # ys"
  have "Shipped j r \<in> set (w_trace w')" using tr by simp
  with step have "Shipped j r \<in> set (w_trace w) \<or> w_thread w j \<noteq> None"
    by (cases rule: world_step.cases) auto
  then have "task_of (w_sys w) j \<noteq> None"
    using sh [of j] by (cases "task_of (w_sys w) j") (auto simp: shipping_def by_task_Nil)
  then have old0: "older (w_sys w) i j" using older_before [OF step inv old] by simp
  then have st: "task_phase (w_sys w) i \<noteq> Some Running" using J old0 unfolding older_stopped_def by blast
  have at: "length (by_task i ys') + in_thread w i \<le> 1" if "w_trace w = xs @ Shipped j r # ys'" for ys'
    using late old0 that unfolding late_once_def by blast
  show "length (by_task i ys) + in_thread w' i \<le> 1"
    using step
  proof (cases rule: world_step.cases)
    case (w_read k l r')
    then show ?thesis using at [of ys] tr st by (auto simp: in_thread_def)
  next
    case (w_ship k r')
    show ?thesis
    proof (cases ys rule: rev_cases)
      case Nil
      then show ?thesis by (simp add: in_thread_def)
    next
      case (snoc ys' e)
      have "w_trace w @ [Shipped k r'] = (xs @ Shipped j r # ys') @ [e]" using tr w_ship(1) snoc by simp
      then have e: "e = Shipped k r'" "w_trace w = xs @ Shipped j r # ys'" by (simp_all only: append1_eq_conv)
      then show ?thesis using at [OF e(2)] w_ship snoc by (auto simp: in_thread_def split: if_splits)
    qed
  next
    case (w_lost k r')
    then show ?thesis using at [of ys] tr by (auto simp: in_thread_def)
  next
    case (w_closed h)
    then obtain ys' where "ys = ys' @ [LoggerClosed]" "w_trace w = xs @ Shipped j r # ys'"
      using tr by (cases ys rule: rev_cases) auto
    then show ?thesis using at [of ys'] w_closed(1) by (simp add: in_thread_def)
  next
    case w_no_daemons
    then obtain ys' where "ys = ys' @ [LoggerClosed]" "w_trace w = xs @ Shipped j r # ys'"
      using tr by (cases ys rule: rev_cases) auto
    then show ?thesis using at [of ys'] w_no_daemons(1) by (simp add: in_thread_def)
  next
    case (w_exit r')
    then obtain ys' where "ys = ys' @ [AtExit]" "w_trace w = xs @ Shipped j r # ys'"
      using tr by (cases ys rule: rev_cases) auto
    then show ?thesis using at [of ys'] w_exit(1) by (simp add: in_thread_def)
  qed (use at [of ys] tr in \<open>simp_all add: in_thread_def\<close>)
qed

definition world_inv :: "runtime \<Rightarrow> world \<Rightarrow> bool" where
  "world_inv rt w \<longleftrightarrow> run_inv (w_sys w) \<and> (\<forall>i. shipping rt w i) \<and> older_stopped (w_sys w) \<and> late_once w"

lemma world_inv_init: "world_inv rt (init_world hosts cap)"
  using run_inv_init [of hosts cap]
  by (auto simp: world_inv_def init_world_def shipping_def older_stopped_def late_once_def older_iff task_of_def init_system_def)

lemma world_inv_steps: "world_steps rt hosts thr w w' \<Longrightarrow> world_inv rt w \<Longrightarrow> world_inv rt w'"
proof (induction rule: rtranclp_induct)
  case (step w1 w2)
  then show ?case using world_run_inv shipping_step older_stopped_step late_once_step
    unfolding world_inv_def by meson
qed

lemma world_inv_reachable: "reachable_world rt hosts thr cap w \<Longrightarrow> world_inv rt w"
  unfolding reachable_world_def using world_inv_steps world_inv_init by blast

lemma shipped_of_task:
  assumes "world_inv rt w" and t: "task_of (w_sys w) i = Some t" and "recs = records_read rt t (w_lines w i)"
  shows "prefix (by_task i (w_trace w)) recs \<and> length recs \<le> Suc (length (by_task i (w_trace w))) \<and>
    (task_st t = Running \<longrightarrow> recs = by_task i (w_trace w) @ (case w_thread w i of None \<Rightarrow> [] | Some r \<Rightarrow> [r]))"
proof -
  have sh: "shipping rt w i" using assms(1) by (simp add: world_inv_def)
  then consider (last) r where "w_thread w i = Some r" "recs = by_task i (w_trace w) @ [r]"
    | (all) "w_thread w i = None" "recs = by_task i (w_trace w)"
    | (lost) "w_thread w i = None" "task_st t \<noteq> Running" "by_task i (w_trace w) = butlast recs"
    using assms(3) by (auto simp: shipping_def t split: option.splits)
  then show ?thesis
  proof cases
    case lost
    then show ?thesis by (simp add: prefixeq_butlast)
  qed simp_all
qed

section \<open>Runs of the loops as runs of the process\<close>

text \<open>The loops may take any run in which no task with a record in a thread is running.\<close>

lemma loops_world:
  assumes "sys_steps hosts thr s s'" and "run_inv s" and "\<forall>r. w_phase w \<noteq> Exited r"
    and "\<forall>i. w_thread w i \<noteq> None \<longrightarrow> (\<exists>t. task_of s i = Some t \<and> task_st t \<noteq> Running)"
  shows "world_steps rt hosts thr (w\<lparr>w_sys := s\<rparr>) (w\<lparr>w_sys := s'\<rparr>)"
  using assms
proof (induction rule: converse_rtranclp_induct)
  case (step s s1)
  have "\<forall>i. w_thread w i \<noteq> None \<longrightarrow> (\<exists>t. task_of s1 i = Some t \<and> task_st t \<noteq> Running)"
    using step.prems(3) task_kept [OF step.hyps(1) step.prems(1)] by meson
  then have "world_steps rt hosts thr (w\<lparr>w_sys := s1\<rparr>) (w\<lparr>w_sys := s'\<rparr>)"
    using step.IH run_inv_step [OF step.hyps(1) step.prems(1)] step.prems(2) by blast
  moreover have "threads_awaited (w\<lparr>w_sys := s\<rparr>) s1"
    using step.prems(3) by (auto simp: threads_awaited_def task_phase_def)
  then have "world_step rt hosts thr (w\<lparr>w_sys := s\<rparr>) (w\<lparr>w_sys := s1\<rparr>)"
    using world_step.w_loops [of hosts thr "w\<lparr>w_sys := s\<rparr>" s1 rt] step.hyps(1) step.prems(2) by simp
  ultimately show ?case by (rule converse_rtranclp_into_rtranclp [rotated])
qed simp

text \<open>One daemon \<open>d\<close> with one container \<open>c\<close>, its states written out.\<close>

definition web_ref :: container_ref where
  "web_ref = \<lparr>ref_id = ''c'', ref_name = ''web''\<rparr>"

definition web_task :: "task_state \<Rightarrow> task" where
  "web_task st = \<lparr>task_host = ''d'', task_cid = ''c'', task_cname = ''web'', task_st = st\<rparr>"

definition sys_at :: "unit registry \<Rightarrow> (string \<rightharpoonup> nat) \<Rightarrow> (nat \<rightharpoonup> task) \<Rightarrow> nat \<Rightarrow> int \<Rightarrow> listing_pc \<Rightarrow> tracker_pc \<Rightarrow> system" where
  "sys_at r regd tab n k lp tp =
     \<lparr>sys_reg = r, sys_mgrs = (\<lambda>h. if h = ''d'' then Some \<lparr>mgr_host = ''d'', mgr_tasks = regd\<rparr> else None),
      sys_ev = \<lparr>task_table = tab, next_task = n, permits = k\<rparr>,
      sys_lpc = (\<lambda>h. LIdle)(''d'' := lp), sys_tpc = (\<lambda>h. TIdle)(''d'' := tp)\<rparr>"

lemma sys_at_simps [simp]:
  "sys_reg (sys_at r regd tab n k lp tp) = r" "sys_lpc (sys_at r regd tab n k lp tp) = (\<lambda>h. LIdle)(''d'' := lp)"
  "sys_tpc (sys_at r regd tab n k lp tp) = (\<lambda>h. TIdle)(''d'' := tp)"
  "sys_mgrs (sys_at r regd tab n k lp tp) ''d'' = Some \<lparr>mgr_host = ''d'', mgr_tasks = regd\<rparr>"
  "sys_ev (sys_at r regd tab n k lp tp) = \<lparr>task_table = tab, next_task = n, permits = k\<rparr>"
  "task_of (sys_at r regd tab n k lp tp) i = tab i"
  "set_lpc (sys_at r regd tab n k lp tp) ''d'' lp' = sys_at r regd tab n k lp' tp"
  "set_tpc (sys_at r regd tab n k lp tp) ''d'' tp' = sys_at r regd tab n k lp tp'"
  "set_reg (sys_at r regd tab n k lp tp) r' = sys_at r' regd tab n k lp tp"
  "set_mgr (sys_at r regd tab n k lp tp) ''d'' \<lparr>mgr_host = ''d'', mgr_tasks = regd'\<rparr> = sys_at r regd' tab n k lp tp"
  "set_ev (sys_at r regd tab n k lp tp) \<lparr>task_table = tab', next_task = n', permits = k'\<rparr> = sys_at r regd tab' n' k' lp tp"
  by (auto simp: sys_at_def setter_defs task_of_def)

lemma sys_at_start: "init_system [''d''] 1 = sys_at (on_new_container new_registry ()) Map.empty Map.empty 0 1 LIdle TIdle"
  by (auto simp: init_system_def sys_at_def new_manager_def)

text \<open>A listing finds the container, unknown to the registry, and its listener is spawned.\<close>

lemma web_spawned:
  assumes "known r ''d'' ''c'' = None" and "callback r \<noteq> None" and "regd ''c'' = None"
  shows "sys_steps [''d''] thr (sys_at r regd tab n 1 LIdle tp)
    (sys_at (fst (update r ''d'' [web_ref])) (regd(''c'' \<mapsto> n)) (tab(n \<mapsto> web_task Running)) (Suc n) 1 LIdle tp)"
proof -
  let ?r = "fst (update r ''d'' [web_ref])" and ?m = "\<lparr>mgr_host = ''d'', mgr_tasks = regd\<rparr>"
  let ?ev' = "\<lparr>task_table = tab(n \<mapsto> web_task Running), next_task = Suc n, permits = 1\<rparr>"
  let ?s2 = "sys_at r regd tab n 1 LIdle tp"
  let ?s3 = "sys_at ?r regd tab n 1 (LNotify [web_ref]) tp" and ?s4 = "sys_at ?r regd tab n 1 (LAcquire web_ref []) tp"
  let ?s5 = "sys_at ?r (regd(''c'' \<mapsto> n)) (tab(n \<mapsto> web_task Running)) (Suc n) 0 (LLog web_ref []) tp"
  let ?s6 = "sys_at ?r (regd(''c'' \<mapsto> n)) (tab(n \<mapsto> web_task Running)) (Suc n) 1 (LNotify []) tp"
  have "snd (update r ''d'' [web_ref]) = [web_ref]"
    using assms(1,2) by (simp add: update_parts web_ref_def split: prod.splits)
  then have u: "update r ''d'' [web_ref] = (?r, [web_ref])" by (metis prod.collapse)
  have nk: "\<not> spawn_is_known ?m web_ref" using assms(3) by (simp add: spawn_is_known_def active_container_ids_def web_ref_def domIff)
  have sp: "spawn_locked ?m (sys_ev ?s4) web_ref = Some (\<lparr>mgr_host = ''d'', mgr_tasks = regd(''c'' \<mapsto> n)\<rparr>, ?ev')"
    using nk by (simp add: spawn_locked_def create_task_def web_ref_def web_task_def)
  have "sys_step [''d''] thr ?s2 ?s3" using listing [of "''d''" "[''d'']" ?s2 "[web_ref]" ?r "[web_ref]" thr] u by simp
  moreover have "sys_step [''d''] thr ?s3 ?s4" using notify_new [of ?s3 "''d''" web_ref "[]" ?m] nk by simp
  moreover have "sys_step [''d''] thr ?s4 ?s5" using acquire_spawn [OF _ _ _ sp, of "''d''" "[]" "[''d'']" thr] by (simp add: acquire_def)
  moreover have "sys_step [''d''] thr ?s5 ?s6" using logged [of ?s5 "''d''" web_ref "[]"]
    by (simp add: release_def)
  moreover have "sys_step [''d''] thr ?s6 (set_lpc ?s6 ''d'' LIdle)"
    using notify_done [of ?s6 "''d''"] by simp
  ultimately show ?thesis by (simp only: sys_at_simps)
qed

text \<open>With a threshold of 0 the tracker's next run stops the listener: it is cancelled and awaited.\<close>

lemma web_stopping:
  assumes "overdue 0 r ''d'' ''c''" and "tab i = Some (web_task Running)"
    and "s1 = sys_at (snd (state_for r ''d'')) [''c'' \<mapsto> i] tab n 1 LIdle (TLog ''c'' [])"
  shows "sys_steps [''d''] 0 (sys_at r [''c'' \<mapsto> i] tab n 1 LIdle TIdle) s1"
    and "sys_step [''d''] 0 s1 (sys_at (snd (state_for r ''d'')) Map.empty (tab(i \<mapsto> web_task Cancelling)) n 1 LIdle (TAwait ''c'' i []))"
proof -
  let ?r = "snd (state_for r ''d'')" and ?m = "\<lparr>mgr_host = ''d'', mgr_tasks = [''c'' \<mapsto> i]\<rparr>"
  let ?s0 = "sys_at r [''c'' \<mapsto> i] tab n 1 LIdle TIdle" and ?s1 = "sys_at ?r [''c'' \<mapsto> i] tab n 1 LIdle (TLoop [''c''])"
  have "sys_step [''d''] 0 ?s0 ?s1"
    using tick [of "''d''" "[''d'']" ?s0 ?m "[''c'']" 0] by (simp add: active_container_ids_def)
  moreover have "sys_step [''d''] 0 ?s1 s1"
    using track_stop [of ?s1 "''d''" "''c''" "[]" 0 "[''d'']"] assms(1,3) by (simp add: tracker_misses_overdue)
  ultimately show "sys_steps [''d''] 0 ?s0 s1" by simp
  have "stop_pop ?m ''c'' = (Some i, \<lparr>mgr_host = ''d'', mgr_tasks = Map.empty\<rparr>)" by (simp add: stop_pop_def)
  then show "sys_step [''d''] 0 s1 (sys_at ?r Map.empty (tab(i \<mapsto> web_task Cancelling)) n 1 LIdle (TAwait ''c'' i []))"
    using stop_cancel [of s1 "''d''" "''c''" "[]" ?m i "\<lparr>mgr_host = ''d'', mgr_tasks = Map.empty\<rparr>" "[''d'']" 0] assms(2,3)
    by (simp add: cancel_task_def web_task_def)
qed

text \<open>The cancelled listener ends and the tracker, woken, forgets the container.\<close>

lemma web_stopped:
  assumes "tab i = Some (web_task Cancelling)"
  shows "sys_steps [''d''] thr (sys_at r regd tab n 1 lp (TAwait ''c'' i []))
    (sys_at (forget r ''d'' ''c'') regd (tab(i \<mapsto> web_task (Done Cancelled))) n 1 lp TIdle)"
proof -
  let ?tab = "tab(i \<mapsto> web_task (Done Cancelled))"
  let ?s0 = "sys_at r regd tab n 1 lp (TAwait ''c'' i [])" and ?s1 = "sys_at r regd ?tab n 1 lp (TAwait ''c'' i [])"
  let ?s2 = "sys_at (forget r ''d'' ''c'') regd ?tab n 1 lp (TLoop [])"
  have "end_task (sys_ev ?s0) i (Done Cancelled) = sys_ev ?s1"
    using assms by (auto simp: end_task_def web_task_def fun_eq_iff)
  then have "sys_step [''d''] thr ?s0 ?s1"
    using task_end [of ?s0 i "web_task Cancelling" Cancelled "[''d'']" thr] assms by (simp add: web_task_def)
  moreover have "sys_step [''d''] thr ?s1 ?s2"
    using awaited [of ?s1 "''d''" "''c''" i "[]" "web_task (Done Cancelled)" "[''d'']" thr] by (simp add: web_task_def)
  moreover have "sys_step [''d''] thr ?s2 (sys_at (forget r ''d'' ''c'') regd ?tab n 1 lp TIdle)"
    using track_end [of ?s2 "''d''" "[''d'']" thr] by simp
  ultimately show ?thesis by simp
qed

text \<open>
  A restart with a straggler: the first listener hands its record to a thread and is cancelled,
  the second is started and ships its own, and then the first thread gets to run.
\<close>

definition hi_line :: stream_line where
  "hi_line = \<lparr>sl_stream = STDOUT, sl_text = ''T hi''\<rparr>"

definition hi_record :: log_record where
  "hi_record = \<lparr>docker_host = ''d'', container_name = ''web'', container_id = ''c'', ts = \<lparr>dt_us = 0, dt_aware = True\<rparr>, seq = 1,
     stream = STDOUT, level = ''info'', message = ''hi'', log_fields = [], raw = ''T hi''\<rparr>"

definition straggler :: world where
  "straggler =
     (let r = forget (snd (state_for (fst (update (on_new_container new_registry ()) ''d'' [web_ref])) ''d'')) ''d'' ''c''
      in \<lparr>w_sys = sys_at (fst (update r ''d'' [web_ref])) [''c'' \<mapsto> 1]
            [0 \<mapsto> web_task (Done Cancelled), 1 \<mapsto> web_task Running] 2 1 LIdle TIdle,
          w_lines = (\<lambda>i. [])(0 := [hi_line], 1 := [hi_line]), w_thread = (\<lambda>i. None),
          w_trace = [Shipped 1 hi_record, Shipped 0 hi_record], w_phase = Serving\<rparr>)"

definition reads_hi :: "runtime \<Rightarrow> bool" where
  "reads_hi rt \<longleftrightarrow> parse_line rt ''d'' ''c'' ''web'' hi_line 1 = Some hi_record"

lemma reads_hi_one_line: "reads_hi one_line_rt"
  using one_line_records [of 1 STDOUT] by (simp add: reads_hi_def hi_line_def hi_record_def split: option.splits)

lemma hi_next:
  assumes "reads_hi rt" and "task_of (w_sys w) i = Some (web_task st)" and "w_lines w i = []"
  shows "next_record rt w i hi_line = Some hi_record"
  using assms by (simp add: next_record_def web_task_def reads_hi_def)

lemma web_listed:
  "known (on_new_container new_registry ()) ''d'' ''c'' = None" "callback (on_new_container new_registry ()) \<noteq> None"
  "overdue 0 (fst (update r ''d'' [web_ref])) ''d'' ''c''"
  using reg.miss_listed [of "''c''" "[web_ref]" r "''d''"]
  by (simp_all add: on_new_container_def new_registry_def known_def overdue_def web_ref_def)

lemma straggler_reachable:
  assumes "reads_hi rt"
  shows "reachable_world rt [''d''] 0 1 straggler"
proof -
  let ?r0 = "on_new_container new_registry ()"
  let ?r1 = "fst (update ?r0 ''d'' [web_ref])"
  let ?r2 = "snd (state_for ?r1 ''d'')"
  let ?r3 = "forget ?r2 ''d'' ''c''"
  let ?go = "world_steps rt [''d''] 0" and ?step = "world_step rt [''d''] 0"
  let ?w0 = "init_world [''d''] 1"
  let ?sA = "sys_at ?r1 [''c'' \<mapsto> 0] [0 \<mapsto> web_task Running] 1 1 LIdle TIdle"
  let ?sB = "sys_at ?r2 [''c'' \<mapsto> 0] [0 \<mapsto> web_task Running] 1 1 LIdle (TLog ''c'' [])"
  let ?sC = "sys_at ?r2 Map.empty [0 \<mapsto> web_task Cancelling] 1 1 LIdle (TAwait ''c'' 0 [])"
  let ?sD = "sys_at ?r3 Map.empty [0 \<mapsto> web_task (Done Cancelled)] 1 1 LIdle TIdle"
  let ?sE = "w_sys straggler"
  let ?wB = "?w0\<lparr>w_sys := ?sB\<rparr>"
  let ?wR = "?wB\<lparr>w_lines := (\<lambda>i. [])(0 := [hi_line]), w_thread := (\<lambda>i. None)(0 := Some hi_record)\<rparr>"
  let ?wE = "?wR\<lparr>w_sys := ?sE\<rparr>"
  let ?wF = "?wE\<lparr>w_lines := (\<lambda>i. [])(0 := [hi_line], 1 := [hi_line]), w_thread := (\<lambda>i. None)(0 := Some hi_record, 1 := Some hi_record)\<rparr>"
  let ?wG = "?wF\<lparr>w_thread := (\<lambda>i. None)(0 := Some hi_record), w_trace := [Shipped 1 hi_record]\<rparr>"
  have A: "sys_steps [''d''] 0 (w_sys ?w0) ?sA"
    using web_spawned [where thr = 0 and r = ?r0 and regd = Map.empty and tab = Map.empty and n = 0 and tp = TIdle] web_listed
    by (simp add: init_world_def sys_at_start)
  have B: "sys_steps [''d''] 0 ?sA ?sB" and C: "sys_step [''d''] 0 ?sB ?sC"
    using web_stopping [where r = ?r1 and tab = "[0 \<mapsto> web_task Running]" and i = 0 and n = 1] web_listed(3) [of ?r0] by simp_all
  have D: "sys_steps [''d''] 0 ?sC ?sD"
    using web_stopped [where r = ?r2 and tab = "[0 \<mapsto> web_task Cancelling]" and i = 0 and n = 1] by simp
  have E: "sys_steps [''d''] 0 ?sD ?sE"
    using web_spawned [where thr = 0 and r = ?r3 and regd = Map.empty and tab = "[0 \<mapsto> web_task (Done Cancelled)]" and n = 1 and tp = TIdle]
      web_listed(2) update_parts(2) [of ?r0 "''d''"] by (simp add: straggler_def Let_def known_forget numeral_2_eq_2)
  have inv: "run_inv (w_sys ?w0)" by (simp add: init_world_def run_inv_init)
  have "?go (?w0\<lparr>w_sys := w_sys ?w0\<rparr>) ?wB"
    by (rule loops_world [OF rtranclp_trans [OF A B] inv]) (simp_all add: init_world_def)
  then have 1: "?go ?w0 ?wB" by simp
  have 2: "?step ?wB ?wR"
    using w_read [of ?wB 0 rt hi_line hi_record "[''d'']" 0] hi_next [OF assms, of ?wB 0 Running]
    by (simp add: init_world_def task_phase_def web_task_def)
  have 3: "?step ?wR (?wR\<lparr>w_sys := ?sC\<rparr>)"
    using w_loops [of "[''d'']" 0 ?wR ?sC rt] C
    by (simp add: threads_awaited_def alive_def task_phase_def web_task_def init_world_def)
  have "run_inv ?sC" using run_inv_step [OF C run_inv_steps [OF rtranclp_trans [OF A B] inv]] .
  then have "?go (?wR\<lparr>w_sys := ?sC\<rparr>) (?wR\<lparr>w_sys := ?sE\<rparr>)"
    using loops_world [OF rtranclp_trans [OF D E], where w = ?wR] by (simp add: init_world_def web_task_def)
  with 3 have 4: "?go ?wR ?wE" by simp
  have 5: "?step ?wE ?wF"
    using w_read [of ?wE 1 rt hi_line hi_record "[''d'']" 0] hi_next [OF assms, of ?wE 1 Running]
    by (simp add: init_world_def task_phase_def web_task_def straggler_def Let_def)
  have 6: "?step ?wF ?wG"
    using w_ship [of ?wF 1 hi_record rt "[''d'']" 0] by (simp add: init_world_def fun_upd_twist)
  have 7: "?step ?wG straggler"
    using w_ship [of ?wG 0 hi_record rt "[''d'']" 0] by (simp add: init_world_def straggler_def Let_def)
  show ?thesis unfolding reachable_world_def using 1 2 4 5 6 7 by simp
qed

lemmas straggler_run = straggler_reachable [OF reads_hi_one_line]

section \<open>Properties\<close>

text \<open>
  C8. At every moment of a run of the process, shutdown included, the records a container
  listener has handed to the logger are those of the lines it has read, numbered from 1, in
  order and each once; at most the last one is missing, and for a listener that runs only
  while it is on its way.
\<close>

theorem listener_ships_what_it_read:
  assumes "reachable_world rt hosts thr cap w" and "task_of (w_sys w) i = Some t"
    and "recs = listener_records rt (task_host t) (task_cid t) (task_cname t) 1 (w_lines w i)"
  shows "prefix (by_task i (w_trace w)) recs \<and> length recs \<le> Suc (length (by_task i (w_trace w))) \<and>
    (task_st t = Running \<longrightarrow> recs = by_task i (w_trace w) @ (case w_thread w i of None \<Rightarrow> [] | Some r \<Rightarrow> [r]))"
  by (rule shipped_of_task [OF world_inv_reachable [OF assms(1)] assms(2)]) (simp add: assms(3) records_read_def)

theorem listener_ships_what_it_read_witness:
  "reachable_world one_line_rt [''d''] 0 1 straggler \<and> by_task 1 (w_trace straggler) = [hi_record] \<and>
     listener_records one_line_rt ''d'' ''c'' ''web'' 1 [hi_line] = by_task 1 (w_trace straggler)"
proof -
  have t: "task_of (w_sys straggler) 1 = Some (web_task Running)" by (simp add: straggler_def Let_def)
  have f: "task_host (web_task Running) = ''d''" "task_cid (web_task Running) = ''c''" "task_cname (web_task Running) = ''web''"
    "task_st (web_task Running) = Running" "w_lines straggler 1 = [hi_line]" "w_thread straggler 1 = None"
    by (simp_all add: web_task_def straggler_def Let_def)
  from listener_ships_what_it_read [OF straggler_run t refl] straggler_run show ?thesis
    unfolding f by (simp add: straggler_def Let_def)
qed

text \<open>
  C6. The output of two listeners of one container is not interleaved: once the newer one has
  shipped a record, the older one, which no longer runs, ships at most one more, the record
  that was in a thread when it was cancelled.
\<close>

theorem newer_listener_follows_older:
  assumes "reachable_world rt hosts thr cap w" and "older (w_sys w) i j"
    and "w_trace w = before @ Shipped j r # after"
  shows "task_phase (w_sys w) i \<noteq> Some Running \<and> length (by_task i after) \<le> 1 \<and>
    (w_thread w i \<noteq> None \<longrightarrow> by_task i after = [])"
proof -
  have "older_stopped (w_sys w)" "late_once w" using world_inv_reachable [OF assms(1)] by (simp_all add: world_inv_def)
  then have "task_phase (w_sys w) i \<noteq> Some Running" "length (by_task i after) + in_thread w i \<le> 1"
    using assms(2,3) unfolding older_stopped_def late_once_def by blast+
  then show ?thesis by (auto simp: in_thread_def)
qed

theorem newer_listener_follows_older_witness:
  "w_trace straggler = [Shipped 1 hi_record, Shipped 0 hi_record] \<and> older (w_sys straggler) 0 1 \<and>
     task_phase (w_sys straggler) 0 \<noteq> Some Running \<and> length (by_task 0 [Shipped 0 hi_record]) \<le> 1"
proof -
  have o: "older (w_sys straggler) 0 1" by (simp add: older_iff straggler_def Let_def web_task_def)
  have t: "w_trace straggler = [] @ Shipped 1 hi_record # [Shipped 0 hi_record]" by (simp add: straggler_def Let_def)
  from newer_listener_follows_older [OF straggler_run o t] o t show ?thesis by simp
qed

end
