(* ===== verification/Listener_Shutdown.thy ===== *)
theory Listener_Shutdown
  imports Listener_World
begin

text \<open>
  What a signal does to the listener process (\<^verbatim>\<open>__main__.py\<close>, \<open>ListenerManager.stop\<close> of
  \<^verbatim>\<open>app.py\<close>), over the steps of \<open>Listener_World\<close>: the records logger is closed while the
  container listeners still run; without a tracker that awaits a listener it stopped, the
  process can always get to its exit; and a tracker that awaits one survives the
  cancellation meant for it.
\<close>

section \<open>The cancelled loops\<close>

fun dead_lpc :: "listing_pc \<Rightarrow> listing_pc" where
  "dead_lpc (LDead e) = LDead e"
| "dead_lpc pc = LDead CancelledError"

fun cancelled_tpc :: "system \<Rightarrow> tracker_pc \<Rightarrow> tracker_pc" where
  "cancelled_tpc s (TDead e) = TDead e"
| "cancelled_tpc s (TAwait c tid cs) = (if alive s tid then TAwait c tid cs else TLoop cs)"
| "cancelled_tpc s pc = TDead CancelledError"

lemma cancel_one_lpc: "sys_lpc (cancel_tracker h (cancel_listing h s)) = (sys_lpc s)(h := dead_lpc (sys_lpc s h))"
proof -
  have "sys_lpc (cancel_tracker h s') = sys_lpc s'" for s'
    by (simp add: cancel_tracker_def split: tracker_pc.splits)
  then show ?thesis by (auto simp: cancel_listing_def fun_eq_iff split: listing_pc.splits)
qed

lemma alive_frame: "task_table (sys_ev s') = task_table (sys_ev s) \<Longrightarrow> alive s' i = alive s i"
  by (simp add: alive_def task_phase_def task_of_def)

lemma cancelled_tpc_frame: "task_table (sys_ev s') = task_table (sys_ev s) \<Longrightarrow> cancelled_tpc s' pc = cancelled_tpc s pc"
  by (cases pc) (simp_all add: alive_frame [of s' s])

lemma cancel_one_tpc:
  "sys_tpc (cancel_tracker h (cancel_listing h s)) = (sys_tpc s)(h := cancelled_tpc s (sys_tpc s h))"
proof -
  have 1: "sys_tpc (cancel_listing h s) = sys_tpc s" by (simp add: cancel_listing_def split: listing_pc.splits)
  have 2: "alive (cancel_listing h s) i = alive s i" for i by (rule alive_frame) simp
  show ?thesis by (auto simp: cancel_tracker_def 1 2 fun_eq_iff split: tracker_pc.splits)
qed

lemma cancel_loops_pcs:
  "sys_lpc (cancel_loops hosts s) h = (if h \<in> set hosts then dead_lpc (sys_lpc s h) else sys_lpc s h)"
  "sys_tpc (cancel_loops hosts s) h = (if h \<in> set hosts then cancelled_tpc s (sys_tpc s h) else sys_tpc s h)"
proof -
  let ?one = "\<lambda>h s. cancel_tracker h (cancel_listing h s)"
  have "sys_lpc (fold ?one hs s) h = (if h \<in> set hs then dead_lpc (sys_lpc s h) else sys_lpc s h) \<and>
    sys_tpc (fold ?one hs s) h = (if h \<in> set hs then cancelled_tpc s (sys_tpc s h) else sys_tpc s h)"
    if "distinct hs" for hs
    using that
  proof (induction hs arbitrary: s)
    case (Cons h' hs)
    have "cancelled_tpc (?one h' s) pc = cancelled_tpc s pc" for pc by (rule cancelled_tpc_frame) simp
    then show ?case using Cons by (auto simp: cancel_one_lpc cancel_one_tpc)
  qed simp
  from this [of "remdups hosts"] show
    "sys_lpc (cancel_loops hosts s) h = (if h \<in> set hosts then dead_lpc (sys_lpc s h) else sys_lpc s h)"
    "sys_tpc (cancel_loops hosts s) h = (if h \<in> set hosts then cancelled_tpc s (sys_tpc s h) else sys_tpc s h)"
    by (simp_all add: cancel_loops_def)
qed

lemma alive_loops [simp]: "alive (cancel_loops hosts s) i = alive s i"
  by (rule alive_frame) simp

lemma dead_lpc_LDead: "\<exists>e. dead_lpc pc = LDead e"
  by (cases pc) simp_all

lemma dead_lpc_fresh: "\<forall>e. pc \<noteq> LDead e \<Longrightarrow> dead_lpc pc = LDead CancelledError"
  by (cases pc) simp_all

text \<open>No tracker is waiting for a listener it has stopped.\<close>

definition none_awaiting :: "string list \<Rightarrow> system \<Rightarrow> bool" where
  "none_awaiting hosts s \<longleftrightarrow> (\<forall>h\<in>set hosts. case sys_tpc s h of TAwait c tid cs \<Rightarrow> False | _ \<Rightarrow> True)"

lemma cancel_loops_dead:
  assumes "none_awaiting hosts s"
  shows "loops_dead hosts (cancel_loops hosts s)"
  unfolding loops_dead_def
proof (intro ballI conjI)
  fix h assume h: "h \<in> set hosts"
  show "case sys_lpc (cancel_loops hosts s) h of LDead e \<Rightarrow> True | _ \<Rightarrow> False"
    using h dead_lpc_LDead [of "sys_lpc s h"] by (auto simp: cancel_loops_pcs)
  show "case sys_tpc (cancel_loops hosts s) h of TDead e \<Rightarrow> True | _ \<Rightarrow> False"
    using h assms by (cases "sys_tpc s h") (auto simp: cancel_loops_pcs none_awaiting_def)
qed

lemma loops_dead_iff: "loops_dead hosts s \<longleftrightarrow> (\<forall>h\<in>set hosts. (\<exists>e. sys_lpc s h = LDead e) \<and> (\<exists>e. sys_tpc s h = TDead e))"
  unfolding loops_dead_def by (intro ball_cong refl arg_cong2 [where f = conj]) (simp split: listing_pc.splits tracker_pc.splits)+

lemma settled_iff: "settled hosts s \<longleftrightarrow> (\<forall>h\<in>set hosts. (\<forall>refs. sys_lpc s h \<noteq> LNotify refs) \<and> (\<forall>cs. sys_tpc s h \<noteq> TLoop cs))"
  unfolding settled_def by (intro ball_cong refl arg_cong2 [where f = conj]) (simp split: listing_pc.splits tracker_pc.splits)+

lemma cancel_dead_loops:
  assumes "loops_dead hosts s"
  shows "loops_dead hosts (cancel_loops hosts s)" and "settled hosts s"
  using assms by (fastforce simp: loops_dead_iff settled_iff cancel_loops_pcs)+

section \<open>Serving\<close>

lemma serving_sys:
  assumes "reachable_world rt hosts thr cap w" and "w_phase w = Serving"
  shows "reachable hosts thr cap (w_sys w)"
  using assms unfolding reachable_world_def
proof (induction rule: rtranclp_induct)
  case base
  then show ?case by (simp add: reachable_def init_world_def)
next
  case (step w1 w2)
  from step.hyps(2) step.prems have "w_phase w1 = Serving" "sys_steps hosts thr (w_sys w1) (w_sys w2)"
    by (cases rule: world_step.cases; auto)+
  then show ?case using step.IH reachable_steps by blast
qed

text \<open>From a signal to the closing of the logger: two steps that touch no listener task.\<close>

lemma signal_closes:
  assumes "reachable_world rt hosts thr cap w" and "w_phase w = Serving" and "hosts \<noteq> []" and "settled hosts (w_sys w)"
  shows "world_steps rt hosts thr w
    (w\<lparr>w_sys := cancel_loops hosts (w_sys w), w_trace := w_trace w @ [LoggerClosed], w_phase := Returned (Inr ())\<rparr>)"
proof -
  let ?w1 = "w\<lparr>w_sys := cancel_loops hosts (w_sys w), w_phase := Stopping\<rparr>"
  have h: "hd hosts \<in> set hosts" using assms(3) by simp
  have "sys_lpc (w_sys w) (hd hosts) \<noteq> LDead e" for e
    using routed_reachable [OF serving_sys [OF assms(1,2)]] unfolding routed_def by blast
  then have "sys_lpc (w_sys ?w1) (hd hosts) = LDead CancelledError"
    using h dead_lpc_fresh by (simp add: cancel_loops_pcs)
  then have "world_step rt hosts thr ?w1
      (w\<lparr>w_sys := cancel_loops hosts (w_sys w), w_trace := w_trace w @ [LoggerClosed], w_phase := Returned (Inr ())\<rparr>)"
    using w_closed [of ?w1 "hd hosts" hosts rt thr] h by simp
  moreover have "world_step rt hosts thr w ?w1" using w_signal [OF assms(2-4)] .
  ultimately show ?thesis by simp
qed

section \<open>What the calls do to the logger\<close>

lemma logger_of_append: "logger_of rt (xs @ ys) lg = logger_of rt ys (logger_of rt xs lg)"
  by (simp add: logger_of_def)

fun calls_of :: "runtime \<Rightarrow> handler \<Rightarrow> world_event \<Rightarrow> handler_call list" where
  "calls_of rt h (Shipped i r) = [Emitted h (dump_json rt (LogRecord r))]"
| "calls_of rt h LoggerClosed = [Flushed h, Closed h]"
| "calls_of rt h AtExit = [Flushed h, Closed h]"

lemma logger_of_calls:
  assumes "lg_level lg \<le> 20" and "lg_handlers lg = [h]"
  shows "lg_calls (logger_of rt tr lg) = lg_calls lg @ concat (map (calls_of rt h) tr)"
proof -
  have "lg_level (logger_of rt tr lg) = lg_level lg \<and> lg_handlers (logger_of rt tr lg) = lg_handlers lg \<and>
    lg_calls (logger_of rt tr lg) = lg_calls lg @ concat (map (calls_of rt h) tr)"
  proof (induction tr rule: rev_induct)
    case (snoc e tr)
    then show ?case using assms by (cases e) (auto simp: logger_of_append logger_of_def ainfo_def close_records_logger_def logging_shutdown_def)
  qed (simp add: logger_of_def)
  then show ?thesis by simp
qed

section \<open>After the last cancellation\<close>

text \<open>One task brought to its end, its record shipped when it is in a thread.\<close>

lemma task_quieted:
  assumes "w_phase w = Final r" and "\<forall>j. task_phase (w_sys w) j \<noteq> Some Running" and "loops_dead hosts (w_sys w)"
  shows "\<exists>w'. world_steps rt hosts thr w w' \<and> w_phase w' = Final r \<and> (\<forall>j. task_phase (w_sys w') j \<noteq> Some Running) \<and>
    loops_dead hosts (w_sys w') \<and> next_task (sys_ev (w_sys w')) = next_task (sys_ev (w_sys w)) \<and>
    prefix (w_trace w) (w_trace w') \<and> \<not> alive (w_sys w') i \<and> w_thread w' i = None \<and>
    (\<forall>j. j \<noteq> i \<longrightarrow> alive (w_sys w') j = alive (w_sys w) j \<and> w_thread w' j = w_thread w j)"
proof -
  define w1 where "w1 = (case w_thread w i of None \<Rightarrow> w
    | Some x \<Rightarrow> w\<lparr>w_thread := (w_thread w)(i := None), w_trace := w_trace w @ [Shipped i x]\<rparr>)"
  have 1: "world_steps rt hosts thr w w1"
    using w_ship [of w i _ rt hosts thr] by (auto simp: w1_def split: option.split)
  have w1: "w_sys w1 = w_sys w" "w_phase w1 = Final r" "prefix (w_trace w) (w_trace w1)" "w_thread w1 i = None"
    "j \<noteq> i \<Longrightarrow> w_thread w1 j = w_thread w j" for j
    using assms(1) by (auto simp: w1_def split: option.split)
  show ?thesis
  proof (cases "alive (w_sys w) i")
    case False
    then show ?thesis using 1 w1 assms(2,3) by (intro exI [of _ w1]) simp
  next
    case True
    then obtain t where t: "task_of (w_sys w) i = Some t" "task_st t = Cancelling"
      using assms(2) by (auto simp: alive_def task_phase_def)
    let ?s = "set_ev (w_sys w) (end_task (sys_ev (w_sys w)) i (Done Cancelled))"
    let ?w2 = "w1\<lparr>w_sys := ?s\<rparr>"
    have ph: "task_phase ?s j = (if j = i then Some (Done Cancelled) else task_phase (w_sys w) j)" for j
      using t by (simp add: task_phase_def task_of_def)
    have "sys_step hosts thr (w_sys w1) ?s"
      using task_end [of "w_sys w" i t Cancelled hosts thr] t by (simp add: w1(1) task_of_def)
    moreover have "threads_awaited w1 ?s" using assms(2) by (simp add: threads_awaited_def w1(1))
    ultimately have 2: "world_step rt hosts thr w1 ?w2" using w_loops [of hosts thr w1 ?s rt] w1(2) by simp
    have "loops_dead hosts ?s" using assms(3) by (simp add: loops_dead_iff)
    then show ?thesis using rtranclp.rtrancl_into_rtrancl [OF 1 2] w1 assms(2)
      by (intro exI [of _ ?w2]) (simp add: ph alive_def)
  qed
qed

lemma tasks_quieted:
  assumes "w_phase w = Final r" and "\<forall>j. task_phase (w_sys w) j \<noteq> Some Running" and "loops_dead hosts (w_sys w)"
  shows "\<exists>w'. world_steps rt hosts thr w w' \<and> w_phase w' = Final r \<and> (\<forall>j. task_phase (w_sys w') j \<noteq> Some Running) \<and>
    loops_dead hosts (w_sys w') \<and> next_task (sys_ev (w_sys w')) = next_task (sys_ev (w_sys w)) \<and>
    prefix (w_trace w) (w_trace w') \<and> (\<forall>j<n. \<not> alive (w_sys w') j \<and> w_thread w' j = None)"
proof (induction n)
  case 0
  show ?case using assms by (intro exI [of _ w]) simp
next
  case (Suc n)
  then obtain w1 where w1: "world_steps rt hosts thr w w1" "w_phase w1 = Final r"
    "\<forall>j. task_phase (w_sys w1) j \<noteq> Some Running" "loops_dead hosts (w_sys w1)"
    "next_task (sys_ev (w_sys w1)) = next_task (sys_ev (w_sys w))" "prefix (w_trace w) (w_trace w1)"
    "\<forall>j<n. \<not> alive (w_sys w1) j \<and> w_thread w1 j = None" by blast
  from task_quieted [OF w1(2-4), of rt thr n] obtain w2 where w2: "world_steps rt hosts thr w1 w2" "w_phase w2 = Final r"
    "\<forall>j. task_phase (w_sys w2) j \<noteq> Some Running" "loops_dead hosts (w_sys w2)"
    "next_task (sys_ev (w_sys w2)) = next_task (sys_ev (w_sys w1))" "prefix (w_trace w1) (w_trace w2)"
    "\<not> alive (w_sys w2) n" "w_thread w2 n = None"
    "\<forall>j. j \<noteq> n \<longrightarrow> alive (w_sys w2) j = alive (w_sys w1) j \<and> w_thread w2 j = w_thread w1 j" by blast
  have "\<forall>j<Suc n. \<not> alive (w_sys w2) j \<and> w_thread w2 j = None"
    using w1(7) w2(7-9) by (metis less_SucE)
  moreover have "world_steps rt hosts thr w w2" "prefix (w_trace w) (w_trace w2)"
    using w1(1) w2(1) prefix_order.trans [OF w1(6) w2(6)] by simp_all
  ultimately show ?case using w2(2-5) w1(5) by (intro exI [of _ w2]) simp
qed

text \<open>With its loops dead and everything cancelled, the process can get to its exit.\<close>

lemma exits:
  assumes "w_phase w = Returned r" and "loops_dead hosts (w_sys w)"
  shows "\<exists>w'. world_steps rt hosts thr w w' \<and> w_phase w' = Exited r \<and> all_quiet hosts w' \<and> prefix (w_trace w) (w_trace w')"
proof -
  let ?w1 = "w\<lparr>w_sys := cancel_listeners (cancel_loops hosts (w_sys w)), w_phase := Final r\<rparr>"
  have 1: "world_step rt hosts thr w ?w1" using w_final [OF assms(1) cancel_dead_loops(2) [OF assms(2)]] .
  have "task_phase (w_sys ?w1) j \<noteq> Some Running" for j by (auto simp: task_phase_def)
  moreover have "loops_dead hosts (w_sys ?w1)" using cancel_dead_loops(1) [OF assms(2)] by (simp add: loops_dead_iff)
  ultimately obtain w2 where w2: "world_steps rt hosts thr ?w1 w2" "w_phase w2 = Final r" "loops_dead hosts (w_sys w2)"
    "next_task (sys_ev (w_sys w2)) = next_task (sys_ev (w_sys ?w1))" "prefix (w_trace ?w1) (w_trace w2)"
    "\<forall>j<next_task (sys_ev (w_sys ?w1)). \<not> alive (w_sys w2) j \<and> w_thread w2 j = None"
    using tasks_quieted [of ?w1 r hosts rt thr "next_task (sys_ev (w_sys ?w1))"] by auto
  have q: "all_quiet hosts w2" using w2(3,4,6) by (simp add: all_quiet_def)
  let ?w3 = "w2\<lparr>w_trace := w_trace w2 @ [AtExit], w_phase := Exited r\<rparr>"
  have "world_step rt hosts thr w2 ?w3" using w_exit [OF w2(2) q] .
  then have "world_steps rt hosts thr w ?w3" using 1 w2(1) by simp
  moreover have "all_quiet hosts ?w3" using q by (simp add: all_quiet_def)
  moreover have "prefix (w_trace w) (w_trace ?w3)" using w2(5) by (auto simp: prefix_def)
  ultimately show ?thesis by (intro exI [of _ ?w3]) simp
qed

section \<open>At the exit\<close>






section \<open>A tracker that survives its cancellation\<close>

definition some_failed :: "system \<Rightarrow> bool" where
  "some_failed s \<longleftrightarrow> (\<exists>i e. task_phase s i \<in> {Some (Done (Failed e)), Some (Collected (Failed e))})"

lemma some_failed_step:
  assumes "sys_step hosts thr s s'" and inv: "run_inv s" and "some_failed s"
  shows "some_failed s'"
proof -
  obtain i e t where i: "task_table (sys_ev s) i = Some t" "task_st t = Done (Failed e) \<or> task_st t = Collected (Failed e)"
    using assms(3) by (auto simp: some_failed_def task_phase_def task_of_def)
  from assms(1) have "task_phase s' i \<in> {Some (Done (Failed e)), Some (Collected (Failed e))}"
  proof (cases rule: sys_step.cases)
    case (acquire_spawn h ref refs m m' ev')
    have "i \<noteq> next_task (sys_ev s)" using i run_inv_D(3) [OF inv, of i] by (auto simp: task_of_def)
    then show ?thesis using i acquire_spawn(1) spawn_locked_Some(3) [OF acquire_spawn(5)]
      by (simp add: task_phase_def task_of_def)
  next
    case (stop_cancel h c cs m tid m')
    then have "task_table (sys_ev s') i = Some t"
      using i by (auto simp: cancel_task_of cancelled_task_def simp del: cancel_task_simps(3))
    then show ?thesis using i by (auto simp: task_phase_def task_of_def)
  qed (use i in \<open>auto simp: task_phase_def task_of_def\<close>)
  then show ?thesis unfolding some_failed_def by blast
qed

text \<open>A tracker loop ends, other than by cancellation, only with the exception of a listener.\<close>

lemma tracker_crash_step:
  assumes "sys_step hosts thr s s'" and "\<forall>e. sys_tpc s h \<noteq> TDead e" and "sys_tpc s' h = TDead e"
  shows "some_failed s'"
  using assms(1)
proof (cases rule: sys_step.cases)
  case (awaited_crash h' c tid cs t e')
  then show ?thesis by (auto simp: some_failed_def task_phase_def task_of_def)
qed (use assms(2,3) in \<open>auto split: if_splits\<close>)

definition surviving :: "string \<Rightarrow> world \<Rightarrow> bool" where
  "surviving h w \<longleftrightarrow> (\<forall>r. w_phase w \<noteq> Serving \<and> w_phase w \<noteq> Stopping \<and> w_phase w \<noteq> Returned r) \<and>
     (some_failed (w_sys w) \<or> (\<forall>e. sys_tpc (w_sys w) h \<noteq> TDead e) \<and> (\<forall>r. w_phase w \<noteq> Exited r))"

lemma surviving_step:
  assumes "world_step rt hosts thr w w'" and "run_inv (w_sys w)" and "h \<in> set hosts" and "surviving h w"
  shows "surviving h w'"
  using assms(1)
proof (cases rule: world_step.cases)
  case (w_loops s')
  then show ?thesis using assms(4) some_failed_step [OF _ assms(2)] tracker_crash_step [of hosts thr "w_sys w" s' h]
    by (auto simp: surviving_def)
next
  case (w_exit r)
  then show ?thesis using assms(3,4) by (auto simp: surviving_def all_quiet_def loops_dead_iff)
qed (use assms(4) in \<open>auto simp: surviving_def\<close>)

lemma surviving_steps:
  assumes "world_steps rt hosts thr w w'" and "run_inv (w_sys w)" and "h \<in> set hosts" and "surviving h w"
  shows "surviving h w'"
  using assms
proof (induction rule: rtranclp_induct)
  case (step w1 w2)
  have "run_inv (w_sys w1)" using step.hyps(1) step.prems(1)
    by (induction rule: rtranclp_induct) (auto intro: world_run_inv)
  then show ?case using surviving_step [OF step.hyps(2)] step.IH step.prems by blast
qed

section \<open>Properties\<close>

text \<open>
  C9. At a signal the logger's handler is flushed and closed while the container listeners
  still run, uncancelled: a listener that runs can hand over the record of a further line
  after the closing, to a closed handler, before \<open>asyncio.run\<close> cancels it. The comment before
  the closing says that the listeners have ended by then and that closing makes sure their
  records are shipped.
\<close>

theorem logger_closed_before_listeners_end:
  assumes "reachable_world rt hosts thr cap w" and "w_phase w = Serving" and "hosts \<noteq> []" and "settled hosts (w_sys w)"
    and "task_phase (w_sys w) i = Some Running" and "w_thread w i = None" and "next_record rt w i l = Some r"
    and "lg = build_records_logger host port path lg0" and "h = \<lparr>h_host = host, h_port = port, h_database_path = path\<rparr>"
  shows "\<exists>w'. world_steps rt hosts thr w w' \<and> w_phase w' = Returned (Inr ()) \<and> task_phase (w_sys w') i = Some Running \<and>
    lg_calls (logger_of rt (w_trace w') lg) =
      lg_calls (logger_of rt (w_trace w) lg) @ [Flushed h, Closed h, Emitted h (dump_json rt (LogRecord r))]"
proof -
  let ?w1 = "w\<lparr>w_sys := cancel_loops hosts (w_sys w), w_trace := w_trace w @ [LoggerClosed], w_phase := Returned (Inr ())\<rparr>"
  let ?w2 = "?w1\<lparr>w_lines := (w_lines w)(i := w_lines w i @ [l]), w_thread := (w_thread w)(i := Some r)\<rparr>"
  let ?w3 = "?w2\<lparr>w_thread := (w_thread w)(i := None), w_trace := w_trace w @ [LoggerClosed, Shipped i r]\<rparr>"
  have 1: "world_steps rt hosts thr w ?w1" by (rule signal_closes [OF assms(1-4)])
  have run: "task_phase (w_sys ?w1) i = Some Running" using assms(5) by (simp add: task_phase_def)
  have "next_record rt ?w1 i l = Some r" using assms(7) by (auto simp: next_record_def split: option.splits)
  then have 2: "world_step rt hosts thr ?w1 ?w2" using w_read [of ?w1 i rt l r hosts thr] run assms(6) by simp
  have 3: "world_step rt hosts thr ?w2 ?w3" using w_ship [of ?w2 i r rt hosts thr] by simp
  have "lg_level lg \<le> 20" "lg_handlers lg = [h]" using assms(8,9) by (simp_all add: build_records_logger_def)
  from logger_of_calls [OF this, of rt] have "lg_calls (logger_of rt (w_trace ?w3) lg) =
      lg_calls (logger_of rt (w_trace w) lg) @ [Flushed h, Closed h, Emitted h (dump_json rt (LogRecord r))]" by simp
  moreover have "world_steps rt hosts thr w ?w3" using 1 2 3 by simp
  ultimately show ?thesis using run by (intro exI [of _ ?w3]) simp
qed

text \<open>
  C10. A signal that comes while no tracker is waiting for a listener it has stopped can be
  carried through: the process can get to its exit, with a normal result, the logger closed,
  every loop and listener ended and no record left in a thread.
\<close>

theorem shutdown_can_complete:
  assumes "reachable_world rt hosts thr cap w" and "w_phase w = Serving" and "hosts \<noteq> []" and "settled hosts (w_sys w)"
    and "none_awaiting hosts (w_sys w)"
  shows "\<exists>w'. world_steps rt hosts thr w w' \<and> w_phase w' = Exited (Inr ()) \<and> all_quiet hosts w' \<and>
    prefix (w_trace w @ [LoggerClosed]) (w_trace w')"
proof -
  let ?w1 = "w\<lparr>w_sys := cancel_loops hosts (w_sys w), w_trace := w_trace w @ [LoggerClosed], w_phase := Returned (Inr ())\<rparr>"
  have 1: "world_steps rt hosts thr w ?w1" by (rule signal_closes [OF assms(1-4)])
  have "loops_dead hosts (w_sys ?w1)" using cancel_loops_dead [OF assms(5)] by simp
  then obtain w' where "world_steps rt hosts thr ?w1 w'" "w_phase w' = Exited (Inr ())" "all_quiet hosts w'"
    "prefix (w_trace ?w1) (w_trace w')"
    using exits [of ?w1 "Inr ()" hosts rt thr] by auto
  then show ?thesis using rtranclp_trans [OF 1] by auto
qed

text \<open>
  C7. \<open>stop\<close> swallows a cancellation of the tracker as if it were its listener's: when the last
  cancellation there is, that of all remaining tasks by \<open>asyncio.run\<close>, meets a tracker that
  waits for a listener it has stopped, the tracker goes on, and unless a listener task ends with
  an exception the process never exits, whatever happens afterwards. (A tracker that survives
  only the cancellation at the signal in this way is met by that last one elsewhere.)
\<close>

theorem awaiting_tracker_outlives_shutdown:
  assumes "reachable_world rt hosts thr cap w" and "w_phase w = Returned r" and "settled hosts (w_sys w)"
    and "h \<in> set hosts" and "sys_tpc (w_sys w) h = TAwait c tid cs" and "task_phase (w_sys w) tid = Some Cancelling"
    and "w1 = w\<lparr>w_sys := cancel_listeners (cancel_loops hosts (w_sys w)), w_phase := Final r\<rparr>"
    and "world_steps rt hosts thr w1 w'" and "\<not> some_failed (w_sys w')"
  shows "world_step rt hosts thr w w1 \<and> (\<forall>e. sys_tpc (w_sys w') h \<noteq> TDead e) \<and> (\<forall>r'. w_phase w' \<noteq> Exited r')"
proof -
  have step: "world_step rt hosts thr w w1" unfolding assms(7) by (rule w_final [OF assms(2,3)])
  have inv: "run_inv (w_sys w)" using world_inv_reachable [OF assms(1)] by (simp add: world_inv_def)
  have "alive (w_sys w) tid" using assms(6) by (simp add: alive_def)
  then have "surviving h w1" using assms(4,5) by (simp add: surviving_def assms(7) cancel_loops_pcs)
  then have "surviving h w'" using surviving_steps [OF assms(8) world_run_inv [OF step inv] assms(4)] by simp
  then show ?thesis using step assms(9) by (simp add: surviving_def)
qed


section \<open>Witnesses\<close>

theorem logger_closed_before_listeners_end_witness:
  "let h = \<lparr>h_host = ''logstash'', h_port = 5000, h_database_path = ''db''\<rparr>;
       lg = build_records_logger ''logstash'' 5000 ''db'' \<lparr>lg_level = 30, lg_propagate = True, lg_handlers = [], lg_calls = []\<rparr>
   in \<exists>w'. world_steps one_line_rt [''d''] 0 straggler w' \<and> w_phase w' = Returned (Inr ()) \<and>
        task_phase (w_sys w') 1 = Some Running \<and>
        lg_calls (logger_of one_line_rt (w_trace w') lg) =
          [Emitted h ''1'', Emitted h ''1'', Flushed h, Closed h, Emitted h ''2'']"
proof -
  let ?h = "\<lparr>h_host = ''logstash'', h_port = 5000, h_database_path = ''db''\<rparr>"
  let ?base = "\<lparr>lg_level = 30, lg_propagate = True, lg_handlers = [], lg_calls = []\<rparr>"
  let ?lg = "build_records_logger ''logstash'' 5000 ''db'' ?base"
  have w: "w_phase straggler = Serving" "settled [''d''] (w_sys straggler)" "task_phase (w_sys straggler) 1 = Some Running"
    "w_thread straggler 1 = None" "[''d''] \<noteq> []"
    by (simp_all add: straggler_def Let_def settled_def task_phase_def web_task_def)
  have n: "next_record one_line_rt straggler 1 hi_line = Some (hi_record\<lparr>seq := 2\<rparr>)"
    using one_line_records [of 2 STDOUT]
    by (simp add: next_record_def straggler_def Let_def web_task_def hi_line_def hi_record_def split: option.splits)
  have d: "dump_json one_line_rt (LogRecord (hi_record\<lparr>seq := 2\<rparr>)) = ''2''" "dump_json one_line_rt (LogRecord hi_record) = ''1''"
    by (simp add: dump_json_def one_line_rt_def hi_record_def, code_simp)+
  have "lg_level ?lg \<le> 20" "lg_handlers ?lg = [?h]" by (simp_all add: build_records_logger_def)
  from logger_of_calls [OF this, of one_line_rt "w_trace straggler"]
  have "lg_calls (logger_of one_line_rt (w_trace straggler) ?lg) = [Emitted ?h ''1'', Emitted ?h ''1'']"
    by (simp add: straggler_def Let_def d build_records_logger_def)
  then show ?thesis
    using logger_closed_before_listeners_end [OF straggler_run w(1,5,2-4) n refl refl, of "''logstash''" 5000 "''db''" ?base]
    unfolding Let_def d by simp
qed

theorem shutdown_can_complete_witness:
  "\<exists>w'. world_steps one_line_rt [''d''] 0 straggler w' \<and> w_phase w' = Exited (Inr ()) \<and> \<not> alive (w_sys w') 1"
proof -
  have w: "w_phase straggler = Serving" "[''d''] \<noteq> []" "settled [''d''] (w_sys straggler)" "none_awaiting [''d''] (w_sys straggler)"
    by (simp_all add: straggler_def Let_def settled_def none_awaiting_def)
  obtain w' where w': "world_steps one_line_rt [''d''] 0 straggler w'" "w_phase w' = Exited (Inr ())" "all_quiet [''d''] w'"
    using shutdown_can_complete [OF straggler_run w] by blast
  have "reachable_world one_line_rt [''d''] 0 1 w'"
    using straggler_run w'(1) unfolding reachable_world_def by (rule rtranclp_trans)
  then have "run_inv (w_sys w')" using world_inv_reachable by (simp add: world_inv_def)
  then have "\<not> alive (w_sys w') 1"
    using w'(3) run_inv_D(3) [of "w_sys w'" 1] by (fastforce simp: all_quiet_def alive_def task_phase_def)
  then show ?thesis using w' by blast
qed


lemma cancel_web_loops:
  assumes "tab 0 = Some (web_task Cancelling)"
  shows "cancel_loops [''d''] (sys_at r regd tab n 1 LIdle (TAwait ''c'' 0 [])) =
      sys_at r regd tab n 1 (LDead CancelledError) (TAwait ''c'' 0 [])"
    and "cancel_loops [''d''] (sys_at r regd tab n 1 (LDead CancelledError) (TAwait ''c'' 0 [])) =
      sys_at r regd tab n 1 (LDead CancelledError) (TAwait ''c'' 0 [])"
  using assms by (simp_all add: cancel_loops_def cancel_listing_def cancel_tracker_def alive_def task_phase_def web_task_def)

theorem awaiting_tracker_outlives_shutdown_witness:
  "\<exists>w'. reachable_world one_line_rt [''d''] 0 1 w' \<and> w_phase w' = Final (Inr ()) \<and> sys_tpc (w_sys w') ''d'' = TIdle \<and>
     {x. world_steps one_line_rt [''d''] 0 w' x \<and> \<not> some_failed (w_sys x) \<and> w_phase x = Exited (Inr ())} = {}"
proof -
  define r0 where "r0 = on_new_container new_registry ()"
  define r1 where "r1 = fst (update r0 ''d'' [web_ref])"
  define r2 where "r2 = snd (state_for r1 ''d'')"
  define s1 where "s1 = (\<lambda>lp. sys_at r2 Map.empty [0 \<mapsto> web_task Cancelling] 1 1 lp (TAwait ''c'' 0 []))"
  let ?w0 = "init_world [''d''] 1" and ?go = "world_steps one_line_rt [''d''] 0"
  let ?w1 = "?w0\<lparr>w_sys := s1 LIdle\<rparr>"
  let ?tab = "[0 \<mapsto> web_task Running]" and ?sB = "sys_at r2 [''c'' \<mapsto> 0] [0 \<mapsto> web_task Running] 1 1 LIdle (TLog ''c'' [])"
  let ?w2 = "?w1\<lparr>w_sys := s1 (LDead CancelledError), w_trace := [LoggerClosed], w_phase := Returned (Inr ())\<rparr>"
  let ?w3 = "?w2\<lparr>w_phase := Final (Inr ())\<rparr>"
  let ?s4 = "sys_at (forget r2 ''d'' ''c'') Map.empty [0 \<mapsto> web_task (Done Cancelled)] 1 1 (LDead CancelledError) TIdle"
  have ov: "overdue 0 r1 ''d'' ''c''" unfolding r1_def by (rule web_listed(3))
  have tab: "?tab 0 = Some (web_task Running)" by simp
  note B = web_stopping(1) [where i = 0 and n = 1 and tab = ?tab, OF ov tab refl]
    and C = web_stopping(2) [where i = 0 and n = 1 and tab = ?tab, OF ov tab refl]
  have A: "sys_steps [''d''] 0 (w_sys ?w0) (sys_at r1 [''c'' \<mapsto> 0] [0 \<mapsto> web_task Running] 1 1 LIdle TIdle)"
    using web_spawned [where thr = 0 and r = r0 and regd = Map.empty and tab = Map.empty and n = 0 and tp = TIdle] web_listed
    by (simp add: init_world_def sys_at_start r0_def r1_def)
  have "sys_step [''d''] 0 ?sB (s1 LIdle)" using C unfolding s1_def r2_def fun_upd_upd .
  from rtranclp.rtrancl_into_rtrancl [OF rtranclp_trans [OF A B [folded r2_def]], OF this]
  have S: "sys_steps [''d''] 0 (w_sys ?w0) (s1 LIdle)" .
  have inv0: "run_inv (w_sys ?w0)" by (simp add: init_world_def run_inv_init)
  have "?go (?w0\<lparr>w_sys := w_sys ?w0\<rparr>) ?w1" by (rule loops_world [OF S inv0]) (simp_all add: init_world_def)
  then have w1: "reachable_world one_line_rt [''d''] 0 1 ?w1" by (simp add: reachable_world_def)
  have c: "cancel_loops [''d''] (s1 LIdle) = s1 (LDead CancelledError)"
    "cancel_loops [''d''] (s1 (LDead CancelledError)) = s1 (LDead CancelledError)"
    by (simp_all add: s1_def cancel_web_loops)
  have c2: "settled [''d''] (s1 LIdle)" "settled [''d''] (s1 (LDead CancelledError))"
    by (simp_all add: s1_def settled_iff)
  have c3: "cancel_listeners (s1 (LDead CancelledError)) = s1 (LDead CancelledError)"
    by (auto simp: cancel_listeners_def s1_def cancelled_task_def web_task_def sys_at_def set_ev_def fun_eq_iff)
  have "?go ?w1 (?w1\<lparr>w_sys := cancel_loops [''d''] (w_sys ?w1), w_trace := w_trace ?w1 @ [LoggerClosed], w_phase := Returned (Inr ())\<rparr>)"
    by (rule signal_closes [OF w1]) (simp_all add: init_world_def c2)
  then have "?go ?w1 ?w2" by (simp add: c init_world_def)
  with w1 have w2: "reachable_world one_line_rt [''d''] 0 1 ?w2" unfolding reachable_world_def by (rule rtranclp_trans)
  have h: "w_phase ?w2 = Returned (Inr ())" "settled [''d''] (w_sys ?w2)" "''d'' \<in> set [''d'']"
    "sys_tpc (w_sys ?w2) ''d'' = TAwait ''c'' 0 []" "task_phase (w_sys ?w2) 0 = Some Cancelling"
    by (simp_all add: c2, simp_all add: s1_def task_phase_def web_task_def)
  have w3: "?w3 = ?w2\<lparr>w_sys := cancel_listeners (cancel_loops [''d''] (w_sys ?w2)), w_phase := Final (Inr ())\<rparr>"
    by (simp add: c(2) c3)
  note th = awaiting_tracker_outlives_shutdown [OF w2 h w3]
  have "?go ?w3 ?w3" by simp
  then have "world_step one_line_rt [''d''] 0 ?w2 ?w3"
    using th [of ?w3] by (simp add: some_failed_def s1_def task_phase_def web_task_def split: if_splits)
  with w2 have r3: "reachable_world one_line_rt [''d''] 0 1 ?w3" unfolding reachable_world_def by simp
  have "sys_steps [''d''] 0 (s1 (LDead CancelledError)) ?s4"
    using web_stopped [where tab = "[0 \<mapsto> web_task Cancelling]" and i = 0, OF fun_upd_same] unfolding s1_def fun_upd_upd .
  then have "?go (?w3\<lparr>w_sys := s1 (LDead CancelledError)\<rparr>) (?w3\<lparr>w_sys := ?s4\<rparr>)"
    by (rule loops_world) (use world_inv_reachable [OF r3] in \<open>simp_all add: world_inv_def init_world_def\<close>)
  moreover have "?w3\<lparr>w_sys := s1 (LDead CancelledError)\<rparr> = ?w3" by (simp add: init_world_def)
  ultimately have go: "?go ?w3 (?w3\<lparr>w_sys := ?s4\<rparr>)" by (simp only:)
  with r3 have "reachable_world one_line_rt [''d''] 0 1 (?w3\<lparr>w_sys := ?s4\<rparr>)" unfolding reachable_world_def by (rule rtranclp_trans)
  moreover have "w_phase x \<noteq> Exited (Inr ())" if "?go (?w3\<lparr>w_sys := ?s4\<rparr>) x" "\<not> some_failed (w_sys x)" for x
    using th [OF rtranclp_trans [OF go that(1)] that(2)] by blast
  ultimately show ?thesis by (intro exI [of _ "?w3\<lparr>w_sys := ?s4\<rparr>"]) auto
qed

end
