(* ===== verification/Stream_Ids.thy ===== *)
theory Stream_Ids
  imports Schema
begin

text \<open>
  Redis Stream IDs as the server uses them: a millisecond time and a sequence number, ordered
  lexicographically, printed \<open><ms>-<seq>\<close>. The order is a \<open>linorder\<close> instance, so that sorted
  streams and ranges are the library's; printing is shown injective.
\<close>

datatype stream_id = SID (sid_ms: nat) (sid_seq: nat)

instantiation stream_id :: linorder
begin

definition less_eq_stream_id :: "stream_id \<Rightarrow> stream_id \<Rightarrow> bool" where
  "less_eq_stream_id a b \<longleftrightarrow> sid_ms a < sid_ms b \<or> sid_ms a = sid_ms b \<and> sid_seq a \<le> sid_seq b"

definition less_stream_id :: "stream_id \<Rightarrow> stream_id \<Rightarrow> bool" where
  "less_stream_id a b \<longleftrightarrow> sid_ms a < sid_ms b \<or> sid_ms a = sid_ms b \<and> sid_seq a < sid_seq b"

instance
  by standard (auto simp: less_eq_stream_id_def less_stream_id_def stream_id.expand)

end

definition show_sid :: "stream_id \<Rightarrow> string" where
  "show_sid i = show_nat (sid_ms i) @ ''-'' @ show_nat (sid_seq i)"

lemma sid_le_floor: "SID ms 0 \<le> i \<longleftrightarrow> ms \<le> sid_ms i"
  by (auto simp: less_eq_stream_id_def)

lemma sid_le_ceiling: "sid_seq i \<le> m \<Longrightarrow> i \<le> SID ms m \<longleftrightarrow> sid_ms i \<le> ms"
  by (auto simp: less_eq_stream_id_def)

lemma show_sid_partition: "py_partition CHR ''-'' (show_sid i) = (show_nat (sid_ms i), True, show_nat (sid_seq i))"
proof -
  have "CHR ''-'' \<notin> set (show_nat (sid_ms i))"
    using show_nat_digits [of "CHR ''-''" "sid_ms i"] is_dec_not_dash(1) by blast
  from py_partition_intro [OF this] show ?thesis by (simp add: show_sid_def)
qed

lemma show_sid_inject [simp]: "show_sid i = show_sid j \<longleftrightarrow> i = j"
proof
  assume "show_sid i = show_sid j"
  then have "(show_nat (sid_ms i), True, show_nat (sid_seq i)) = (show_nat (sid_ms j), True, show_nat (sid_seq j))"
    using show_sid_partition [of i] show_sid_partition [of j] by simp
  then show "i = j" by (simp add: stream_id.expand)
qed simp

text \<open>Reading an ID back.\<close>

definition read_sid :: "string \<Rightarrow> stream_id" where
  "read_sid s = (case py_partition CHR ''-'' s of (a, _, b) \<Rightarrow> SID (nat (decimal_val a)) (nat (decimal_val b)))"

lemma read_show_sid [simp]: "read_sid (show_sid i) = i"
  by (simp add: read_sid_def show_sid_partition decimal_val_show_nat)

lemma show_sid_nonempty [simp]: "show_sid i \<noteq> []"
  by (simp add: show_sid_def)

lemma show_nat_hd_dec: "is_dec (hd (show_nat n))"
  using show_nat_digits [of "hd (show_nat n)" n] by simp

lemma show_sid_no_paren: "show_sid i \<noteq> CHR ''('' # r"
proof
  assume e: "show_sid i = CHR ''('' # r"
  have "hd (show_sid i) = hd (show_nat (sid_ms i))" by (simp add: show_sid_def)
  then have "is_dec CHR ''(''" using e show_nat_hd_dec [of "sid_ms i"] by simp
  then show False by (simp add: is_dec_def Let_def)
qed

end
