(* ===== verification/Retention_Trimmer.thy ===== *)
theory Retention_Trimmer
  imports Stream_Ids Config
begin

text \<open>
  \<^verbatim>\<open>log_sump_server/ingest/trimmer.py\<close>: every configured daemon's two streams are trimmed to
  their own horizon. \<open>redis.xtrim(key, minid=ms, approximate=a)\<close> is a parameter over an arbitrary server
  state; \<open>xtrim_ok\<close> states what is documented of it for the streams that do not answer with an
  error: with \<open>a\<close> false it removes exactly the entries whose ID is below \<open>ms-0\<close>; with \<open>a\<close> true
  (\<open>MINID ~\<close>) it may leave any of those, all of them too. A negative \<open>ms\<close> is no stream ID and is
  always an error, and no entry is that old.
\<close>

definition MS_PER_DAY :: int where
  "MS_PER_DAY = 24 * 60 * 60 * 1000"

type_synonym 'r xtrim = "'r \<Rightarrow> string \<Rightarrow> int \<Rightarrow> bool \<Rightarrow> unit result \<times> 'r"

text \<open>A Redis error of one stream is logged; any other exception leaves the sweep.\<close>

definition trim_stream :: "'r xtrim \<Rightarrow> string \<Rightarrow> kind \<Rightarrow> int \<Rightarrow> 'r \<Rightarrow> py_error option \<times> 'r" where
  "trim_stream xtrim h k minid_ms s =
     (case xtrim s (stream_key h k) minid_ms False of
        (Inr u, s') \<Rightarrow> (None, s')
      | (Inl RedisError, s') \<Rightarrow> (None, s')
      | (Inl e, s') \<Rightarrow> (Some e, s'))"

fun trim_hosts :: "'r xtrim \<Rightarrow> int \<Rightarrow> int \<Rightarrow> string list \<Rightarrow> 'r \<Rightarrow> py_error option \<times> 'r" where
  "trim_hosts xtrim log_minid metric_minid [] s = (None, s)"
| "trim_hosts xtrim log_minid metric_minid (h # hs) s =
     (case trim_stream xtrim h LOG log_minid s of
        (Some e, s1) \<Rightarrow> (Some e, s1)
      | (None, s1) \<Rightarrow>
          (case trim_stream xtrim h METRIC metric_minid s1 of
             (Some e, s2) \<Rightarrow> (Some e, s2)
           | (None, s2) \<Rightarrow> trim_hosts xtrim log_minid metric_minid hs s2))"

text \<open>\<open>int(time.time() * 1000)\<close>.\<close>

definition now_ms :: "pyfloat \<Rightarrow> int result" where
  "now_ms t = py_trunc (fmul t (round_ratio 1000 1))"

definition trim_once :: "'r xtrim \<Rightarrow> string list \<Rightarrow> int \<Rightarrow> int \<Rightarrow> pyfloat \<Rightarrow> 'r \<Rightarrow> py_error option \<times> 'r" where
  "trim_once xtrim daemon_ids days metric_days t s =
     (case now_ms t of
        Inl e \<Rightarrow> (Some e, s)
      | Inr n \<Rightarrow> trim_hosts xtrim (n - days * MS_PER_DAY) (n - metric_days * MS_PER_DAY) daemon_ids s)"

text \<open>The loop over the clock readings of its turns, and how the app starts it.\<close>

fun run_trimmer :: "'r xtrim \<Rightarrow> string list \<Rightarrow> int \<Rightarrow> int \<Rightarrow> pyfloat list \<Rightarrow> 'r \<Rightarrow> py_error option \<times> 'r" where
  "run_trimmer xtrim daemon_ids days metric_days [] s = (None, s)"
| "run_trimmer xtrim daemon_ids days metric_days (t # clock) s =
     (case trim_once xtrim daemon_ids days metric_days t s of
        (Some e, s') \<Rightarrow> (Some e, s')
      | (None, s') \<Rightarrow> run_trimmer xtrim daemon_ids days metric_days clock s')"

definition start_trimmer :: "'r xtrim \<Rightarrow> settings \<Rightarrow> pyfloat list \<Rightarrow> 'r \<Rightarrow> py_error option \<times> 'r" where
  "start_trimmer xtrim st clock s =
     run_trimmer xtrim (map dc_id (st_daemons st)) (retention_days (st_retention st))
       (effective_metrics_retention_days (st_retention st)) clock s"

section \<open>What is relied on of Redis\<close>

definition not_before :: "int \<Rightarrow> stream_id \<Rightarrow> bool" where
  "not_before ms i \<longleftrightarrow> ms \<le> int (sid_ms i)"

definition trimmed_roughly :: "int \<Rightarrow> stream_id list \<Rightarrow> stream_id list \<Rightarrow> bool" where
  "trimmed_roughly ms ids ids' \<longleftrightarrow> (\<exists>keep. (\<forall>i. not_before ms i \<longrightarrow> keep i) \<and> ids' = filter keep ids)"

definition xtrim_ok :: "'r xtrim \<Rightarrow> ('r \<Rightarrow> string \<Rightarrow> stream_id list) \<Rightarrow> string set \<Rightarrow> bool" where
  "xtrim_ok xtrim ids failing \<longleftrightarrow>
     (\<forall>s key ms approximate res s'. xtrim s key ms approximate = (res, s') \<longrightarrow>
        (if key \<in> failing \<or> ms < 0 then res = Inl RedisError \<and> ids s' = ids s
         else res = Inr () \<and>
           (if approximate then \<exists>es. trimmed_roughly ms (ids s key) es \<and> ids s' = (ids s)(key := es)
            else ids s' = (ids s)(key := filter (not_before ms) (ids s key)))))"

text \<open>A Redis whose \<open>MINID ~\<close> never deletes anything, for the witness.\<close>

definition fun_xtrim :: "string set \<Rightarrow> (string \<Rightarrow> stream_id list) xtrim" where
  "fun_xtrim failing = (\<lambda>s key ms approximate. if key \<in> failing \<or> ms < 0 then (Inl RedisError, s)
     else (Inr (), if approximate then s else s(key := filter (not_before ms) (s key))))"

lemma fun_xtrim_ok: "xtrim_ok (fun_xtrim failing) (\<lambda>s. s) failing"
proof -
  have "trimmed_roughly ms es es" for ms es unfolding trimmed_roughly_def by (rule exI [of _ "\<lambda>i. True"]) simp
  then have "\<exists>es. trimmed_roughly ms (s key) es \<and> s = s(key := es)" for ms key and s :: "string \<Rightarrow> stream_id list"
    by (intro exI [of _ "s key"]) simp
  then show ?thesis unfolding xtrim_ok_def fun_xtrim_def by simp
qed

lemma not_before_negative: "ms < 0 \<Longrightarrow> filter (not_before ms) es = es"
  by (simp add: not_before_def)

lemma xtrim_exact:
  "xtrim_ok xtrim ids failing \<Longrightarrow> xtrim s key ms False = (res, s') \<Longrightarrow>
   if key \<in> failing \<or> ms < 0 then res = Inl RedisError \<and> ids s' = ids s
   else res = Inr () \<and> ids s' = (ids s)(key := filter (not_before ms) (ids s key))"
  unfolding xtrim_ok_def by (drule spec [of _ s], drule spec [of _ key], drule spec [of _ ms], drule spec [of _ False]) simp

lemma trim_stream_ok:
  assumes "xtrim_ok xtrim ids failing"
  shows "\<exists>s'. trim_stream xtrim h k ms s = (None, s') \<and>
    ids s' = (if stream_key h k \<in> failing then ids s
      else (ids s)(stream_key h k := filter (not_before ms) (ids s (stream_key h k))))"
proof -
  obtain res s' where x: "xtrim s (stream_key h k) ms False = (res, s')" by (cases "xtrim s (stream_key h k) ms False")
  show ?thesis using x xtrim_exact [OF assms x] not_before_negative [of ms "ids s (stream_key h k)"]
    unfolding trim_stream_def by (auto split: if_splits)
qed

text \<open>The stream of every listed daemon and kind after the sweep.\<close>

definition minid_of :: "int \<Rightarrow> int \<Rightarrow> kind \<Rightarrow> int" where
  "minid_of l m k = (case k of LOG \<Rightarrow> l | METRIC \<Rightarrow> m)"

lemma trim_hosts_ok:
  assumes ok: "xtrim_ok xtrim ids failing"
  shows "\<exists>s'. trim_hosts xtrim l m hs s = (None, s') \<and>
    (\<forall>h k. ids s' (stream_key h k) =
      (if h \<in> set hs \<and> stream_key h k \<notin> failing
       then filter (not_before (minid_of l m k)) (ids s (stream_key h k)) else ids s (stream_key h k))) \<and>
    (\<forall>key. (\<forall>h k. key \<noteq> stream_key h k) \<longrightarrow> ids s' key = ids s key)"
proof (induction hs arbitrary: s)
  case Nil
  then show ?case by simp
next
  case (Cons h0 hs)
  obtain s1 where s1: "trim_stream xtrim h0 LOG l s = (None, s1)"
    "ids s1 = (if stream_key h0 LOG \<in> failing then ids s
      else (ids s)(stream_key h0 LOG := filter (not_before l) (ids s (stream_key h0 LOG))))"
    using trim_stream_ok [OF ok] by blast
  obtain s2 where s2: "trim_stream xtrim h0 METRIC m s1 = (None, s2)"
    "ids s2 = (if stream_key h0 METRIC \<in> failing then ids s1
      else (ids s1)(stream_key h0 METRIC := filter (not_before m) (ids s1 (stream_key h0 METRIC))))"
    using trim_stream_ok [OF ok] by blast
  have two: "ids s2 (stream_key h k) = (if h = h0 \<and> stream_key h k \<notin> failing
      then filter (not_before (minid_of l m k)) (ids s (stream_key h k)) else ids s (stream_key h k))" for h k
    using s1(2) s2(2) by (cases k) (auto simp: minid_of_def)
  have other: "ids s2 key = ids s key" if "\<forall>h k. key \<noteq> stream_key h k" for key
    using s1(2) s2(2) that by (auto split: if_splits)
  obtain s' where s': "trim_hosts xtrim l m hs s2 = (None, s')"
    "\<forall>h k. ids s' (stream_key h k) =
      (if h \<in> set hs \<and> stream_key h k \<notin> failing
       then filter (not_before (minid_of l m k)) (ids s2 (stream_key h k)) else ids s2 (stream_key h k))"
    "\<forall>key. (\<forall>h k. key \<noteq> stream_key h k) \<longrightarrow> ids s' key = ids s2 key"
    using Cons.IH [of s2] by blast
  show ?case
  proof (intro exI [of _ s'] conjI allI impI)
    show "trim_hosts xtrim l m (h0 # hs) s = (None, s')" using s1(1) s2(1) s'(1) by simp
    show "ids s' (stream_key h k) = (if h \<in> set (h0 # hs) \<and> stream_key h k \<notin> failing
       then filter (not_before (minid_of l m k)) (ids s (stream_key h k)) else ids s (stream_key h k))" for h k
      using s'(2) two [of h k] by auto
    show "ids s' key = ids s key" if "\<forall>h k. key \<noteq> stream_key h k" for key
      using s'(3) other that by simp
  qed
qed

section \<open>Properties\<close>

text \<open>
  C21. One sweep at \<open>n\<close> milliseconds leaves in every stream of a configured daemon, enabled or
  not, exactly the entries not older than its own kind's horizon, in their order, whichever
  streams of the sweep fail: a failing stream keeps its entries and stops neither the others
  nor the loop, and no stream of another daemon and no other key is touched.
\<close>

theorem trim_keeps_exactly_the_horizon:
  assumes "xtrim_ok xtrim ids failing" and "now_ms t = Inr n"
  shows "\<exists>s'. start_trimmer xtrim st [t] s = (None, s') \<and>
    (\<forall>h k. ids s' (stream_key h k) =
      (if h \<in> dc_id ` set (st_daemons st) \<and> stream_key h k \<notin> failing
       then filter (not_before (n - MS_PER_DAY *
           (case k of LOG \<Rightarrow> retention_days (st_retention st)
            | METRIC \<Rightarrow> effective_metrics_retention_days (st_retention st)))) (ids s (stream_key h k))
       else ids s (stream_key h k))) \<and>
    (\<forall>key. (\<forall>h k. key \<noteq> stream_key h k) \<longrightarrow> ids s' key = ids s key)"
proof -
  let ?l = "n - retention_days (st_retention st) * MS_PER_DAY"
  let ?m = "n - effective_metrics_retention_days (st_retention st) * MS_PER_DAY"
  obtain s' where s': "trim_hosts xtrim ?l ?m (map dc_id (st_daemons st)) s = (None, s')"
    "\<forall>h k. ids s' (stream_key h k) =
      (if h \<in> set (map dc_id (st_daemons st)) \<and> stream_key h k \<notin> failing
       then filter (not_before (minid_of ?l ?m k)) (ids s (stream_key h k)) else ids s (stream_key h k))"
    "\<forall>key. (\<forall>h k. key \<noteq> stream_key h k) \<longrightarrow> ids s' key = ids s key"
    using trim_hosts_ok [OF assms(1)] by blast
  have "minid_of ?l ?m k = n - MS_PER_DAY * (case k of LOG \<Rightarrow> retention_days (st_retention st)
      | METRIC \<Rightarrow> effective_metrics_retention_days (st_retention st))" for k
    by (cases k) (simp_all add: minid_of_def)
  then show ?thesis using s' assms(2)
    by (intro exI [of _ s']) (simp add: start_trimmer_def trim_once_def)
qed

theorem trim_keeps_exactly_the_horizon_witness:
  "let st = default_settings\<lparr>st_daemons := [daemon_defaults ''d'' ''h'']\<rparr>;
       s = (\<lambda>key. [SID 1000 0, SID 700000000 0]);
       s' = snd (start_trimmer (fun_xtrim {stream_key ''d'' METRIC}) st [round_ratio 700000 1] s)
   in s' (stream_key ''d'' LOG) = [SID 700000000 0] \<and> s' (stream_key ''d'' METRIC) = s (stream_key ''d'' METRIC)"
proof -
  let ?st = "default_settings\<lparr>st_daemons := [daemon_defaults ''d'' ''h'']\<rparr>"
  let ?s = "\<lambda>key::string. [SID 1000 0, SID 700000000 0]"
  let ?x = "fun_xtrim {stream_key ''d'' METRIC}"
  have n: "now_ms (round_ratio 700000 1) = Inr 700000000" by code_simp
  obtain s' where s': "start_trimmer ?x ?st [round_ratio 700000 1] ?s = (None, s')"
    "\<forall>h k. s' (stream_key h k) =
      (if h \<in> dc_id ` set (st_daemons ?st) \<and> stream_key h k \<notin> {stream_key ''d'' METRIC}
       then filter (not_before (700000000 - MS_PER_DAY *
           (case k of LOG \<Rightarrow> retention_days (st_retention ?st)
            | METRIC \<Rightarrow> effective_metrics_retention_days (st_retention ?st)))) (?s (stream_key h k))
       else ?s (stream_key h k))"
    using trim_keeps_exactly_the_horizon [OF fun_xtrim_ok n, of "{stream_key ''d'' METRIC}" ?st ?s] by blast
  then show ?thesis unfolding Let_def s'(1)
    by (simp add: daemon_defaults_def default_settings_def retention_defaults_def MS_PER_DAY_def not_before_def)
qed

end
