(* ===== verification/Record_Queries.thy ===== *)
theory Record_Queries
  imports Stream_Ids
begin

text \<open>
  \<^verbatim>\<open>log_sump_server/queries.py\<close>: one page of a daemon's stream, and the filters applied after
  it. \<open>XRANGE\<close> is a parameter over an arbitrary server state, called with the key, the two
  bounds as texts and the count; \<open>xrange_ok\<close> states what is documented of it for a positive
  count. The timestamp of a naive datetime depends on the host's time zone and is a parameter.
\<close>

section \<open>Bounds\<close>

definition MAX_STREAM_SEQ :: nat where
  "MAX_STREAM_SEQ = 2 ^ 64 - 1"

text \<open>\<open>datetime.timestamp()\<close>: an aware one is its microseconds since the epoch over a million.\<close>

definition timestamp :: "(datetime \<Rightarrow> pyfloat result) \<Rightarrow> datetime \<Rightarrow> pyfloat result" where
  "timestamp local_timestamp dt = (if dt_aware dt then int_truediv (dt_us dt) 1000000 else local_timestamp dt)"

definition dt_ms :: "(datetime \<Rightarrow> pyfloat result) \<Rightarrow> datetime \<Rightarrow> int result" where
  "dt_ms lts dt = bind_r (timestamp lts dt) (\<lambda>t. py_trunc (fmul t (round_ratio 1000 1)))"

definition id_floor :: "(datetime \<Rightarrow> pyfloat result) \<Rightarrow> datetime \<Rightarrow> string result" where
  "id_floor lts dt = bind_r (dt_ms lts dt) (\<lambda>ms. Inr (show_int ms @ ''-0''))"

definition id_ceiling :: "(datetime \<Rightarrow> pyfloat result) \<Rightarrow> datetime \<Rightarrow> string result" where
  "id_ceiling lts dt = bind_r (dt_ms lts dt) (\<lambda>ms. Inr (show_int ms @ ''-'' @ show_nat MAX_STREAM_SEQ))"

section \<open>One page\<close>

type_synonym raw_entry = "string option \<times> (string \<times> string) list option"

type_synonym 'r xrange = "'r \<Rightarrow> string \<Rightarrow> string \<Rightarrow> string \<Rightarrow> int \<Rightarrow> raw_entry list result"

text \<open>What the loop appends for one entry: nothing, or its ID with the record of its data.\<close>

definition page_entry :: "runtime \<Rightarrow> raw_entry \<Rightarrow> (string \<times> sump_record) option" where
  "page_entry rt entry =
     (case entry of
        (Some entry_id, Some fs) \<Rightarrow>
          (case map_of fs ''data'' of
             None \<Rightarrow> None
           | Some data \<Rightarrow>
               (case validate_json rt data of Inl e \<Rightarrow> None | Inr r \<Rightarrow> Some (entry_id, r)))
      | _ \<Rightarrow> None)"

definition next_cursor :: "int \<Rightarrow> raw_entry list \<Rightarrow> (string \<times> sump_record) list \<Rightarrow> string option result" where
  "next_cursor limit raws entries =
     (if int (length raws) = limit then (if entries = [] then Inl IndexError else Inr (Some (fst (last entries))))
      else Inr None)"

definition range_start :: "(datetime \<Rightarrow> pyfloat result) \<Rightarrow> datetime \<Rightarrow> string option \<Rightarrow> string result" where
  "range_start lts start cursor =
     (case cursor of
        None \<Rightarrow> id_floor lts start
      | Some c \<Rightarrow> if c = [] then id_floor lts start else Inr (CHR ''('' # c))"

definition fetch_kind_page :: "runtime \<Rightarrow> (datetime \<Rightarrow> pyfloat result) \<Rightarrow> 'r xrange \<Rightarrow> 'r \<Rightarrow> string \<Rightarrow> kind
    \<Rightarrow> datetime \<Rightarrow> datetime \<Rightarrow> string option \<Rightarrow> int \<Rightarrow> ((string \<times> sump_record) list \<times> string option) result" where
  "fetch_kind_page rt lts xrange s host k start end_dt cursor limit =
     bind_r (range_start lts start cursor) (\<lambda>lo.
     bind_r (id_ceiling lts end_dt) (\<lambda>hi.
     bind_r (xrange s (stream_key host k) lo hi limit) (\<lambda>raws.
       let entries = List.map_filter (page_entry rt) raws
       in bind_r (next_cursor limit raws entries) (\<lambda>c. Inr (entries, c)))))"

section \<open>Filters\<close>

text \<open>\<open>getattr(r, "level", None) == level\<close> and \<open>str(getattr(r, "message", ""))\<close>.\<close>

fun has_level :: "string \<Rightarrow> sump_record \<Rightarrow> bool" where
  "has_level l (LogRecord r) \<longleftrightarrow> level r = l"
| "has_level l (MetricRecord r) \<longleftrightarrow> False"

fun message_of :: "sump_record \<Rightarrow> string" where
  "message_of (LogRecord r) = message r"
| "message_of (MetricRecord r) = []"

definition apply_filters :: "string option \<Rightarrow> string option \<Rightarrow> string option \<Rightarrow> sump_record list \<Rightarrow> sump_record list" where
  "apply_filters cid lvl q records =
     (let r1 = (case cid of None \<Rightarrow> records | Some c \<Rightarrow> filter (\<lambda>r. rec_container_id r = c) records);
          r2 = (case lvl of None \<Rightarrow> r1 | Some l \<Rightarrow> filter (has_level l) r1)
      in case q of None \<Rightarrow> r2 | Some t \<Rightarrow> filter (\<lambda>r. py_contains (py_lower t) (py_lower (message_of r))) r2)"

section \<open>The boundaries in milliseconds\<close>

text \<open>
  From 1.1e9 seconds (November 2004) to \<open>2 ^ 31\<close> (January 2038) the float arithmetic is exact
  enough: seconds are a multiple of \<open>2 ^ -22\<close>, milliseconds a multiple of \<open>2 ^ -12\<close>, and
  neither rounding crosses a whole millisecond.
\<close>

definition exact_window :: "int \<Rightarrow> bool" where
  "exact_window us \<longleftrightarrow> 1100000000 * 1000000 \<le> us \<and> us < 2 ^ 31 * 1000000"

lemma quantum_eq:
  assumes "2 powi k \<le> x" and "x < 2 powi (k + 1)" and "-1022 \<le> k"
  shows "quantum x = k - 52"
proof -
  have "0 < x" using assms(1) powi_pos [of k] by linarith
  then show ?thesis using floor_log2_unique [OF assms(1,2)] assms(3) by (simp add: quantum_def)
qed

lemma seconds_rounding:
  assumes "exact_window us"
  shows "\<bar>rnd (of_int us / 1000000) - of_int us / 1000000\<bar> \<le> 1 / 2 ^ 23"
proof -
  let ?x = "real_of_int us / 1000000"
  have "real_of_int (1100000000 * 1000000) \<le> of_int us" "real_of_int us < of_int (2 ^ 31 * 1000000)"
    using assms unfolding exact_window_def by (simp_all only: of_int_le_iff of_int_less_iff)
  then have "2 powi 30 \<le> ?x" "?x < 2 powi (30 + 1)" by (simp_all add: power_int_def)
  then have "quantum ?x = - 22" using quantum_eq [of 30 ?x] by simp
  then have "\<bar>rnd ?x - ?x\<bar> \<le> 2 powi (-22) / 2" using rnd_error [of ?x] by metis
  also have "(2::real) powi (-22) / 2 = 1 / 2 ^ 23" by (simp add: powi_ratio)
  finally show ?thesis .
qed

lemma rnd_near_ms:
  assumes q: "quantum y = -12" and y: "\<bar>y - (of_int k + of_int r / 1000)\<bar> \<le> 1000 / 2 ^ 23" and r: "0 \<le> r" "r < 1000"
  shows "\<lfloor>rnd y\<rfloor> = k"
proof -
  have g: "(2::real) powi (-12) = 1 / 4096" by (simp add: powi_ratio)
  have e: "(1000::real) / 2 ^ 23 \<le> 12 / 100000" by simp
  have "rnd y \<ge> of_int k \<and> rnd y < of_int k + 1"
  proof (cases "r = 0")
    case True
    have "(1000::real) / 2 ^ 23 < 1 / 4096 / 2" by simp
    then have "\<bar>y - of_int (k * 4096) * 2 powi quantum y\<bar> < 2 powi quantum y / 2"
      using y True unfolding q g by simp
    from rnd_nearest_grid [OF this] show ?thesis unfolding q g by simp
  next
    case False
    then have "1 \<le> real_of_int r" "real_of_int r \<le> 999" using r by simp_all
    then have "of_int k \<le> y" "y \<le> of_int k + 1 - 1 / 4096" using y e by linarith+
    then have "of_int (k * 4096) * 2 powi quantum y \<le> y" "y \<le> of_int (k * 4096 + 4095) * 2 powi quantum y"
      unfolding q g by simp_all
    then have "of_int (k * 4096) * 2 powi quantum y \<le> rnd y" "rnd y \<le> of_int (k * 4096 + 4095) * 2 powi quantum y"
      by (simp_all only: rnd_grid_ge rnd_grid_le)
    then show ?thesis unfolding q g by simp
  qed
  then show ?thesis by linarith
qed

lemma floor_of_rounded:
  assumes "exact_window us" and t: "\<bar>t - of_int us / 1000000\<bar> \<le> 1 / 2 ^ 23"
  shows "\<lfloor>rnd (t * 1000)\<rfloor> = us div 1000" and "2 ^ 40 \<le> t * 1000" and "t * 1000 < 2 ^ 41"
proof -
  let ?y = "t * 1000" and ?k = "us div 1000" and ?r = "us mod 1000"
  have us: "1100000000 * 1000000 \<le> us" "us < 2 ^ 31 * 1000000" using assms(1) by (simp_all add: exact_window_def)
  have "us = ?k * 1000 + ?r" by simp
  then have usr: "real_of_int us = of_int ?k * 1000 + of_int ?r" by (metis of_int_add of_int_mult of_int_numeral)
  have "\<bar>?y - of_int us / 1000\<bar> = 1000 * \<bar>t - of_int us / 1000000\<bar>" by (simp add: abs_if)
  also have "\<dots> \<le> 1000 * (1 / 2 ^ 23)" by (rule mult_left_mono [OF t]) simp
  finally have y0: "\<bar>?y - of_int us / 1000\<bar> \<le> 1000 / 2 ^ 23" by simp
  moreover have "real_of_int us / 1000 = of_int ?k + of_int ?r / 1000" unfolding usr by (simp add: add_divide_distrib)
  ultimately have y: "\<bar>?y - (of_int ?k + of_int ?r / 1000)\<bar> \<le> 1000 / 2 ^ 23" by metis
  have usr: "real_of_int (1100000000 * 1000000) \<le> of_int us" "real_of_int us < of_int (2 ^ 31 * 1000000)"
    using us by (simp_all only: of_int_le_iff of_int_less_iff)
  have "(1000::real) / 2 ^ 23 \<le> 1" by simp
  then have "\<bar>?y - of_int us / 1000\<bar> \<le> 1" using y0 by linarith
  moreover have "1100000000000 \<le> real_of_int us / 1000" "real_of_int us / 1000 < 2147483648000" using usr by simp_all
  ultimately have "1099511627776 \<le> ?y" "?y < 2199023255552" by linarith+
  then show b: "2 ^ 40 \<le> ?y" "?y < 2 ^ 41" by simp_all
  have "quantum ?y = 40 - 52" using b by (intro quantum_eq) (simp_all add: power_int_def)
  then show "\<lfloor>rnd ?y\<rfloor> = ?k" using rnd_near_ms [OF _ y] by simp
qed

lemma dt_ms_exact:
  assumes "exact_window (dt_us dt)" and "dt_aware dt"
  shows "dt_ms lts dt = Inr (dt_us dt div 1000)"
proof -
  let ?us = "dt_us dt"
  have fin: "is_finite (round_ratio ?us 1000000)"
  proof (rule round_ratio_finite)
    have "\<bar>real_of_int ?us\<bar> < of_int (2 ^ 31 * 1000000)"
      using assms(1) unfolding exact_window_def of_int_abs [symmetric] of_int_less_iff by linarith
    then have "\<bar>real_of_int ?us\<bar> / of_int 1000000 < 2 ^ 31" by simp
    also have "(2::real) ^ 31 \<le> 2 powi 1023" by (simp add: power_int_def)
    finally show "\<bar>real_of_int ?us\<bar> / of_int 1000000 < 2 powi 1023" .
  qed simp
  then have t: "timestamp lts dt = Inr (round_ratio ?us 1000000)"
    using assms(2) by (simp add: timestamp_def int_truediv_def)
  let ?t = "round_ratio ?us 1000000" and ?m = "round_ratio 1000 1"
  have tv: "fval ?t = rnd (of_int ?us / 1000000)" using round_ratio_val [OF _ fin] by simp
  have m: "is_finite ?m" "fval ?m = 1000" using round_ratio_of_int [of 1000] by simp_all
  note fl = floor_of_rounded [OF assms(1) seconds_rounding [OF assms(1)], folded tv]
  have "\<bar>fval ?t * fval ?m\<bar> < 2 ^ 41" using fl m(2) by simp
  also have "(2::real) ^ 41 \<le> 2 powi 1023" by (simp add: power_int_def)
  finally have p: "is_finite (fmul ?t ?m)" by (rule fmul_finite [OF fin m(1)])
  then have pv: "fval (fmul ?t ?m) = rnd (fval ?t * 1000)" using fmul_val [OF fin m(1)] m(2) by simp
  moreover have "0 \<le> rnd (fval ?t * 1000)" using fl(2) by (intro rnd_nonneg) simp
  moreover obtain n where "py_trunc (fmul ?t ?m) = Inr n" using p by (auto dest!: is_finite_cases)
  ultimately have "n = dt_us dt div 1000" if "py_trunc (fmul ?t ?m) = Inr n" for n
    using py_trunc_val [OF that] fl(1) by simp
  then have "py_trunc (fmul ?t ?m) = Inr (dt_us dt div 1000)"
    using \<open>py_trunc (fmul ?t ?m) = Inr n\<close> by blast
  then show ?thesis using t by (simp add: dt_ms_def)
qed

text \<open>Not so everywhere: a millisecond is lost shortly after the epoch.\<close>

lemma dt_ms_loses: "dt_ms lts \<lparr>dt_us = 1001000, dt_aware = True\<rparr> = Inr 1000"
proof -
  have "bind_r (int_truediv 1001000 1000000) (\<lambda>t. py_trunc (fmul t (round_ratio 1000 1))) = Inr 1000" by code_simp
  then show ?thesis by (simp add: dt_ms_def timestamp_def)
qed

section \<open>What is relied on of Redis\<close>

text \<open>
  The entries of a stream, oldest first: strictly increasing IDs with 64-bit sequence numbers.
  A positive count returns that many of the entries between the bounds; a lower bound is
  inclusive, or exclusive after an opening parenthesis.
\<close>

type_synonym entry = "stream_id \<times> (string \<times> string) list"

definition stream_ok :: "entry list \<Rightarrow> bool" where
  "stream_ok es \<longleftrightarrow> sorted_wrt (<) (map fst es) \<and> (\<forall>e\<in>set es. sid_seq (fst e) \<le> MAX_STREAM_SEQ)"

definition reply :: "entry list \<Rightarrow> raw_entry list" where
  "reply es = map (\<lambda>e. (Some (show_sid (fst e)), Some (snd e))) es"

datatype bound = From stream_id | Beyond stream_id

fun bound_text :: "bound \<Rightarrow> string" where
  "bound_text (From i) = show_sid i"
| "bound_text (Beyond i) = CHR ''('' # show_sid i"

fun past :: "bound \<Rightarrow> stream_id \<Rightarrow> bool" where
  "past (From i) j \<longleftrightarrow> i \<le> j"
| "past (Beyond i) j \<longleftrightarrow> i < j"

definition in_range :: "bound \<Rightarrow> stream_id \<Rightarrow> entry list \<Rightarrow> entry list" where
  "in_range lo hi es = filter (\<lambda>e. past lo (fst e) \<and> fst e \<le> hi) es"

definition xrange_ok :: "'r xrange \<Rightarrow> ('r \<Rightarrow> string \<Rightarrow> entry list) \<Rightarrow> bool" where
  "xrange_ok xrange entries \<longleftrightarrow>
     (\<forall>s key lo hi n. 0 < n \<longrightarrow>
        xrange s key (bound_text lo) (show_sid hi) n = Inr (reply (take (nat n) (in_range lo hi (entries s key)))))"

text \<open>A client over a function, for the witnesses.\<close>

definition read_bound :: "string \<Rightarrow> bound" where
  "read_bound lo = (if take 1 lo = ''('' then Beyond (read_sid (drop 1 lo)) else From (read_sid lo))"

definition fun_xrange :: "(string \<Rightarrow> entry list) xrange" where
  "fun_xrange s key lo hi n = (if n < 1 then Inl RedisError
     else Inr (reply (take (nat n) (in_range (read_bound lo) (read_sid hi) (s key)))))"

lemma read_bound_text [simp]: "read_bound (bound_text lo) = lo"
proof (cases lo)
  case (From i)
  have "take 1 (show_sid i) \<noteq> ''(''" using show_sid_no_paren [of i] by (cases "show_sid i") auto
  then show ?thesis using From by (simp add: read_bound_def)
qed (simp add: read_bound_def)

lemma fun_xrange_ok: "xrange_ok fun_xrange (\<lambda>s. s)"
  by (simp add: xrange_ok_def fun_xrange_def)

section \<open>Walking the pages\<close>

text \<open>The valid entries of a stream and what a page makes of them.\<close>

definition entry_record :: "runtime \<Rightarrow> entry \<Rightarrow> (string \<times> sump_record) option" where
  "entry_record rt e = page_entry rt (Some (show_sid (fst e)), Some (snd e))"

lemma page_entries_reply: "List.map_filter (page_entry rt) (reply es) = List.map_filter (entry_record rt) es"
  by (induction es) (auto simp: reply_def entry_record_def map_filter_Cons List.map_filter_def)

text \<open>A client that follows the cursors; the state of Redis may differ at every page.\<close>

fun walk_pages :: "runtime \<Rightarrow> (datetime \<Rightarrow> pyfloat result) \<Rightarrow> 'r xrange \<Rightarrow> 'r list \<Rightarrow> string \<Rightarrow> kind \<Rightarrow> datetime
    \<Rightarrow> datetime \<Rightarrow> int \<Rightarrow> string option \<Rightarrow> (string \<times> sump_record) list result option" where
  "walk_pages rt lts xrange [] host k start end_dt limit cursor = None"
| "walk_pages rt lts xrange (s # ss) host k start end_dt limit cursor =
     (case fetch_kind_page rt lts xrange s host k start end_dt cursor limit of
        Inl e \<Rightarrow> Some (Inl e)
      | Inr (entries, None) \<Rightarrow> Some (Inr entries)
      | Inr (entries, Some c) \<Rightarrow>
          (case walk_pages rt lts xrange ss host k start end_dt limit (Some c) of
             Some (Inr rest) \<Rightarrow> Some (Inr (entries @ rest))
           | r \<Rightarrow> r))"


text \<open>One call of the page function under the hypotheses: what it reads and where it leaves off.\<close>

definition window :: "(datetime \<Rightarrow> pyfloat result) \<Rightarrow> datetime \<Rightarrow> datetime \<Rightarrow> nat \<Rightarrow> nat \<Rightarrow> bool" where
  "window lts start end_dt a b \<longleftrightarrow> dt_ms lts start = Inr (int a) \<and> dt_ms lts end_dt = Inr (int b)"

fun cursor_bound :: "nat \<Rightarrow> stream_id option \<Rightarrow> bound" where
  "cursor_bound a None = From (SID a 0)"
| "cursor_bound a (Some i) = Beyond i"

abbreviation valid_entries :: "runtime \<Rightarrow> entry list \<Rightarrow> (string \<times> sump_record) list" where
  "valid_entries rt \<equiv> List.map_filter (entry_record rt)"

lemma fetch_kind_page_ok:
  assumes "xrange_ok xrange entries" and "window lts start end_dt a b" and "0 < limit"
  shows "fetch_kind_page rt lts xrange s host k start end_dt (map_option show_sid cur) limit =
    (let p = take (nat limit) (in_range (cursor_bound a cur) (SID b MAX_STREAM_SEQ) (entries s (stream_key host k)))
     in if length p < nat limit then Inr (valid_entries rt p, None)
        else if valid_entries rt p = [] then Inl IndexError
        else Inr (valid_entries rt p, Some (fst (last (valid_entries rt p)))))"
proof -
  have lo: "range_start lts start (map_option show_sid cur) = Inr (bound_text (cursor_bound a cur))"
    using assms(2) by (cases cur) (simp_all add: range_start_def id_floor_def window_def show_sid_def show_int_def)
  have hi: "id_ceiling lts end_dt = Inr (show_sid (SID b MAX_STREAM_SEQ))"
    using assms(2) by (simp add: id_ceiling_def window_def show_sid_def show_int_def)
  let ?p = "take (nat limit) (in_range (cursor_bound a cur) (SID b MAX_STREAM_SEQ) (entries s (stream_key host k)))"
  have x: "xrange s (stream_key host k) (bound_text (cursor_bound a cur)) (show_sid (SID b MAX_STREAM_SEQ)) limit = Inr (reply ?p)"
    using assms(1,3) unfolding xrange_ok_def by blast
  have l: "int (length (reply ?p)) = limit \<longleftrightarrow> \<not> length ?p < nat limit"
    using assms(3) by (auto simp: reply_def)
  show ?thesis unfolding fetch_kind_page_def lo hi bind_r_simps x Let_def next_cursor_def l page_entries_reply
    by simp
qed


lemma entry_record_id: "entry_record rt e = Some y \<Longrightarrow> fst y = show_sid (fst e)"
  by (auto simp: entry_record_def page_entry_def split: option.splits sum.splits)

text \<open>What lies past the entry a cursor names is what the previous bound left after it.\<close>

lemma in_range_split:
  assumes "stream_ok es" and "in_range lo hi es = l @ v # r"
  shows "in_range (Beyond (fst v)) hi es = r"
proof -
  let ?w = "in_range lo hi es"
  have "sorted_wrt (\<lambda>x y. fst x < fst y) es" using assms(1) by (simp add: stream_ok_def sorted_wrt_map)
  then have s: "sorted_wrt (\<lambda>x y. fst x < fst y) (l @ v # r)"
    unfolding assms(2) [symmetric] in_range_def by (rule sorted_wrt_filter)
  have "v \<in> set (in_range lo hi es)" by (simp add: assms(2))
  then have lv: "past lo (fst v)" by (simp add: in_range_def)
  have "past lo (fst e)" if "fst v < fst e" for e using lv that by (cases lo) auto
  then have "in_range (Beyond (fst v)) hi es = filter (\<lambda>e. fst v < fst e) ?w"
    unfolding in_range_def filter_filter by (auto intro: filter_cong)
  also have "\<dots> = filter (\<lambda>e. fst v < fst e) l @ filter (\<lambda>e. fst v < fst e) r" by (simp add: assms(2))
  also have "filter (\<lambda>e. fst v < fst e) l = []" using s by (auto simp: filter_empty_conv sorted_wrt_append dest: less_asym)
  also have "filter (\<lambda>e. fst v < fst e) r = r" using s by (auto simp: filter_id_conv sorted_wrt_append)
  finally show ?thesis by simp
qed

text \<open>A full page: its valid entries, and the rest of the range past the cursor it returns.\<close>

lemma page_advance:
  assumes "stream_ok es" and "valid_entries rt (take n (in_range lo hi es)) \<noteq> []"
  shows "\<exists>v a b. take n (in_range lo hi es) = a @ v # b \<and> valid_entries rt b = [] \<and>
    in_range (Beyond (fst v)) hi es = b @ drop n (in_range lo hi es) \<and>
    fst (last (valid_entries rt (take n (in_range lo hi es)))) = show_sid (fst v) \<and>
    entry_record rt v \<noteq> None \<and>
    valid_entries rt (take n (in_range lo hi es)) = valid_entries rt (a @ [v])"
proof -
  obtain a v b y where p: "take n (in_range lo hi es) = a @ v # b" and y: "entry_record rt v = Some y"
    "valid_entries rt b = []" "valid_entries rt (take n (in_range lo hi es)) = valid_entries rt a @ [y]"
    using map_filter_last [OF assms(2)] by blast
  have "in_range lo hi es = a @ v # (b @ drop n (in_range lo hi es))"
    using append_take_drop_id [of n "in_range lo hi es"] p by simp
  from in_range_split [OF assms(1) this] show ?thesis
    using p y entry_record_id [OF y(1)]
    by (intro exI [of _ v] exI [of _ a] exI [of _ b]) (simp add: map_filter_append List.map_filter_def)
qed

lemma in_range_prefix: "prefix es es' \<Longrightarrow> \<exists>more. in_range lo hi es' = in_range lo hi es @ more"
  by (auto simp: prefix_def in_range_def)

text \<open>The next page reads on after the cursor, also when the stream has grown meanwhile.\<close>

lemma page_advance_grown:
  assumes "stream_ok es" "stream_ok es'" "prefix es es'" and n: "valid_entries rt (take n (in_range lo hi es)) \<noteq> []"
  shows "\<exists>i. fst (last (valid_entries rt (take n (in_range lo hi es)))) = show_sid i \<and>
    valid_entries rt (in_range lo hi es') =
      valid_entries rt (take n (in_range lo hi es)) @ valid_entries rt (in_range (Beyond i) hi es')"
proof -
  let ?t = "take n (in_range lo hi es)"
  obtain v a b where v: "?t = a @ v # b" "valid_entries rt b = []"
    "fst (last (valid_entries rt ?t)) = show_sid (fst v)" "valid_entries rt ?t = valid_entries rt (a @ [v])"
    using page_advance [OF assms(1) n] by blast
  obtain more where "in_range lo hi es' = in_range lo hi es @ more" using in_range_prefix [OF assms(3)] by blast
  then have w: "in_range lo hi es' = a @ v # (b @ drop n (in_range lo hi es) @ more)"
    using append_take_drop_id [of n "in_range lo hi es"] v(1) by simp
  have "valid_entries rt (in_range lo hi es') = valid_entries rt (a @ [v]) @ valid_entries rt (in_range (Beyond (fst v)) hi es')"
    unfolding in_range_split [OF assms(2) w] unfolding w
    by (simp add: map_filter_append map_filter_Cons List.map_filter_def)
  then show ?thesis unfolding v(4) [symmetric] using v(3) by blast
qed

lemma walk_pages_grown:
  assumes "xrange_ok xrange entries" and "window lts start end_dt a b" and "0 < limit"
  shows "walk_pages rt lts xrange ss host k start end_dt limit (map_option show_sid cur) = Some (Inr out) \<Longrightarrow>
    sorted_wrt prefix (map (\<lambda>s. entries s (stream_key host k)) ss) \<Longrightarrow>
    \<forall>s\<in>set ss. stream_ok (entries s (stream_key host k)) \<Longrightarrow>
    \<exists>s\<in>set ss. out = valid_entries rt (in_range (cursor_bound a cur) (SID b MAX_STREAM_SEQ) (entries s (stream_key host k)))"
proof (induction ss arbitrary: cur out)
  case Nil
  then show ?case by simp
next
  case (Cons s ss)
  let ?E = "\<lambda>s. entries s (stream_key host k)" and ?hi = "SID b MAX_STREAM_SEQ"
  let ?w = "in_range (cursor_bound a cur) ?hi (?E s)"
  let ?p = "take (nat limit) ?w"
  note f = fetch_kind_page_ok [OF assms, of rt s host k cur]
  show ?case
  proof (cases "length ?p < nat limit")
    case True
    then have "fetch_kind_page rt lts xrange s host k start end_dt (map_option show_sid cur) limit = Inr (valid_entries rt ?p, None)"
      unfolding f Let_def by simp
    then have "out = valid_entries rt ?p" using Cons.prems(1) by simp
    moreover have "?p = ?w" using True by simp
    ultimately show ?thesis by auto
  next
    case full: False
    have ne: "valid_entries rt ?p \<noteq> []" using Cons.prems(1) full unfolding walk_pages.simps f Let_def by auto
    let ?c = "fst (last (valid_entries rt ?p))"
    have fe: "fetch_kind_page rt lts xrange s host k start end_dt (map_option show_sid cur) limit = Inr (valid_entries rt ?p, Some ?c)"
      using full ne unfolding f Let_def by simp
    obtain out' where w: "walk_pages rt lts xrange ss host k start end_dt limit (Some ?c) = Some (Inr out')"
      and out: "out = valid_entries rt ?p @ out'"
      using Cons.prems(1) unfolding walk_pages.simps fe by (auto split: sum.splits option.splits)
    obtain i0 where i0: "?c = show_sid i0"
      using page_advance_grown [OF _ _ prefix_order.refl ne] Cons.prems(3) by auto
    then have "\<exists>s'\<in>set ss. out' = valid_entries rt (in_range (cursor_bound a (Some i0)) ?hi (?E s'))"
      using Cons.prems w by (intro Cons.IH) auto
    then obtain s' where s': "s' \<in> set ss" "out' = valid_entries rt (in_range (Beyond i0) ?hi (?E s'))" by auto
    have "stream_ok (?E s)" "stream_ok (?E s')" "prefix (?E s) (?E s')" using Cons.prems(2,3) s'(1) by auto
    from page_advance_grown [OF this ne] have
      "valid_entries rt (in_range (cursor_bound a cur) ?hi (?E s')) = valid_entries rt ?p @ out'"
      using i0 s'(2) by auto
    then show ?thesis using out s'(1) by (intro bexI [of _ s']) auto
  qed
qed


text \<open>Without growth: whether a run of invalid entries fills a page decides everything.\<close>

definition invalid_run :: "runtime \<Rightarrow> nat \<Rightarrow> entry list \<Rightarrow> bool" where
  "invalid_run rt n es \<longleftrightarrow> (\<exists>i. i + n \<le> length es \<and> valid_entries rt (take n (drop i es)) = [])"

lemma invalid_run_short: "length es < n \<Longrightarrow> \<not> invalid_run rt n es"
  by (auto simp: invalid_run_def)

lemma invalid_run_here: "\<not> length es < n \<Longrightarrow> valid_entries rt (take n es) = [] \<Longrightarrow> invalid_run rt n es"
  unfolding invalid_run_def by (intro exI [of _ 0]) simp

lemma invalid_run_skip:
  assumes "length a < n" and "entry_record rt v \<noteq> None"
  shows "invalid_run rt n (a @ v # r) \<longleftrightarrow> invalid_run rt n r"
proof
  assume "invalid_run rt n (a @ v # r)"
  then obtain i where i: "i + n \<le> length (a @ v # r)" "valid_entries rt (take n (drop i (a @ v # r))) = []"
    unfolding invalid_run_def by blast
  have "length a < i"
  proof (rule ccontr)
    assume "\<not> length a < i"
    then have "take n (drop i (a @ v # r)) = drop i a @ take (n - (length a - i)) (v # r)" "0 < n - (length a - i)"
      using assms(1) by auto
    then have "v \<in> set (take n (drop i (a @ v # r)))" by (cases "n - (length a - i)") auto
    then show False using i(2) assms(2) by (auto simp: map_filter_Nil_iff)
  qed
  then show "invalid_run rt n r" using i unfolding invalid_run_def
    by (intro exI [of _ "i - Suc (length a)"]) (auto simp: drop_Cons')
next
  assume "invalid_run rt n r"
  then obtain i where "i + n \<le> length r" "valid_entries rt (take n (drop i r)) = []"
    unfolding invalid_run_def by blast
  then show "invalid_run rt n (a @ v # r)" unfolding invalid_run_def
    by (intro exI [of _ "i + Suc (length a)"]) simp
qed

lemma walk_pages_constant:
  assumes "xrange_ok xrange entries" and "window lts start end_dt a b" and "0 < limit"
    and ok: "stream_ok (entries s (stream_key host k))"
  shows "length (in_range (cursor_bound a cur) (SID b MAX_STREAM_SEQ) (entries s (stream_key host k))) < m \<Longrightarrow>
    walk_pages rt lts xrange (replicate m s) host k start end_dt limit (map_option show_sid cur) =
    Some (let w = in_range (cursor_bound a cur) (SID b MAX_STREAM_SEQ) (entries s (stream_key host k))
      in if invalid_run rt (nat limit) w then Inl IndexError else Inr (valid_entries rt w))"
proof (induction m arbitrary: cur)
  case 0
  then show ?case by simp
next
  case (Suc m)
  let ?E = "entries s (stream_key host k)" and ?hi = "SID b MAX_STREAM_SEQ" and ?n = "nat limit"
  let ?w = "in_range (cursor_bound a cur) ?hi ?E"
  let ?p = "take ?n ?w"
  note f = fetch_kind_page_ok [OF assms(1-3), of rt s host k cur]
  consider (short) "length ?p < ?n" | (stuck) "\<not> length ?p < ?n" "valid_entries rt ?p = []"
    | (more) "\<not> length ?p < ?n" "valid_entries rt ?p \<noteq> []" by blast
  then show ?case
  proof cases
    case short
    then have "fetch_kind_page rt lts xrange s host k start end_dt (map_option show_sid cur) limit = Inr (valid_entries rt ?p, None)"
      unfolding f Let_def by simp
    moreover have "?p = ?w" "\<not> invalid_run rt ?n ?w" using short by (simp_all add: invalid_run_short)
    ultimately show ?thesis by simp
  next
    case stuck
    then have "fetch_kind_page rt lts xrange s host k start end_dt (map_option show_sid cur) limit = Inl IndexError"
      unfolding f Let_def by simp
    moreover have "invalid_run rt ?n ?w" using stuck by (intro invalid_run_here) auto
    ultimately show ?thesis by simp
  next
    case more
    obtain v l r where v: "?p = l @ v # r" "in_range (Beyond (fst v)) ?hi ?E = r @ drop ?n ?w"
      "fst (last (valid_entries rt ?p)) = show_sid (fst v)" "entry_record rt v \<noteq> None"
      "valid_entries rt ?p = valid_entries rt (l @ [v])"
      using page_advance [OF ok more(2)] by blast
    have w: "?w = l @ v # in_range (Beyond (fst v)) ?hi ?E"
      using append_take_drop_id [of ?n ?w] v(1,2) by simp
    have fe: "fetch_kind_page rt lts xrange s host k start end_dt (map_option show_sid cur) limit =
        Inr (valid_entries rt ?p, Some (show_sid (fst v)))"
      using more unfolding f Let_def v(3) by simp
    have "length (l @ v # r) \<le> ?n" unfolding v(1) [symmetric] by simp
    then have l: "length l < ?n" by simp
    have "length ?w = Suc (length l + length (in_range (Beyond (fst v)) ?hi ?E))" by (subst w) simp
    then have "length (in_range (cursor_bound a (Some (fst v))) ?hi ?E) < m" using Suc.prems by simp
    from Suc.IH [OF this] have IH: "walk_pages rt lts xrange (replicate m s) host k start end_dt limit (Some (show_sid (fst v))) =
        Some (let w = in_range (Beyond (fst v)) ?hi ?E
          in if invalid_run rt ?n w then Inl IndexError else Inr (valid_entries rt w))" by simp
    have vw: "valid_entries rt ?w = valid_entries rt ?p @ valid_entries rt (in_range (Beyond (fst v)) ?hi ?E)"
      unfolding v(5) by (subst w) (simp add: map_filter_append map_filter_Cons List.map_filter_def)
    have iw: "invalid_run rt ?n ?w \<longleftrightarrow> invalid_run rt ?n (in_range (Beyond (fst v)) ?hi ?E)"
      by (subst w) (rule invalid_run_skip [OF l v(4)])
    show ?thesis unfolding replicate_Suc walk_pages.simps fe sum.case prod.case option.case IH Let_def vw iw by simp
  qed
qed


section \<open>Properties\<close>

definition between_ms :: "int \<Rightarrow> int \<Rightarrow> entry \<Rightarrow> bool" where
  "between_ms a b e \<longleftrightarrow> a \<le> int (sid_ms (fst e)) \<and> int (sid_ms (fst e)) \<le> b"

lemma in_range_ms:
  "stream_ok es \<Longrightarrow> in_range (From (SID a 0)) (SID b MAX_STREAM_SEQ) es = filter (between_ms (int a) (int b)) es"
  unfolding in_range_def by (auto simp: between_ms_def stream_ok_def sid_le_floor sid_le_ceiling intro!: filter_cong)

lemma exact_window_div:
  assumes "exact_window us"
  shows "int (nat (us div 1000)) = us div 1000"
proof -
  have "0 \<le> us div 1000" using assms unfolding exact_window_def by linarith
  then show ?thesis by simp
qed

lemma exact_window_dates:
  assumes "exact_window (dt_us dt1)" "dt_aware dt1" "exact_window (dt_us dt2)" "dt_aware dt2"
  shows "window lts dt1 dt2 (nat (dt_us dt1 div 1000)) (nat (dt_us dt2 div 1000))"
  using assms by (simp only: window_def dt_ms_exact exact_window_div simp_thms)

text \<open>A host without a local time, for the witnesses.\<close>

definition no_local_time :: "datetime \<Rightarrow> pyfloat result" where
  "no_local_time dt = Inl OSError"

text \<open>
  C35. The texts sent to Redis as bounds are exact: for every aware datetime from November 2004
  to January 2038 the float arithmetic on its timestamp yields the millisecond it lies in, so
  the lower bound is the first and the upper bound the last ID of that millisecond. (Near the
  epoch a millisecond can be lost: \<open>dt_ms_loses\<close>.)
\<close>

theorem boundaries_exact_to_the_millisecond:
  assumes "exact_window (dt_us dt)" and "dt_aware dt"
  shows "id_floor lts dt = Inr (show_sid (SID (nat (dt_us dt div 1000)) 0)) \<and>
    id_ceiling lts dt = Inr (show_sid (SID (nat (dt_us dt div 1000)) MAX_STREAM_SEQ)) \<and>
    (\<forall>i. sid_seq i \<le> MAX_STREAM_SEQ \<longrightarrow>
      (SID (nat (dt_us dt div 1000)) 0 \<le> i \<longleftrightarrow> dt_us dt div 1000 \<le> int (sid_ms i)) \<and>
      (i \<le> SID (nat (dt_us dt div 1000)) MAX_STREAM_SEQ \<longleftrightarrow> int (sid_ms i) \<le> dt_us dt div 1000))"
  using dt_ms_exact [OF assms] exact_window_div [OF assms(1)]
  by (auto simp: id_floor_def id_ceiling_def show_sid_def show_int_def sid_le_floor sid_le_ceiling)

theorem boundaries_exact_to_the_millisecond_witness:
  "id_floor no_local_time \<lparr>dt_us = 1700000000123999, dt_aware = True\<rparr> = Inr (show_sid (SID 1700000000123 0))"
  using boundaries_exact_to_the_millisecond [of "\<lparr>dt_us = 1700000000123999, dt_aware = True\<rparr>" no_local_time]
  by (simp add: exact_window_def)

text \<open>
  C13. Whatever the page size and however the stream grows while the pages are read, a client
  that follows the cursors until there is none gets, in ID order and each exactly once, the
  valid entries that lie between the two datetimes' milliseconds in one of the snapshots read.
\<close>

theorem pages_cover_the_window:
  assumes "xrange_ok xrange entries" and "0 < limit"
    and "exact_window (dt_us start)" "dt_aware start" "exact_window (dt_us end_dt)" "dt_aware end_dt"
    and "sorted_wrt prefix (map (\<lambda>s. entries s (stream_key host k)) ss)"
    and "\<forall>s\<in>set ss. stream_ok (entries s (stream_key host k))"
    and "walk_pages rt lts xrange ss host k start end_dt limit None = Some (Inr out)"
  shows "\<exists>s\<in>set ss. out = valid_entries rt
    (filter (between_ms (dt_us start div 1000) (dt_us end_dt div 1000)) (entries s (stream_key host k)))"
proof -
  have w: "walk_pages rt lts xrange ss host k start end_dt limit (map_option show_sid None) = Some (Inr out)"
    using assms(9) by simp
  from walk_pages_grown [OF assms(1) exact_window_dates [OF assms(3-6)] assms(2) w assms(7,8)] assms(8)
  show ?thesis using exact_window_div assms(3,5) by (auto simp: in_range_ms)
qed

text \<open>
  C36. On a stream that does not change meanwhile, more pages than the window has entries are
  enough: the client has every valid entry of the window, or some page raised \<open>IndexError\<close>,
  which happens exactly when a whole page's worth of consecutive entries of the window holds
  no valid record.
\<close>

theorem page_walk_ends_or_raises:
  assumes "xrange_ok xrange entries" and "0 < limit"
    and "exact_window (dt_us start)" "dt_aware start" "exact_window (dt_us end_dt)" "dt_aware end_dt"
    and "stream_ok (entries s (stream_key host k))"
    and "w = filter (between_ms (dt_us start div 1000) (dt_us end_dt div 1000)) (entries s (stream_key host k))"
    and "length w < m"
  shows "walk_pages rt lts xrange (replicate m s) host k start end_dt limit None =
    Some (if invalid_run rt (nat limit) w then Inl IndexError else Inr (valid_entries rt w))"
proof -
  let ?a = "nat (dt_us start div 1000)" and ?b = "nat (dt_us end_dt div 1000)"
  have w: "in_range (cursor_bound ?a None) (SID ?b MAX_STREAM_SEQ) (entries s (stream_key host k)) = w"
    using exact_window_div assms(3,5) by (simp add: in_range_ms [OF assms(7)] assms(8))
  from walk_pages_constant [where cur = None, OF assms(1) exact_window_dates [OF assms(3-6)] assms(2,7), of m rt]
  show ?thesis using assms(9) unfolding w by (simp add: Let_def)
qed

text \<open>A stream of three entries, the middle one unreadable, and a window around it.\<close>

definition sample_stream :: "string \<Rightarrow> entry list" where
  "sample_stream key = (if key = stream_key ''d'' LOG then
     [(SID 1100000000001 0, [(''data'', ''ok'')]), (SID 1100000000002 0, [(''data'', ''bad'')]),
      (SID 1100000000002 1, [(''data'', ''ok'')])] else [])"

definition utc :: "int \<Rightarrow> datetime" where
  "utc us = \<lparr>dt_us = us, dt_aware = True\<rparr>"

lemma sample_stream_ok: "stream_ok (sample_stream key)"
  by (auto simp: stream_ok_def sample_stream_def less_stream_id_def MAX_STREAM_SEQ_def)

lemma utc_simps [simp]: "dt_us (utc us) = us" "dt_aware (utc us)"
  by (simp_all add: utc_def)

lemma sample_record: "entry_record (one_record_runtime ''ok'' r) (i, [(''data'', t)]) = (if t = ''ok'' then Some (show_sid i, r) else None)"
  by (simp add: entry_record_def page_entry_def validate_json_def one_record_runtime_def)

abbreviation sample_rt :: runtime where
  "sample_rt \<equiv> one_record_runtime ''ok'' (sample_log ''d'' 1)"

lemma sample_window:
  "filter (between_ms (dt_us (utc 1100000000001000) div 1000) (dt_us (utc 1100000000002000) div 1000))
     (sample_stream (stream_key ''d'' LOG)) = sample_stream (stream_key ''d'' LOG)"
  by (simp add: sample_stream_def between_ms_def)

lemma sample_exact: "exact_window (dt_us (utc 1100000000001000))" "exact_window (dt_us (utc 1100000000002000))"
  by (simp_all add: exact_window_def)

lemma sample_valid: "valid_entries sample_rt (sample_stream (stream_key ''d'' LOG)) =
    [(show_sid (SID 1100000000001 0), sample_log ''d'' 1), (show_sid (SID 1100000000002 1), sample_log ''d'' 1)]"
  by (simp add: sample_stream_def map_filter_Cons sample_record List.map_filter_def)

lemma sample_run: "invalid_run sample_rt 1 (sample_stream (stream_key ''d'' LOG))"
  unfolding invalid_run_def
  by (intro exI [of _ 1]) (simp add: sample_stream_def map_filter_Cons sample_record List.map_filter_def)

lemma sample_no_run: "\<not> invalid_run sample_rt 2 (sample_stream (stream_key ''d'' LOG))"
proof
  assume "invalid_run sample_rt 2 (sample_stream (stream_key ''d'' LOG))"
  then obtain i where i: "i \<le> 1" "valid_entries sample_rt (take 2 (drop i (sample_stream (stream_key ''d'' LOG)))) = []"
    by (auto simp: invalid_run_def sample_stream_def)
  then have "i = 0 \<or> i = 1" by linarith
  then show False using i(2) by (auto simp: sample_stream_def map_filter_Cons sample_record)
qed

theorem page_walk_ends_or_raises_witness:
  "let walk = (\<lambda>limit. walk_pages sample_rt no_local_time fun_xrange (replicate 4 sample_stream) ''d'' LOG
         (utc 1100000000001000) (utc 1100000000002000) limit None)
   in walk 2 = Some (Inr [(show_sid (SID 1100000000001 0), sample_log ''d'' 1), (show_sid (SID 1100000000002 1), sample_log ''d'' 1)]) \<and>
      walk 1 = Some (Inl IndexError)"
proof -
  let ?w = "sample_stream (stream_key ''d'' LOG)"
  have len: "length ?w < 4" by (simp add: sample_stream_def)
  note th = page_walk_ends_or_raises [where entries = "\<lambda>s. s" and s = sample_stream,
      OF fun_xrange_ok _ sample_exact(1) _ sample_exact(2) _ sample_stream_ok sample_window [symmetric] len]
  show ?thesis using th [of 2 sample_rt no_local_time] th [of 1 sample_rt no_local_time] sample_run sample_no_run sample_valid
    by (simp add: Let_def)
qed

lemma sample_walk:
  "walk_pages sample_rt lts fun_xrange (replicate 4 sample_stream) ''d'' LOG (utc 1100000000001000) (utc 1100000000002000) 2 None =
     Some (Inr (valid_entries sample_rt (sample_stream (stream_key ''d'' LOG))))"
proof -
  have w: "in_range (cursor_bound (nat (dt_us (utc 1100000000001000) div 1000)) None)
      (SID (nat (dt_us (utc 1100000000002000) div 1000)) MAX_STREAM_SEQ) (sample_stream (stream_key ''d'' LOG)) =
      sample_stream (stream_key ''d'' LOG)"
    using sample_window by (simp add: in_range_ms [OF sample_stream_ok])
  have "length (sample_stream (stream_key ''d'' LOG)) < 4" by (simp add: sample_stream_def)
  then show ?thesis
    using walk_pages_constant [where entries = "\<lambda>s. s" and s = sample_stream and cur = None and limit = 2 and rt = sample_rt
      and m = 4 and host = "''d''" and k = LOG, OF fun_xrange_ok exact_window_dates [OF sample_exact(1) _ sample_exact(2), of lts]]
      sample_no_run
    unfolding w by (simp add: sample_stream_ok Let_def)
qed

theorem pages_cover_the_window_witness:
  "\<exists>out. walk_pages sample_rt no_local_time fun_xrange (replicate 4 sample_stream) ''d'' LOG
     (utc 1100000000001000) (utc 1100000000002000) 2 None = Some (Inr out) \<and> length out = 2 \<and>
     (\<exists>s\<in>set (replicate 4 sample_stream). out = valid_entries sample_rt
       (filter (between_ms (dt_us (utc 1100000000001000) div 1000) (dt_us (utc 1100000000002000) div 1000)) (s (stream_key ''d'' LOG))))"
proof -
  let ?ss = "replicate 4 sample_stream"
  have p: "sorted_wrt prefix (map (\<lambda>s. s (stream_key ''d'' LOG)) ?ss)" by (simp add: numeral_eq_Suc)
  have st: "\<forall>s\<in>set ?ss. stream_ok (s (stream_key ''d'' LOG))" using sample_stream_ok by simp
  have "(0::int) < 2" by simp
  note th = pages_cover_the_window [where entries = "\<lambda>s. s" and rt = sample_rt,
      OF fun_xrange_ok this sample_exact(1) utc_simps(2) sample_exact(2) utc_simps(2) p st sample_walk]
  have len: "length (valid_entries sample_rt (sample_stream (stream_key ''d'' LOG))) = 2" by (simp add: sample_valid)
  show ?thesis by (rule exI, rule conjI [OF sample_walk conjI [OF len th]])
qed

end
