(* ===== verification/Ingest_Pipeline.thy ===== *)
theory Ingest_Pipeline
  imports Ingest_Consumer Retention_Trimmer Record_Queries
begin

text \<open>
  The server's two background tasks at work on one Redis, with Logstash pushing and requests
  reading in between: \<^verbatim>\<open>ingest/consumer.py\<close> and \<^verbatim>\<open>ingest/trimmer.py\<close> as started by \<^verbatim>\<open>app.py\<close>, cut
  at their \<open>await\<close>s. A step is one Redis call of one task, or Logstash's push; the pipeline of
  \<open>XADD\<close>s is not a transaction, so its commands are steps of their own. The state keeps, beside
  what the program has, a history: the items pushed, the commands handed to the
  client and the trims tried.

  Redis is a record of calls over an arbitrary state; \<open>redis_ok\<close> states what is documented of
  them over two readings of the state, the ingest list and the entries of a stream.

  Lemmas: every stream holds valid records of its own daemon and kind in ID order, whatever
  fails; without failures nothing is lost, doubled or reordered on the way.
\<close>

record 'r redis_api = "'r redis_client" +
  ra_xadd :: "'r \<Rightarrow> string \<Rightarrow> string \<Rightarrow> unit result \<times> 'r"
  ra_xtrim :: "'r xtrim"
  ra_xrange :: "'r xrange"

text \<open>Where the consumer is between two calls, and the trims a sweep has left.\<close>

datatype consumer_pc =
    CWait
  | CPopped raw_item
  | CSend "(string \<times> string) list" "py_error option"
  | CDead py_error

datatype trimmer_pc = TrSleep | TrSweep "(string \<times> kind \<times> int) list" | TrDead py_error

record 'r pipeline =
  pl_redis :: 'r
  pl_consumer :: consumer_pc
  pl_trimmer :: trimmer_pc
  pl_pushed :: "raw_item list"
  pl_sent :: "(string \<times> string) set"
  pl_trims :: "(string \<times> kind \<times> int) set"

text \<open>\<open>except RedisError\<close> of \<open>run_consumer\<close>.\<close>

definition consumer_caught :: "py_error \<Rightarrow> consumer_pc" where
  "consumer_caught e = (if e = RedisError then CWait else CDead e)"

text \<open>The trims of one sweep at \<open>n\<close> milliseconds, in order.\<close>

definition sweep :: "settings \<Rightarrow> int \<Rightarrow> (string \<times> kind \<times> int) list" where
  "sweep st n = concat (map (\<lambda>d.
     [(dc_id d, LOG, n - retention_days (st_retention st) * MS_PER_DAY),
      (dc_id d, METRIC, n - effective_metrics_retention_days (st_retention st) * MS_PER_DAY)]) (st_daemons st))"

text \<open>
  One call of the consumer, and one of the trimmer; the rules that need \<open>faulty\<close> are those of a
  failed call.
\<close>

inductive consumer_step :: "runtime \<Rightarrow> 'r redis_api \<Rightarrow> int \<Rightarrow> bool \<Rightarrow> consumer_pc \<times> 'r \<Rightarrow> consumer_pc \<times> 'r \<Rightarrow> bool"
  for rt api b faulty where
  idle: "rc_blpop api s INGEST_LIST = (Inr None, s') \<Longrightarrow> consumer_step rt api b faulty (CWait, s) (CWait, s')"
| woken: "rc_blpop api s INGEST_LIST = (Inr (Some x), s') \<Longrightarrow> consumer_step rt api b faulty (CWait, s) (CPopped x, s')"
| drained: "\<lbrakk>1 < b; rc_lpop api s INGEST_LIST (b - 1) = (Inr rest, s')\<rbrakk> \<Longrightarrow>
    consumer_step rt api b faulty (CPopped x, s) (CSend (batch_xadds rt (x # rest)) None, s')"
| single: "\<not> 1 < b \<Longrightarrow> consumer_step rt api b faulty (CPopped x, s) (CSend (batch_xadds rt [x]) None, s)"
| sent: "ra_xadd api s key d = (Inr (), s') \<Longrightarrow>
    consumer_step rt api b faulty (CSend ((key, d) # cs) err, s) (CSend cs err, s')"
| executed: "consumer_step rt api b faulty (CSend [] None, s) (CWait, s)"
| pop_failed: "\<lbrakk>faulty; rc_blpop api s INGEST_LIST = (Inl e, s')\<rbrakk> \<Longrightarrow>
    consumer_step rt api b faulty (CWait, s) (consumer_caught e, s')"
| drain_failed: "\<lbrakk>faulty; 1 < b; rc_lpop api s INGEST_LIST (b - 1) = (Inl e, s')\<rbrakk> \<Longrightarrow>
    consumer_step rt api b faulty (CPopped x, s) (consumer_caught e, s')"
| send_failed: "\<lbrakk>faulty; ra_xadd api s key d = (Inl e, s')\<rbrakk> \<Longrightarrow>
    consumer_step rt api b faulty (CSend ((key, d) # cs) err, s)
      (CSend cs (case err of None \<Rightarrow> Some e | Some e0 \<Rightarrow> Some e0), s')"
| connection_lost: "faulty \<Longrightarrow> consumer_step rt api b faulty (CSend cs err, s) (consumer_caught RedisError, s)"
| executed_error: "faulty \<Longrightarrow> consumer_step rt api b faulty (CSend [] (Some e), s) (consumer_caught e, s)"

inductive trimmer_step :: "'r redis_api \<Rightarrow> settings \<Rightarrow> bool \<Rightarrow> trimmer_pc \<times> 'r \<Rightarrow> trimmer_pc \<times> 'r \<Rightarrow> bool"
  for api st faulty where
  sweep_begins: "now_ms t = Inr n \<Longrightarrow> trimmer_step api st faulty (TrSleep, s) (TrSweep (sweep st n), s)"
| trimmed: "ra_xtrim api s (stream_key h k) ms False = (Inr (), s') \<Longrightarrow>
    trimmer_step api st faulty (TrSweep ((h, k, ms) # w), s) (TrSweep w, s')"
| swept: "trimmer_step api st faulty (TrSweep [], s) (TrSleep, s)"
| clock_failed: "\<lbrakk>faulty; now_ms t = Inl e\<rbrakk> \<Longrightarrow> trimmer_step api st faulty (TrSleep, s) (TrDead e, s)"
| trim_failed: "\<lbrakk>faulty; ra_xtrim api s (stream_key h k) ms False = (Inl e, s')\<rbrakk> \<Longrightarrow>
    trimmer_step api st faulty (TrSweep ((h, k, ms) # w), s) (if e = RedisError then TrSweep w else TrDead e, s')"

text \<open>What a step adds to the history.\<close>

fun handed :: "consumer_pc \<Rightarrow> consumer_pc \<Rightarrow> (string \<times> string) set" where
  "handed (CPopped x) (CSend cs err) = set cs"
| "handed pc pc' = {}"

fun attempted :: "trimmer_pc \<Rightarrow> (string \<times> kind \<times> int) set" where
  "attempted (TrSweep (c # w)) = {c}"
| "attempted pc = {}"

text \<open>
  The two tasks on one Redis, Logstash, and the network: after a failure a command once handed
  to the client may still reach the server, late or a second time, for it may have been under
  way when the connection broke, and the client may send a pipeline again.
\<close>

inductive pl_step :: "runtime \<Rightarrow> 'r redis_api \<Rightarrow> ('r \<Rightarrow> raw_item list) \<Rightarrow> ('r \<Rightarrow> string \<Rightarrow> entry list) \<Rightarrow> settings
    \<Rightarrow> int \<Rightarrow> bool \<Rightarrow> 'r pipeline \<Rightarrow> 'r pipeline \<Rightarrow> bool"
  for rt api items entries st b faulty where
  push: "\<lbrakk>items s' = items (pl_redis p) @ xs; entries s' = entries (pl_redis p)\<rbrakk> \<Longrightarrow>
    pl_step rt api items entries st b faulty p (p\<lparr>pl_redis := s', pl_pushed := pl_pushed p @ xs\<rparr>)"
| consumer: "consumer_step rt api b faulty (pl_consumer p, pl_redis p) (pc, s') \<Longrightarrow>
    pl_step rt api items entries st b faulty p
      (p\<lparr>pl_redis := s', pl_consumer := pc, pl_sent := pl_sent p \<union> handed (pl_consumer p) pc\<rparr>)"
| trimmer: "trimmer_step api st faulty (pl_trimmer p, pl_redis p) (pc, s') \<Longrightarrow>
    pl_step rt api items entries st b faulty p
      (p\<lparr>pl_redis := s', pl_trimmer := pc, pl_trims := pl_trims p \<union> attempted (pl_trimmer p)\<rparr>)"
| network: "\<lbrakk>faulty; (key, d) \<in> pl_sent p; ra_xadd api (pl_redis p) key d = (res, s')\<rbrakk> \<Longrightarrow>
    pl_step rt api items entries st b faulty p (p\<lparr>pl_redis := s'\<rparr>)"

text \<open>The steps of the tasks as steps of the whole, one lemma per rule, and the case distinction.\<close>

lemma consumer_stepI:
  "consumer_step rt api b faulty (pl_consumer p, pl_redis p) (pc, s') \<Longrightarrow>
   p' = p\<lparr>pl_redis := s', pl_consumer := pc, pl_sent := pl_sent p \<union> handed (pl_consumer p) pc\<rparr> \<Longrightarrow>
   pl_step rt api items entries st b faulty p p'"
  by (simp add: pl_step.consumer)

lemma trimmer_stepI:
  "trimmer_step api st faulty (pl_trimmer p, pl_redis p) (pc, s') \<Longrightarrow>
   p' = p\<lparr>pl_redis := s', pl_trimmer := pc, pl_trims := pl_trims p \<union> attempted (pl_trimmer p)\<rparr> \<Longrightarrow>
   pl_step rt api items entries st b faulty p p'"
  by (simp add: pl_step.trimmer)

lemma handed_caught [simp]: "handed pc (consumer_caught e) = {}"
  by (cases pc) (simp_all add: consumer_caught_def)

lemma handed_CSend [simp]: "handed (CSend cs err) pc = {}" "handed CWait pc = {}"
  by (cases pc; simp)+

lemma pl_idle:
  assumes "pl_consumer p = CWait" and "rc_blpop api (pl_redis p) INGEST_LIST = (Inr None, s')"
  shows "pl_step rt api items entries st b faulty p (p\<lparr>pl_redis := s'\<rparr>)"
  by (rule consumer_stepI [where pc = "CWait" and s' = "s'"])
    (use assms in \<open>simp add: consumer_step.idle\<close>, use assms in \<open>cases p; simp\<close>)

lemma pl_woken:
  assumes "pl_consumer p = CWait" and "rc_blpop api (pl_redis p) INGEST_LIST = (Inr (Some x), s')"
  shows "pl_step rt api items entries st b faulty p (p\<lparr>pl_redis := s', pl_consumer := CPopped x\<rparr>)"
  by (rule consumer_stepI [where pc = "CPopped x" and s' = "s'"])
    (use assms in \<open>simp add: consumer_step.woken\<close>, use assms in \<open>cases p; simp\<close>)

lemma pl_drained:
  assumes "pl_consumer p = CPopped x" and "1 < b" and "rc_lpop api (pl_redis p) INGEST_LIST (b - 1) = (Inr rest, s')"
  shows "pl_step rt api items entries st b faulty p (p\<lparr>pl_redis := s', pl_consumer := CSend (batch_xadds rt (x # rest)) None,
      pl_sent := pl_sent p \<union> set (batch_xadds rt (x # rest))\<rparr>)"
  by (rule consumer_stepI [where pc = "CSend (batch_xadds rt (x # rest)) None" and s' = "s'"])
    (use assms in \<open>simp add: consumer_step.drained\<close>, use assms in \<open>cases p; simp\<close>)

lemma pl_single:
  assumes "pl_consumer p = CPopped x" and "\<not> 1 < b"
  shows "pl_step rt api items entries st b faulty p (p\<lparr>pl_consumer := CSend (batch_xadds rt [x]) None, pl_sent := pl_sent p \<union> set (batch_xadds rt [x])\<rparr>)"
  by (rule consumer_stepI [where pc = "CSend (batch_xadds rt [x]) None" and s' = "pl_redis p"])
    (use assms in \<open>simp add: consumer_step.single\<close>, use assms in \<open>cases p; simp\<close>)

lemma pl_sent:
  assumes "pl_consumer p = CSend ((key, d) # cs) err" and "ra_xadd api (pl_redis p) key d = (Inr (), s')"
  shows "pl_step rt api items entries st b faulty p (p\<lparr>pl_redis := s', pl_consumer := CSend cs err\<rparr>)"
  by (rule consumer_stepI [where pc = "CSend cs err" and s' = "s'"])
    (use assms in \<open>simp add: consumer_step.sent\<close>, use assms in \<open>cases p; simp\<close>)

lemma pl_executed:
  assumes "pl_consumer p = CSend [] None"
  shows "pl_step rt api items entries st b faulty p (p\<lparr>pl_consumer := CWait\<rparr>)"
  by (rule consumer_stepI [where pc = "CWait" and s' = "pl_redis p"])
    (use assms in \<open>simp add: consumer_step.executed\<close>, use assms in \<open>cases p; simp\<close>)

lemma pl_pop_failed:
  assumes "faulty" and "pl_consumer p = CWait" and "rc_blpop api (pl_redis p) INGEST_LIST = (Inl e, s')"
  shows "pl_step rt api items entries st b faulty p (p\<lparr>pl_redis := s', pl_consumer := consumer_caught e\<rparr>)"
  by (rule consumer_stepI [where pc = "consumer_caught e" and s' = "s'"])
    (use assms in \<open>simp add: consumer_step.pop_failed\<close>, use assms in \<open>cases p; simp\<close>)

lemma pl_drain_failed:
  assumes "faulty" and "pl_consumer p = CPopped x" and "1 < b" and "rc_lpop api (pl_redis p) INGEST_LIST (b - 1) = (Inl e, s')"
  shows "pl_step rt api items entries st b faulty p (p\<lparr>pl_redis := s', pl_consumer := consumer_caught e\<rparr>)"
  by (rule consumer_stepI [where pc = "consumer_caught e" and s' = "s'"])
    (use assms in \<open>simp add: consumer_step.drain_failed\<close>, use assms in \<open>cases p; simp\<close>)

lemma pl_send_failed:
  assumes "faulty" and "pl_consumer p = CSend ((key, d) # cs) err" and "ra_xadd api (pl_redis p) key d = (Inl e, s')"
  shows "pl_step rt api items entries st b faulty p (p\<lparr>pl_redis := s', pl_consumer := CSend cs (case err of None \<Rightarrow> Some e | Some e0 \<Rightarrow> Some e0)\<rparr>)"
  by (rule consumer_stepI [where pc = "CSend cs (case err of None \<Rightarrow> Some e | Some e0 \<Rightarrow> Some e0)" and s' = "s'"])
    (use assms in \<open>simp add: consumer_step.send_failed\<close>, use assms in \<open>cases p; simp\<close>)

lemma pl_connection_lost:
  assumes "faulty" and "pl_consumer p = CSend cs err"
  shows "pl_step rt api items entries st b faulty p (p\<lparr>pl_consumer := consumer_caught RedisError\<rparr>)"
  by (rule consumer_stepI [where pc = "consumer_caught RedisError" and s' = "pl_redis p"])
    (use assms in \<open>simp add: consumer_step.connection_lost\<close>, use assms in \<open>cases p; simp\<close>)

lemma pl_executed_error:
  assumes "faulty" and "pl_consumer p = CSend [] (Some e)"
  shows "pl_step rt api items entries st b faulty p (p\<lparr>pl_consumer := consumer_caught e\<rparr>)"
  by (rule consumer_stepI [where pc = "consumer_caught e" and s' = "pl_redis p"])
    (use assms in \<open>simp add: consumer_step.executed_error\<close>, use assms in \<open>cases p; simp\<close>)

lemma pl_sweep_begins:
  assumes "pl_trimmer p = TrSleep" and "now_ms t = Inr n"
  shows "pl_step rt api items entries st b faulty p (p\<lparr>pl_trimmer := TrSweep (sweep st n)\<rparr>)"
  by (rule trimmer_stepI [where pc = "TrSweep (sweep st n)" and s' = "pl_redis p"])
    (use assms in \<open>simp add: trimmer_step.sweep_begins\<close>, use assms in \<open>cases p; simp\<close>)

lemma pl_trimmed:
  assumes "pl_trimmer p = TrSweep ((h, k, ms) # w)" and "ra_xtrim api (pl_redis p) (stream_key h k) ms False = (Inr (), s')"
  shows "pl_step rt api items entries st b faulty p (p\<lparr>pl_redis := s', pl_trimmer := TrSweep w, pl_trims := insert (h, k, ms) (pl_trims p)\<rparr>)"
  by (rule trimmer_stepI [where pc = "TrSweep w" and s' = "s'"])
    (use assms in \<open>simp add: trimmer_step.trimmed\<close>, use assms in \<open>cases p; simp\<close>)

lemma pl_swept:
  assumes "pl_trimmer p = TrSweep []"
  shows "pl_step rt api items entries st b faulty p (p\<lparr>pl_trimmer := TrSleep\<rparr>)"
  by (rule trimmer_stepI [where pc = "TrSleep" and s' = "pl_redis p"])
    (use assms in \<open>simp add: trimmer_step.swept\<close>, use assms in \<open>cases p; simp\<close>)

lemma pl_clock_failed:
  assumes "faulty" and "pl_trimmer p = TrSleep" and "now_ms t = Inl e"
  shows "pl_step rt api items entries st b faulty p (p\<lparr>pl_trimmer := TrDead e\<rparr>)"
  by (rule trimmer_stepI [where pc = "TrDead e" and s' = "pl_redis p"])
    (use assms in \<open>simp add: trimmer_step.clock_failed\<close>, use assms in \<open>cases p; simp\<close>)

lemma pl_trim_failed:
  assumes "faulty" and "pl_trimmer p = TrSweep ((h, k, ms) # w)" and "ra_xtrim api (pl_redis p) (stream_key h k) ms False = (Inl e, s')"
  shows "pl_step rt api items entries st b faulty p (p\<lparr>pl_redis := s', pl_trimmer := (if e = RedisError then TrSweep w else TrDead e),
      pl_trims := insert (h, k, ms) (pl_trims p)\<rparr>)"
  by (rule trimmer_stepI [where pc = "(if e = RedisError then TrSweep w else TrDead e)" and s' = "s'"])
    (use assms in \<open>simp add: trimmer_step.trim_failed\<close>, use assms in \<open>cases p; simp\<close>)

lemma pl_step_cases:
  assumes "pl_step rt api items entries st b faulty p p'"
  obtains (pushed) s' xs where "p' = p\<lparr>pl_redis := s', pl_pushed := pl_pushed p @ xs\<rparr>" "items s' = items (pl_redis p) @ xs" "entries s' = entries (pl_redis p)"
  | (idle) s' where "p' = p\<lparr>pl_redis := s'\<rparr>" "pl_consumer p = CWait" "rc_blpop api (pl_redis p) INGEST_LIST = (Inr None, s')"
  | (woken) x s' where "p' = p\<lparr>pl_redis := s', pl_consumer := CPopped x\<rparr>" "pl_consumer p = CWait" "rc_blpop api (pl_redis p) INGEST_LIST = (Inr (Some x), s')"
  | (drained) x rest s' where "p' = p\<lparr>pl_redis := s', pl_consumer := CSend (batch_xadds rt (x # rest)) None,
      pl_sent := pl_sent p \<union> set (batch_xadds rt (x # rest))\<rparr>" "pl_consumer p = CPopped x" "1 < b" "rc_lpop api (pl_redis p) INGEST_LIST (b - 1) = (Inr rest, s')"
  | (single) x where "p' = p\<lparr>pl_consumer := CSend (batch_xadds rt [x]) None, pl_sent := pl_sent p \<union> set (batch_xadds rt [x])\<rparr>" "pl_consumer p = CPopped x" "\<not> 1 < b"
  | (sent) key d cs err s' where "p' = p\<lparr>pl_redis := s', pl_consumer := CSend cs err\<rparr>" "pl_consumer p = CSend ((key, d) # cs) err" "ra_xadd api (pl_redis p) key d = (Inr (), s')"
  | (executed) "p' = p\<lparr>pl_consumer := CWait\<rparr>" "pl_consumer p = CSend [] None"
  | (pop_failed) e s' where "p' = p\<lparr>pl_redis := s', pl_consumer := consumer_caught e\<rparr>" "faulty" "pl_consumer p = CWait" "rc_blpop api (pl_redis p) INGEST_LIST = (Inl e, s')"
  | (drain_failed) x e s' where "p' = p\<lparr>pl_redis := s', pl_consumer := consumer_caught e\<rparr>" "faulty" "pl_consumer p = CPopped x" "1 < b" "rc_lpop api (pl_redis p) INGEST_LIST (b - 1) = (Inl e, s')"
  | (send_failed) key d cs err e s' where "p' = p\<lparr>pl_redis := s', pl_consumer := CSend cs (case err of None \<Rightarrow> Some e | Some e0 \<Rightarrow> Some e0)\<rparr>" "faulty" "pl_consumer p = CSend ((key, d) # cs) err" "ra_xadd api (pl_redis p) key d = (Inl e, s')"
  | (connection_lost) cs err where "p' = p\<lparr>pl_consumer := consumer_caught RedisError\<rparr>" "faulty" "pl_consumer p = CSend cs err"
  | (executed_error) e where "p' = p\<lparr>pl_consumer := consumer_caught e\<rparr>" "faulty" "pl_consumer p = CSend [] (Some e)"
  | (sweep_begins) t n where "p' = p\<lparr>pl_trimmer := TrSweep (sweep st n)\<rparr>" "pl_trimmer p = TrSleep" "now_ms t = Inr n"
  | (trimmed) h k ms w s' where "p' = p\<lparr>pl_redis := s', pl_trimmer := TrSweep w, pl_trims := insert (h, k, ms) (pl_trims p)\<rparr>" "pl_trimmer p = TrSweep ((h, k, ms) # w)" "ra_xtrim api (pl_redis p) (stream_key h k) ms False = (Inr (), s')"
  | (swept) "p' = p\<lparr>pl_trimmer := TrSleep\<rparr>" "pl_trimmer p = TrSweep []"
  | (clock_failed) t e where "p' = p\<lparr>pl_trimmer := TrDead e\<rparr>" "faulty" "pl_trimmer p = TrSleep" "now_ms t = Inl e"
  | (trim_failed) h k ms w e s' where "p' = p\<lparr>pl_redis := s', pl_trimmer := (if e = RedisError then TrSweep w else TrDead e),
      pl_trims := insert (h, k, ms) (pl_trims p)\<rparr>" "faulty" "pl_trimmer p = TrSweep ((h, k, ms) # w)" "ra_xtrim api (pl_redis p) (stream_key h k) ms False = (Inl e, s')"
  | (late) key d res s' where "p' = p\<lparr>pl_redis := s'\<rparr>" "faulty" "(key, d) \<in> pl_sent p" "ra_xadd api (pl_redis p) key d = (res, s')"
  using assms
proof (cases rule: pl_step.cases)
  case a: push
  then show thesis by (rule pushed)
next
  case a: network
  then show thesis by (rule late)
next
  case c: (consumer pc s1)
  from c(2) show thesis
  proof (cases rule: consumer_step.cases)
    case a: idle
    show thesis by (rule idle) (use c(1) a in \<open>cases p; simp\<close>)+
  next
    case a: woken
    show thesis by (rule woken) (use c(1) a in \<open>cases p; simp\<close>)+
  next
    case a: drained
    show thesis by (rule drained) (use c(1) a in \<open>cases p; simp\<close>)+
  next
    case a: single
    show thesis by (rule single) (use c(1) a in \<open>cases p; simp\<close>)+
  next
    case a: sent
    show thesis by (rule sent) (use c(1) a in \<open>cases p; simp\<close>)+
  next
    case a: executed
    show thesis by (rule executed) (use c(1) a in \<open>cases p; simp\<close>)+
  next
    case a: pop_failed
    show thesis by (rule pop_failed) (use c(1) a in \<open>cases p; simp\<close>)+
  next
    case a: drain_failed
    show thesis by (rule drain_failed) (use c(1) a in \<open>cases p; simp\<close>)+
  next
    case a: send_failed
    show thesis by (rule send_failed) (use c(1) a in \<open>cases p; simp\<close>)+
  next
    case a: connection_lost
    show thesis by (rule connection_lost) (use c(1) a in \<open>cases p; simp\<close>)+
  next
    case a: executed_error
    show thesis by (rule executed_error) (use c(1) a in \<open>cases p; simp\<close>)+
  qed
next
  case c: (trimmer pc s1)
  from c(2) show thesis
  proof (cases rule: trimmer_step.cases)
    case a: sweep_begins
    show thesis by (rule sweep_begins) (use c(1) a in \<open>cases p; simp\<close>)+
  next
    case a: trimmed
    show thesis by (rule trimmed) (use c(1) a in \<open>cases p; simp\<close>)+
  next
    case a: swept
    show thesis by (rule swept) (use c(1) a in \<open>cases p; simp\<close>)+
  next
    case a: clock_failed
    show thesis by (rule clock_failed) (use c(1) a in \<open>cases p; simp\<close>)+
  next
    case a: trim_failed
    show thesis by (rule trim_failed) (use c(1) a in \<open>cases p; simp\<close>)+
  qed
qed

abbreviation pl_steps :: "runtime \<Rightarrow> 'r redis_api \<Rightarrow> ('r \<Rightarrow> raw_item list) \<Rightarrow> ('r \<Rightarrow> string \<Rightarrow> entry list) \<Rightarrow> settings
    \<Rightarrow> int \<Rightarrow> bool \<Rightarrow> 'r pipeline \<Rightarrow> 'r pipeline \<Rightarrow> bool" where
  "pl_steps rt api items entries st b faulty \<equiv> (pl_step rt api items entries st b faulty)\<^sup>*\<^sup>*"

definition pl_start :: "('r \<Rightarrow> raw_item list) \<Rightarrow> 'r \<Rightarrow> 'r pipeline" where
  "pl_start items s = \<lparr>pl_redis = s, pl_consumer = CWait, pl_trimmer = TrSleep, pl_pushed = items s, pl_sent = {}, pl_trims = {}\<rparr>"

section \<open>What is relied on of Redis\<close>

text \<open>An entry the server adds: a fresh ID above all of its stream, and the one field.\<close>

definition appended :: "string \<Rightarrow> string \<Rightarrow> (string \<Rightarrow> entry list) \<Rightarrow> (string \<Rightarrow> entry list) \<Rightarrow> bool" where
  "appended key d es es' \<longleftrightarrow> (\<exists>i. sid_seq i \<le> MAX_STREAM_SEQ \<and> (\<forall>e\<in>set (es key). fst e < i) \<and>
     es' = es(key := es key @ [(i, [(''data'', d)])]))"

definition pops_api :: "'r redis_api \<Rightarrow> ('r \<Rightarrow> raw_item list) \<Rightarrow> ('r \<Rightarrow> string \<Rightarrow> entry list) \<Rightarrow> bool" where
  "pops_api api items entries \<longleftrightarrow>
     (\<forall>s res s'. rc_blpop api s INGEST_LIST = (res, s') \<longrightarrow> entries s' = entries s \<and>
        (\<forall>x. res = Inr (Some x) \<longrightarrow> items s = x # items s') \<and> (res = Inr None \<longrightarrow> items s' = items s)) \<and>
     (\<forall>s n res s'. 0 < n \<longrightarrow> rc_lpop api s INGEST_LIST n = (res, s') \<longrightarrow> entries s' = entries s \<and>
        (\<forall>rest. res = Inr rest \<longrightarrow> items s = rest @ items s'))"

definition xadd_api :: "'r redis_api \<Rightarrow> ('r \<Rightarrow> raw_item list) \<Rightarrow> ('r \<Rightarrow> string \<Rightarrow> entry list) \<Rightarrow> bool" where
  "xadd_api api items entries \<longleftrightarrow>
     (\<forall>s key d res s'. ra_xadd api s key d = (res, s') \<longrightarrow> items s' = items s \<and>
        (appended key d (entries s) (entries s') \<or> (\<exists>e. res = Inl e) \<and> entries s' = entries s))"

definition trimmed_below :: "string \<Rightarrow> int \<Rightarrow> (string \<Rightarrow> entry list) \<Rightarrow> (string \<Rightarrow> entry list)" where
  "trimmed_below key ms es = es(key := filter (\<lambda>e. not_before ms (fst e)) (es key))"

text \<open>With \<open>approximate\<close>, entries below the bound may stay.\<close>

definition xtrim_api :: "'r redis_api \<Rightarrow> ('r \<Rightarrow> raw_item list) \<Rightarrow> ('r \<Rightarrow> string \<Rightarrow> entry list) \<Rightarrow> bool" where
  "xtrim_api api items entries \<longleftrightarrow>
     (\<forall>s key ms approximate res s'. ra_xtrim api s key ms approximate = (res, s') \<longrightarrow> items s' = items s \<and>
        (if approximate
         then \<exists>keep. (\<forall>i. not_before ms i \<longrightarrow> keep i) \<and> entries s' = (entries s)(key := filter (keep \<circ> fst) (entries s key))
         else entries s' = trimmed_below key ms (entries s) \<or> (\<exists>e. res = Inl e) \<and> entries s' = entries s))"

definition redis_ok :: "'r redis_api \<Rightarrow> ('r \<Rightarrow> raw_item list) \<Rightarrow> ('r \<Rightarrow> string \<Rightarrow> entry list) \<Rightarrow> bool" where
  "redis_ok api items entries \<longleftrightarrow>
     pops_api api items entries \<and> xadd_api api items entries \<and> xtrim_api api items entries"

lemma redis_okD:
  assumes "redis_ok api items entries"
  shows "rc_blpop api s INGEST_LIST = (res, s') \<Longrightarrow> entries s' = entries s"
    and "rc_blpop api s INGEST_LIST = (Inr (Some x), s') \<Longrightarrow> items s = x # items s'"
    and "rc_blpop api s INGEST_LIST = (Inr None, s') \<Longrightarrow> items s' = items s"
    and "0 < n \<Longrightarrow> rc_lpop api s INGEST_LIST n = (lres, s') \<Longrightarrow> entries s' = entries s"
    and "0 < n \<Longrightarrow> rc_lpop api s INGEST_LIST n = (Inr rest, s') \<Longrightarrow> items s = rest @ items s'"
    and "ra_xadd api s key d = (ares, s') \<Longrightarrow> items s' = items s"
    and "ra_xadd api s key d = (ares, s') \<Longrightarrow> appended key d (entries s) (entries s') \<or> entries s' = entries s"
    and "ra_xadd api s key d = (Inr u, s') \<Longrightarrow> appended key d (entries s) (entries s')"
    and "ra_xtrim api s key ms False = (tres, s') \<Longrightarrow> items s' = items s"
    and "ra_xtrim api s key ms False = (tres, s') \<Longrightarrow> entries s' = trimmed_below key ms (entries s) \<or> entries s' = entries s"
    and "ra_xtrim api s key ms False = (Inr u, s') \<Longrightarrow> entries s' = trimmed_below key ms (entries s)"
proof -
  have "ra_xtrim api s key ms False = (res, s') \<longrightarrow> items s' = items s \<and>
      (entries s' = trimmed_below key ms (entries s) \<or> (\<exists>e. res = Inl e) \<and> entries s' = entries s)" for s key ms res s'
    using assms unfolding redis_ok_def xtrim_api_def
    by (elim conjE, elim allE [of _ s], elim allE [of _ key], elim allE [of _ ms], elim allE [of _ False]) simp
  then show "ra_xtrim api s key ms False = (tres, s') \<Longrightarrow> items s' = items s"
    and "ra_xtrim api s key ms False = (tres, s') \<Longrightarrow> entries s' = trimmed_below key ms (entries s) \<or> entries s' = entries s"
    and "ra_xtrim api s key ms False = (Inr u, s') \<Longrightarrow> entries s' = trimmed_below key ms (entries s)"
    by blast+
qed (use assms in \<open>unfold redis_ok_def pops_api_def xadd_api_def, blast+\<close>)

text \<open>
  Of the adapter: a record it accepted, it accepts again after writing it, with the same daemon
  and kind (values may change, as when an infinite percentage is written as \<open>null\<close>).
\<close>

definition adapter_stable :: "runtime \<Rightarrow> bool" where
  "adapter_stable rt \<longleftrightarrow> (\<forall>d r. rt_validate_json rt d = Some r \<longrightarrow>
     (\<exists>r'. rt_validate_json rt (rt_dump_json rt r) = Some r' \<and>
        rec_docker_host r' = rec_docker_host r \<and> rec_kind r' = rec_kind r))"

section \<open>Every stream holds records of its own\<close>

text \<open>A text that is a valid record of a daemon and kind, and an entry that holds one.\<close>

definition record_text :: "runtime \<Rightarrow> string \<Rightarrow> kind \<Rightarrow> string \<Rightarrow> bool" where
  "record_text rt h k d \<longleftrightarrow> (\<exists>r. rt_validate_json rt d = Some r \<and> rec_docker_host r = h \<and> rec_kind r = k)"

definition good_stream :: "runtime \<Rightarrow> string \<Rightarrow> kind \<Rightarrow> entry list \<Rightarrow> bool" where
  "good_stream rt h k es \<longleftrightarrow> stream_ok es \<and> (\<forall>e\<in>set es. \<exists>d. snd e = [(''data'', d)] \<and> record_text rt h k d)"

definition good_command :: "runtime \<Rightarrow> string \<times> string \<Rightarrow> bool" where
  "good_command rt c \<longleftrightarrow> (\<exists>h k. fst c = stream_key h k \<and> record_text rt h k (snd c))"

fun unsent :: "consumer_pc \<Rightarrow> (string \<times> string) list" where
  "unsent (CSend cs err) = cs"
| "unsent pc = []"

definition streams_good :: "runtime \<Rightarrow> ('r \<Rightarrow> string \<Rightarrow> entry list) \<Rightarrow> 'r pipeline \<Rightarrow> bool" where
  "streams_good rt entries p \<longleftrightarrow>
     (\<forall>h k. good_stream rt h k (entries (pl_redis p) (stream_key h k))) \<and>
     (\<forall>c\<in>set (unsent (pl_consumer p)) \<union> pl_sent p. good_command rt c)"

lemma stream_ok_append:
  "stream_ok es \<Longrightarrow> sid_seq i \<le> MAX_STREAM_SEQ \<Longrightarrow> \<forall>e\<in>set es. fst e < i \<Longrightarrow> stream_ok (es @ [(i, fs)])"
  by (auto simp: stream_ok_def sorted_wrt_append)

lemma stream_ok_filter: "stream_ok es \<Longrightarrow> stream_ok (filter P es)"
proof -
  assume ok: "stream_ok es"
  then have "sorted_wrt (\<lambda>x y. fst x < fst y) (filter P es)"
    by (intro sorted_wrt_filter) (simp add: stream_ok_def sorted_wrt_map)
  then show "stream_ok (filter P es)" using ok by (simp add: stream_ok_def sorted_wrt_map)
qed

lemma good_stream_filter: "good_stream rt h k es \<Longrightarrow> good_stream rt h k (filter P es)"
  by (simp add: good_stream_def stream_ok_filter)

lemma good_stream_trimmed:
  "good_stream rt h k (es (stream_key h k)) \<Longrightarrow> good_stream rt h k (trimmed_below key ms es (stream_key h k))"
  by (auto simp: trimmed_below_def good_stream_filter)

lemma good_stream_appended:
  assumes "\<forall>h k. good_stream rt h k (es (stream_key h k))" and "appended key d es es'" and "good_command rt (key, d)"
  shows "good_stream rt h k (es' (stream_key h k))"
proof (cases "stream_key h k = key")
  case True
  obtain h0 k0 where "key = stream_key h0 k0" "record_text rt h0 k0 d" using assms(3) by (auto simp: good_command_def)
  then have r: "record_text rt h k d" using True by auto
  obtain i where i: "sid_seq i \<le> MAX_STREAM_SEQ" "\<forall>e\<in>set (es key). fst e < i" "es' = es(key := es key @ [(i, [(''data'', d)])])"
    using assms(2) unfolding appended_def by blast
  have g: "good_stream rt h k (es key)" using assms(1) True by metis
  then have "stream_ok (es key @ [(i, [(''data'', d)])])" using i by (intro stream_ok_append) (simp_all add: good_stream_def)
  then show ?thesis using g r True i(3) by (simp add: good_stream_def)
next
  case False
  then have "es' (stream_key h k) = es (stream_key h k)" using assms(2) by (auto simp: appended_def)
  then show ?thesis using assms(1) by simp
qed

lemma batch_commands_good:
  assumes "adapter_stable rt" and "c \<in> set (batch_xadds rt batch)"
  shows "good_command rt c"
proof -
  obtain item where "item_xadd rt item = Some c"
    using assms(2) by (auto simp: batch_xadds_def map_filter_set)
  then obtain d r where d: "rt_validate_json rt d = Some r" and c: "c = (stream_key (rec_docker_host r) (rec_kind r), rt_dump_json rt r)"
    by (auto simp: item_xadd_def validate_json_def dump_json_def split: raw_item.splits option.splits)
  have "record_text rt (rec_docker_host r) (rec_kind r) (rt_dump_json rt r)"
    using assms(1) d unfolding adapter_stable_def record_text_def by blast
  then show ?thesis unfolding good_command_def c by auto
qed

lemma unsent_caught [simp]: "unsent (consumer_caught e) = []"
  by (simp add: consumer_caught_def)

lemma streams_good_step:
  assumes "pl_step rt api items entries st b faulty p p'" and redis: "redis_ok api items entries"
    and adapter: "adapter_stable rt" and good: "streams_good rt entries p"
  shows "streams_good rt entries p'"
  using assms(1)
proof (cases rule: pl_step_cases)
  case (sent key d cs err s')
  have "good_command rt (key, d)" using good sent(2) by (simp add: streams_good_def)
  then have "good_stream rt h k (entries s' (stream_key h k))" for h k
    using good redis_okD(8) [OF redis sent(3)] unfolding streams_good_def by (blast intro: good_stream_appended)
  then show ?thesis using good sent(1,2) by (simp add: streams_good_def)
next
  case (send_failed key d cs err e s')
  have "good_command rt (key, d)" using good send_failed(3) by (simp add: streams_good_def)
  then have "good_stream rt h k (entries s' (stream_key h k))" for h k
    using good redis_okD(7) [OF redis send_failed(4)] unfolding streams_good_def by (metis good_stream_appended)
  then show ?thesis using good send_failed(1,3) by (simp add: streams_good_def)
next
  case (late key d res s')
  have "good_command rt (key, d)" using good late(3) by (simp add: streams_good_def)
  then have "good_stream rt h k (entries s' (stream_key h k))" for h k
    using good redis_okD(7) [OF redis late(4)] unfolding streams_good_def by (metis good_stream_appended)
  then show ?thesis using good late(1) by (simp add: streams_good_def)
next
  case (trimmed h k ms w s')
  have "entries s' = trimmed_below (stream_key h k) ms (entries (pl_redis p))"
    by (rule redis_okD(11) [OF redis trimmed(3)])
  then show ?thesis using good trimmed(1) by (simp add: streams_good_def good_stream_trimmed)
next
  case (trim_failed h k ms w e s')
  then show ?thesis using good redis_okD(10) [OF redis trim_failed(4)]
    by (auto simp: streams_good_def good_stream_trimmed)
next
  case (drained x rest s')
  have "entries s' = entries (pl_redis p)" by (rule redis_okD(4) [OF redis _ drained(4)]) (use drained(3) in simp)
  then show ?thesis using good drained(1) batch_commands_good [OF adapter] by (auto simp: streams_good_def)
next
  case (drain_failed x e s')
  have "entries s' = entries (pl_redis p)" by (rule redis_okD(4) [OF redis _ drain_failed(5)]) (use drain_failed(4) in simp)
  then show ?thesis using good drain_failed(1) by (simp add: streams_good_def)
qed (use good redis_okD(1) [OF redis] batch_commands_good [OF adapter] in \<open>auto simp: streams_good_def\<close>)

lemma streams_good_steps:
  assumes "pl_steps rt api items entries st b faulty p p'" and "redis_ok api items entries"
    and "adapter_stable rt" and "streams_good rt entries p"
  shows "streams_good rt entries p'"
  using assms by (induction rule: rtranclp_induct) (auto intro: streams_good_step)

lemma streams_good_start:
  "\<forall>h k. entries s (stream_key h k) = [] \<Longrightarrow> streams_good rt entries (pl_start items s)"
  by (simp add: streams_good_def pl_start_def good_stream_def stream_ok_def)

section \<open>Nothing is lost on the way\<close>

definition entry_data :: "entry \<Rightarrow> string" where
  "entry_data e = the (map_of (snd e) ''data'')"

text \<open>What the consumer holds for a stream, and all that is on its way to it.\<close>

fun in_hand :: "runtime \<Rightarrow> consumer_pc \<Rightarrow> (string \<times> string) list" where
  "in_hand rt (CPopped x) = batch_xadds rt [x]"
| "in_hand rt (CSend cs err) = cs"
| "in_hand rt pc = []"

definition on_the_way :: "runtime \<Rightarrow> ('r \<Rightarrow> raw_item list) \<Rightarrow> string \<Rightarrow> 'r pipeline \<Rightarrow> string list" where
  "on_the_way rt items key p = added key (in_hand rt (pl_consumer p)) @ added key (batch_xadds rt (items (pl_redis p)))"

text \<open>Entries an exact trim of their stream has removed.\<close>

definition expired :: "(string \<times> kind \<times> int) set \<Rightarrow> string \<Rightarrow> kind \<Rightarrow> entry \<Rightarrow> bool" where
  "expired trims h k e \<longleftrightarrow> (\<exists>ms. (h, k, ms) \<in> trims \<and> \<not> not_before ms (fst e))"

definition flows :: "runtime \<Rightarrow> ('r \<Rightarrow> raw_item list) \<Rightarrow> ('r \<Rightarrow> string \<Rightarrow> entry list) \<Rightarrow> 'r pipeline \<Rightarrow> string \<Rightarrow> kind \<Rightarrow> bool" where
  "flows rt items entries p h k \<longleftrightarrow> (\<exists>gone. (\<forall>e\<in>set gone. expired (pl_trims p) h k e) \<and>
     added (stream_key h k) (batch_xadds rt (pl_pushed p)) =
       map entry_data (gone @ entries (pl_redis p) (stream_key h k)) @ on_the_way rt items (stream_key h k) p)"

text \<open>An exact trim removes a prefix of a stream, because its IDs increase.\<close>

lemma trim_prefix:
  "stream_ok es \<Longrightarrow> \<exists>t. es = t @ filter (\<lambda>e. not_before ms (fst e)) es \<and> (\<forall>e\<in>set t. \<not> not_before ms (fst e))"
proof (induction es)
  case (Cons e es)
  show ?case
  proof (cases "not_before ms (fst e)")
    case True
    have "not_before ms (fst x)" if "x \<in> set es" for x
      using Cons.prems that True by (auto simp: stream_ok_def not_before_def less_stream_id_def)
    then have "filter (\<lambda>e. not_before ms (fst e)) (e # es) = e # es" using True by simp
    then show ?thesis by (intro exI [of _ "[]"]) simp
  next
    case False
    obtain t where "es = t @ filter (\<lambda>e. not_before ms (fst e)) es" "\<forall>e\<in>set t. \<not> not_before ms (fst e)"
      using Cons by (auto simp: stream_ok_def)
    then show ?thesis using False by (intro exI [of _ "e # t"]) auto
  qed
qed simp

lemma appended_data:
  "appended key d es es' \<Longrightarrow> map entry_data (es' key') = map entry_data (es key') @ added key' [(key, d)]"
  by (auto simp: appended_def entry_data_def added_def)

lemma added_Cons: "added key (c # cs) = added key [c] @ added key cs"
  by (simp add: added_def)

lemma expired_mono: "expired T h k e \<Longrightarrow> T \<subseteq> T' \<Longrightarrow> expired T' h k e"
  by (auto simp: expired_def)

lemma flows_same:
  assumes "flows rt items entries p h k" and "pl_pushed p' = pl_pushed p" and "pl_trims p' = pl_trims p"
    and "entries (pl_redis p') = entries (pl_redis p)"
    and "on_the_way rt items (stream_key h k) p' = on_the_way rt items (stream_key h k) p"
  shows "flows rt items entries p' h k"
  using assms by (simp add: flows_def)

lemma batch_xadds_Cons: "batch_xadds rt (x # xs) = batch_xadds rt [x] @ batch_xadds rt xs"
  using batch_xadds_append [of rt "[x]" xs] by simp

lemma flows_pushed:
  assumes "flows rt items entries p h k" and "items s' = items (pl_redis p) @ xs" and "entries s' = entries (pl_redis p)"
  shows "flows rt items entries (p\<lparr>pl_redis := s', pl_pushed := pl_pushed p @ xs\<rparr>) h k"
  using assms by (auto simp: flows_def on_the_way_def batch_xadds_append)

lemma flows_sent:
  assumes "flows rt items entries p h k" and "pl_consumer p = CSend (c # cs) err"
    and "items s' = items (pl_redis p)" and "appended (fst c) (snd c) (entries (pl_redis p)) (entries s')"
  shows "flows rt items entries (p\<lparr>pl_redis := s', pl_consumer := CSend cs err\<rparr>) h k"
proof -
  have "map entry_data (entries s' (stream_key h k)) =
      map entry_data (entries (pl_redis p) (stream_key h k)) @ added (stream_key h k) [c]"
    using appended_data [OF assms(4), of "stream_key h k"] by simp
  moreover have "on_the_way rt items (stream_key h k) p = added (stream_key h k) [c] @
      on_the_way rt items (stream_key h k) (p\<lparr>pl_redis := s', pl_consumer := CSend cs err\<rparr>)"
    using assms(2,3) added_Cons [of "stream_key h k" c cs] by (simp add: on_the_way_def)
  ultimately show ?thesis using assms(1) unfolding flows_def by auto
qed

lemma flows_trimmed:
  assumes "flows rt items entries p h k" and "stream_ok (entries (pl_redis p) (stream_key h k))"
    and "items s' = items (pl_redis p)" and "entries s' = trimmed_below (stream_key h0 k0) ms (entries (pl_redis p))"
  shows "flows rt items entries
    (p\<lparr>pl_redis := s', pl_trimmer := w, pl_trims := insert (h0, k0, ms) (pl_trims p)\<rparr>) h k"
proof -
  let ?es = "entries (pl_redis p) (stream_key h k)" and ?T = "insert (h0, k0, ms) (pl_trims p)"
  have "\<exists>t. ?es = t @ entries s' (stream_key h k) \<and> (\<forall>e\<in>set t. expired ?T h k e)"
  proof (cases "h0 = h \<and> k0 = k")
    case True
    then show ?thesis using trim_prefix [OF assms(2), of ms] assms(4) by (fastforce simp: trimmed_below_def expired_def)
  next
    case False
    then have "entries s' (stream_key h k) = ?es" using assms(4) by (auto simp: trimmed_below_def)
    then show ?thesis by (intro exI [of _ "[]"]) simp
  qed
  then obtain t where t: "?es = t @ entries s' (stream_key h k)" "\<forall>e\<in>set t. expired ?T h k e" by blast
  obtain gone where g: "\<forall>e\<in>set gone. expired (pl_trims p) h k e"
    "added (stream_key h k) (batch_xadds rt (pl_pushed p)) = map entry_data (gone @ ?es) @ on_the_way rt items (stream_key h k) p"
    using assms(1) unfolding flows_def by blast
  have "\<forall>e\<in>set (gone @ t). expired ?T h k e" using g(1) t(2) expired_mono [of "pl_trims p" h k _ ?T] by auto
  moreover have "map entry_data (gone @ ?es) = map entry_data ((gone @ t) @ entries s' (stream_key h k))"
    unfolding append_assoc using arg_cong [OF t(1), of "\<lambda>es. map entry_data (gone @ es)"] .
  ultimately show ?thesis using g(2) assms(3) unfolding flows_def on_the_way_def by (intro exI [of _ "gone @ t"]) simp
qed

lemma flows_step:
  assumes "pl_step rt api items entries st b False p p'" and redis: "redis_ok api items entries"
    and good: "streams_good rt entries p" and fl: "flows rt items entries p h k"
  shows "flows rt items entries p' h k"
  using assms(1)
proof (cases rule: pl_step_cases)
  case (pushed s' xs)
  then show ?thesis using flows_pushed [OF fl] by simp
next
  case (idle s')
  then show ?thesis using redis_okD(1,3) [OF redis idle(3)] by (intro flows_same [OF fl]) (simp_all add: on_the_way_def)
next
  case (woken x s')
  then show ?thesis using redis_okD(1,2) [OF redis woken(3)]
    by (intro flows_same [OF fl]) (simp_all add: on_the_way_def batch_xadds_Cons [of rt x "items s'"])
next
  case (drained x rest s')
  then have "0 < b - 1" by simp
  note r = redis_okD(4,5) [OF redis this drained(4)]
  show ?thesis unfolding drained(1) using r drained(2)
    by (intro flows_same [OF fl])
      (simp_all add: on_the_way_def batch_xadds_append batch_xadds_Cons [of rt x rest])
next
  case (sent key d cs err s')
  then show ?thesis using flows_sent [OF fl sent(2), of s'] redis_okD(6,8) [OF redis sent(3)] by simp
next
  case (trimmed h0 k0 ms w s')
  have "stream_ok (entries (pl_redis p) (stream_key h k))" using good by (simp add: streams_good_def good_stream_def)
  then show ?thesis unfolding trimmed(1) using flows_trimmed [OF fl] redis_okD(9,11) [OF redis trimmed(3)] by blast
qed (auto intro!: flows_same [OF fl] simp: on_the_way_def)

lemma flows_steps:
  assumes "pl_steps rt api items entries st b False p p'" and "redis_ok api items entries"
    and "adapter_stable rt" and "streams_good rt entries p" and "flows rt items entries p h k"
  shows "flows rt items entries p' h k"
  using assms
  by (induction rule: rtranclp_induct) (auto intro: flows_step streams_good_steps)

lemma flows_start: "entries s (stream_key h k) = [] \<Longrightarrow> flows rt items entries (pl_start items s) h k"
  by (simp add: flows_def pl_start_def on_the_way_def)

text \<open>The trims tried and still to try are those of a sweep of the configured daemons.\<close>

fun due :: "trimmer_pc \<Rightarrow> (string \<times> kind \<times> int) set" where
  "due (TrSweep w) = set w"
| "due pc = {}"

definition of_a_sweep :: "settings \<Rightarrow> (string \<times> kind \<times> int) set" where
  "of_a_sweep st = {c. \<exists>t n. now_ms t = Inr n \<and> c \<in> set (sweep st n)}"

definition trims_swept :: "settings \<Rightarrow> 'r pipeline \<Rightarrow> bool" where
  "trims_swept st p \<longleftrightarrow> pl_trims p \<union> due (pl_trimmer p) \<subseteq> of_a_sweep st"

lemma trims_swept_step:
  assumes "pl_step rt api items entries st b faulty p p'" and "trims_swept st p"
  shows "trims_swept st p'"
  using assms by (cases rule: pl_step_cases) (auto simp: trims_swept_def of_a_sweep_def)

lemma trims_swept_steps:
  assumes "pl_steps rt api items entries st b faulty (pl_start items s) p"
  shows "trims_swept st p"
  using assms
proof (induction rule: rtranclp_induct)
  case base
  then show ?case by (simp add: trims_swept_def pl_start_def)
qed (rule trims_swept_step)

lemma sweep_horizons:
  "(h, k, ms) \<in> set (sweep st n) \<longleftrightarrow> h \<in> dc_id ` set (st_daemons st) \<and>
     ms = n - MS_PER_DAY * (case k of LOG \<Rightarrow> retention_days (st_retention st)
       | METRIC \<Rightarrow> effective_metrics_retention_days (st_retention st))"
  by (cases k) (auto simp: sweep_def)

section \<open>Properties\<close>

text \<open>
  C15. Whatever Logstash pushes, however the two tasks' calls interleave and whichever of them
  fail, also in the middle of a pipeline: every stream holds only valid records of its own
  daemon and kind, one field each, in strictly increasing ID order.
\<close>

theorem streams_hold_their_own_records:
  assumes "redis_ok api items entries" and "adapter_stable rt"
    and "\<forall>h k. entries s (stream_key h k) = []"
    and "pl_steps rt api items entries st b faulty (pl_start items s) p"
  shows "good_stream rt h k (entries (pl_redis p) (stream_key h k))"
  using streams_good_steps [OF assms(4,1,2) streams_good_start [where entries = entries, OF assms(3)]]
  by (simp add: streams_good_def)

text \<open>
  C5. As long as no call fails nothing is lost, doubled or reordered: at every moment the
  valid records pushed for a daemon and kind are, in this order, those an exact trim has
  expired, those in the stream, those in the consumer's hands and those still in the list, and
  every trim is one of a sweep of the configured daemons at some reading of the clock.
\<close>

theorem nothing_lost_on_the_way:
  assumes "redis_ok api items entries" and "adapter_stable rt"
    and "\<forall>h k. entries s (stream_key h k) = []"
    and "pl_steps rt api items entries st b False (pl_start items s) p"
  shows "\<exists>gone. (\<forall>e\<in>set gone. expired (pl_trims p) h k e) \<and> pl_trims p \<subseteq> of_a_sweep st \<and>
    map (dump_json rt) (filter (\<lambda>r. rec_docker_host r = h \<and> rec_kind r = k) (valid_records rt (pl_pushed p))) =
    map entry_data gone @ map entry_data (entries (pl_redis p) (stream_key h k)) @ on_the_way rt items (stream_key h k) p"
proof -
  have "flows rt items entries p h k"
    using flows_steps [OF assms(4,1,2)] assms(3) streams_good_start [where entries = entries, OF assms(3)]
    by (simp add: flows_start)
  moreover have "pl_trims p \<subseteq> of_a_sweep st" using trims_swept_steps [OF assms(4)] by (simp add: trims_swept_def)
  ultimately show ?thesis by (auto simp: flows_def added_valid_records)
qed

section \<open>A server in memory\<close>

text \<open>A concrete Redis that satisfies what is relied on, and a run over it, for the witnesses.\<close>

record mem =
  mem_items :: "raw_item list"
  mem_entries :: "string \<Rightarrow> entry list"

definition fresh_id :: "entry list \<Rightarrow> stream_id" where
  "fresh_id es = SID (Suc (foldr max (map (sid_ms \<circ> fst) es) 1100000000000)) 0"

definition mem_xadd :: "mem \<Rightarrow> string \<Rightarrow> string \<Rightarrow> mem" where
  "mem_xadd s key d = s\<lparr>mem_entries := (mem_entries s)(key := mem_entries s key @ [(fresh_id (mem_entries s key), [(''data'', d)])])\<rparr>"

definition mem_api :: "mem redis_api" where
  "mem_api =
     \<lparr>rc_blpop = (\<lambda>s k. case mem_items s of [] \<Rightarrow> (Inr None, s) | x # xs \<Rightarrow> (Inr (Some x), s\<lparr>mem_items := xs\<rparr>)),
      rc_lpop = (\<lambda>s k n. (Inr (take (nat n) (mem_items s)), s\<lparr>mem_items := drop (nat n) (mem_items s)\<rparr>)),
      rc_xadds = (\<lambda>s cmds. (Inr (), foldl (\<lambda>s c. mem_xadd s (fst c) (snd c)) s cmds)),
      ra_xadd = (\<lambda>s key d. (Inr (), mem_xadd s key d)),
      ra_xtrim = (\<lambda>s key ms approximate. (Inr (), if approximate then s else s\<lparr>mem_entries := trimmed_below key ms (mem_entries s)\<rparr>)),
      ra_xrange = (\<lambda>s. fun_xrange (mem_entries s))\<rparr>"

lemma fresh_id_above: "e \<in> set es \<Longrightarrow> fst e < fresh_id es"
proof (induction es)
  case (Cons e' es)
  then show ?case by (cases "e = e'") (auto simp: fresh_id_def less_stream_id_def)
qed simp

lemma mem_api_ok: "redis_ok mem_api mem_items mem_entries"
proof -
  have "appended key d (mem_entries s) (mem_entries (mem_xadd s key d))" for key d s
    unfolding appended_def mem_xadd_def
    by (intro exI [of _ "fresh_id (mem_entries s key)"]) (simp add: fresh_id_above fresh_id_def [THEN arg_cong [of _ _ sid_seq]])
  then have "xadd_api mem_api mem_items mem_entries" by (auto simp: xadd_api_def mem_api_def mem_xadd_def)
  moreover have "pops_api mem_api mem_items mem_entries"
    by (auto simp: pops_api_def mem_api_def split: list.splits)
  moreover have "xtrim_api mem_api mem_items mem_entries" by (auto simp: xtrim_api_def mem_api_def intro!: exI [of _ "\<lambda>i. True"])
  ultimately show ?thesis by (simp add: redis_ok_def)
qed

lemma sample_adapter: "adapter_stable (one_record_runtime ''ok'' r)"
  by (simp add: adapter_stable_def one_record_runtime_def)

text \<open>One record ingested between a valid and an invalid one, and the daemon's log trimmed.\<close>

definition sample_mem :: mem where
  "sample_mem = \<lparr>mem_items = [Text ''ok'', Text ''bad'', Text ''ok''], mem_entries = (\<lambda>key. [])\<rparr>"

definition one_daemon :: settings where
  "one_daemon = default_settings\<lparr>st_daemons := [daemon_defaults ''d'' ''h'']\<rparr>"

definition sample_end :: "mem pipeline" where
  "sample_end =
     \<lparr>pl_redis = \<lparr>mem_items = [Text ''ok''], mem_entries = (\<lambda>key. [])(stream_key ''d'' LOG := [])\<rparr>,
      pl_consumer = CWait, pl_trimmer = TrSweep [(''d'', METRIC, 1100095200000)],
      pl_pushed = [Text ''ok'', Text ''bad'', Text ''ok''], pl_sent = {(stream_key ''d'' LOG, ''ok'')},
      pl_trims = {(''d'', LOG, 1100095200000)}\<rparr>"

abbreviation sample_pipe :: "raw_item list \<Rightarrow> (string \<Rightarrow> entry list) \<Rightarrow> consumer_pc \<Rightarrow> trimmer_pc
    \<Rightarrow> (string \<times> string) set \<Rightarrow> mem pipeline" where
  "sample_pipe xs es c tr cs \<equiv> \<lparr>pl_redis = \<lparr>mem_items = xs, mem_entries = es\<rparr>, pl_consumer = c, pl_trimmer = tr,
     pl_pushed = [Text ''ok'', Text ''bad'', Text ''ok''], pl_sent = cs, pl_trims = {}\<rparr>"

abbreviation sample_step :: "mem pipeline \<Rightarrow> mem pipeline \<Rightarrow> bool" where
  "sample_step \<equiv> pl_step sample_rt mem_api mem_items mem_entries one_daemon 2 False"

abbreviation one_entry :: "string \<Rightarrow> entry list" where
  "one_entry \<equiv> (\<lambda>key. [])(stream_key ''d'' LOG := [(SID 1100000000001 0, [(''data'', ''ok'')])])"

lemma sample_xadds: "batch_xadds sample_rt [Text ''ok'', Text ''bad''] = [(stream_key ''d'' LOG, ''ok'')]"
  by (simp add: batch_xadds_def map_filter_Cons item_xadd_def validate_json_def dump_json_def one_record_runtime_def
      sample_log_def List.map_filter_def)

lemma sample_sweep: "sweep one_daemon 1100700000000 = [(''d'', LOG, 1100095200000), (''d'', METRIC, 1100095200000)]"
  by (simp add: sweep_def one_daemon_def daemon_defaults_def default_settings_def retention_defaults_def MS_PER_DAY_def
      effective_metrics_retention_days_def)

lemma sample_ingested:
  "sample_step\<^sup>*\<^sup>* (pl_start mem_items sample_mem) (sample_pipe [Text ''ok''] one_entry CWait TrSleep {(stream_key ''d'' LOG, ''ok'')})"
proof -
  let ?p0 = "sample_pipe [Text ''ok'', Text ''bad'', Text ''ok''] (\<lambda>key. []) CWait TrSleep {}"
  let ?p1 = "sample_pipe [Text ''bad'', Text ''ok''] (\<lambda>key. []) (CPopped (Text ''ok'')) TrSleep {}"
  let ?p2 = "sample_pipe [Text ''ok''] (\<lambda>key. []) (CSend [(stream_key ''d'' LOG, ''ok'')] None) TrSleep {(stream_key ''d'' LOG, ''ok'')}"
  let ?p3 = "sample_pipe [Text ''ok''] one_entry (CSend [] None) TrSleep {(stream_key ''d'' LOG, ''ok'')}"
  have "sample_step ?p0 ?p1"
    using pl_woken [where p = ?p0 and api = mem_api and x = "Text ''ok''" and s' = "pl_redis ?p1"]
    by (simp add: mem_api_def)
  moreover have "sample_step ?p1 ?p2"
    using pl_drained [where p = ?p1 and api = mem_api and x = "Text ''ok''" and rest = "[Text ''bad'']" and b = 2
        and s' = "pl_redis ?p2" and rt = sample_rt]
    by (simp add: mem_api_def sample_xadds)
  moreover have "sample_step ?p2 ?p3"
    using pl_sent [where p = ?p2 and api = mem_api and s' = "pl_redis ?p3"]
    by (simp add: mem_api_def mem_xadd_def fresh_id_def)
  moreover have "sample_step ?p3 (sample_pipe [Text ''ok''] one_entry CWait TrSleep {(stream_key ''d'' LOG, ''ok'')})"
    using pl_executed [where p = ?p3] by simp
  moreover have "pl_start mem_items sample_mem = ?p0" by (simp add: pl_start_def sample_mem_def)
  ultimately show ?thesis by (auto intro: rtranclp.intros)
qed

lemma sample_trimmed: "sample_step\<^sup>*\<^sup>* (pl_start mem_items sample_mem) sample_end"
proof -
  let ?p0 = "sample_pipe [Text ''ok''] one_entry CWait TrSleep {(stream_key ''d'' LOG, ''ok'')}"
  let ?p1 = "sample_pipe [Text ''ok''] one_entry CWait (TrSweep [(''d'', LOG, 1100095200000), (''d'', METRIC, 1100095200000)]) {(stream_key ''d'' LOG, ''ok'')}"
  have "now_ms (round_ratio 1100700000 1) = Inr 1100700000000" by code_simp
  then have "sample_step ?p0 ?p1"
    using pl_sweep_begins [where p = ?p0 and st = one_daemon and t = "round_ratio 1100700000 1" and n = 1100700000000] by (simp add: sample_sweep)
  moreover have "sample_step ?p1 sample_end"
    using pl_trimmed [where p = ?p1 and api = mem_api and s' = "pl_redis sample_end"]
    by (simp add: mem_api_def sample_end_def trimmed_below_def not_before_def)
  ultimately show ?thesis using sample_ingested by (auto intro: rtranclp.rtrancl_into_rtrancl)
qed

theorem streams_hold_their_own_records_witness:
  "good_stream sample_rt ''d'' LOG [(SID 1100000000001 0, [(''data'', ''ok'')])]"
  using streams_hold_their_own_records [OF mem_api_ok sample_adapter _ sample_ingested, of "''d''" LOG]
  by (simp add: sample_mem_def)

theorem nothing_lost_on_the_way_witness:
  "\<exists>e. expired {(''d'', LOG, 1100095200000)} ''d'' LOG e \<and> entry_data e = ''ok''"
proof -
  have v: "valid_records sample_rt [Text ''ok'', Text ''bad'', Text ''ok''] = [sample_log ''d'' 1, sample_log ''d'' 1]"
    by (simp add: valid_records_def map_filter_Cons one_record_runtime_def List.map_filter_def)
  have e: "\<forall>h k. mem_entries sample_mem (stream_key h k) = []" by (simp add: sample_mem_def)
  have w: "on_the_way sample_rt mem_items (stream_key ''d'' LOG) sample_end = [''ok'']"
    by (simp add: on_the_way_def sample_end_def batch_xadds_def map_filter_Cons item_xadd_def validate_json_def dump_json_def
        one_record_runtime_def sample_log_def List.map_filter_def added_def)
  have p: "pl_trims sample_end = {(''d'', LOG, 1100095200000)}" "pl_pushed sample_end = [Text ''ok'', Text ''bad'', Text ''ok'']"
    "mem_entries (pl_redis sample_end) (stream_key ''d'' LOG) = []" by (simp_all add: sample_end_def)
  have f: "map (dump_json sample_rt) (filter (\<lambda>r. rec_docker_host r = ''d'' \<and> rec_kind r = LOG)
      [sample_log ''d'' 1, sample_log ''d'' 1]) = [''ok'', ''ok'']"
    by (simp add: sample_log_def dump_json_def one_record_runtime_def)
  obtain gone where "\<forall>e\<in>set gone. expired {(''d'', LOG, 1100095200000)} ''d'' LOG e"
    "[''ok'', ''ok''] = map entry_data gone @ map entry_data [] @ [''ok'']"
    using nothing_lost_on_the_way [OF mem_api_ok sample_adapter e sample_trimmed, of "''d''" LOG] unfolding p w v f by blast
  then show ?thesis by (cases gone) auto
qed

end
