(* ===== verification/Ingest_Turns.thy ===== *)
theory Ingest_Turns
  imports Ingest_Pipeline
begin

text \<open>
  The loops of \<^verbatim>\<open>ingest/consumer.py\<close> and \<^verbatim>\<open>ingest/trimmer.py\<close> as they are written (theories
  \<open>Ingest_Consumer\<close> and \<open>Retention_Trimmer\<close>) against the steps of \<open>Ingest_Pipeline\<close>: a turn of the
  consumer and a sweep of the trimmer, each without a pause, are runs of the step relation.
\<close>

section \<open>The turns of the two loops as runs\<close>

text \<open>
  A pipeline without \<open>MULTI\<close> sends its commands in order, goes on after a failed one and raises
  the first error at the end.
\<close>

fun send_all :: "'r redis_api \<Rightarrow> (string \<times> string) list \<Rightarrow> py_error option \<Rightarrow> 'r \<Rightarrow> unit result \<times> 'r" where
  "send_all api [] err s = (case err of None \<Rightarrow> Inr () | Some e \<Rightarrow> Inl e, s)"
| "send_all api ((key, d) # cs) err s =
     (case ra_xadd api s key d of
        (Inr u, s') \<Rightarrow> send_all api cs err s'
      | (Inl e, s') \<Rightarrow> send_all api cs (case err of None \<Rightarrow> Some e | Some e0 \<Rightarrow> Some e0) s')"

fun consumer_after :: "unit result \<Rightarrow> consumer_pc" where
  "consumer_after (Inr u) = CWait"
| "consumer_after (Inl e) = consumer_caught e"

lemma send_all_run:
  "pl_consumer p = CSend cs err \<Longrightarrow> send_all api cs err (pl_redis p) = (res, s') \<Longrightarrow>
   pl_steps rt api items entries st b True p (p\<lparr>pl_redis := s', pl_consumer := consumer_after res\<rparr>)"
proof (induction cs arbitrary: err p)
  case Nil
  show ?case
  proof (cases err)
    case None
    then have "pl_step rt api items entries st b True p (p\<lparr>pl_consumer := CWait\<rparr>)"
      using Nil.prems(1) by (simp add: pl_executed)
    then show ?thesis using Nil.prems(2) None by auto
  next
    case (Some e)
    then have "pl_step rt api items entries st b True p (p\<lparr>pl_consumer := consumer_caught e\<rparr>)"
      using Nil.prems(1) by (simp add: pl_executed_error)
    then show ?thesis using Nil.prems(2) Some by auto
  qed
next
  case (Cons c cs)
  obtain key d where c: "c = (key, d)" by (cases c)
  obtain r s1 where x: "ra_xadd api (pl_redis p) key d = (r, s1)" by (cases "ra_xadd api (pl_redis p) key d")
  let ?err = "case r of Inr u \<Rightarrow> err | Inl e \<Rightarrow> (case err of None \<Rightarrow> Some e | Some e0 \<Rightarrow> Some e0)"
  let ?p = "p\<lparr>pl_redis := s1, pl_consumer := CSend cs ?err\<rparr>"
  have "pl_step rt api items entries st b True p ?p"
    using Cons.prems(1) x unfolding c by (cases r) (auto intro: pl_sent pl_send_failed)
  moreover have "pl_steps rt api items entries st b True ?p (?p\<lparr>pl_redis := s', pl_consumer := consumer_after res\<rparr>)"
    using Cons.prems(2) x unfolding c by (intro Cons.IH [where err = ?err]) (simp, cases r, simp_all)
  ultimately show ?case by (auto intro: converse_rtranclp_into_rtranclp)
qed

lemma consume_once_cases:
  assumes "consume_once rt rc b s = (res, s')"
  obtains (popped) e where "rc_blpop rc s INGEST_LIST = (Inl e, s')" "res = Inl e"
  | (none) "rc_blpop rc s INGEST_LIST = (Inr None, s')" "res = Inr ()"
  | (drain) x s1 e where "rc_blpop rc s INGEST_LIST = (Inr (Some x), s1)" "1 < b"
      "rc_lpop rc s1 INGEST_LIST (b - 1) = (Inl e, s')" "res = Inl e"
  | (batch) x s1 rest s2 where "rc_blpop rc s INGEST_LIST = (Inr (Some x), s1)" "1 < b"
      "rc_lpop rc s1 INGEST_LIST (b - 1) = (Inr rest, s2)" "ingest_batch rt rc (x # rest) s2 = (res, s')"
  | (one) x s1 where "rc_blpop rc s INGEST_LIST = (Inr (Some x), s1)" "\<not> 1 < b"
      "ingest_batch rt rc [x] s1 = (res, s')"
  using assms unfolding consume_once_def
  by (auto split: prod.splits sum.splits option.splits if_splits)

lemma ingest_batch_run:
  assumes "\<And>s cmds. rc_xadds api s cmds = send_all api cmds None s"
    and "ingest_batch rt (redis_client.truncate api) batch s = (res, s')"
    and "pl_consumer p = CSend (batch_xadds rt batch) None" and "pl_redis p = s"
  shows "pl_steps rt api items entries st b True p (p\<lparr>pl_redis := s', pl_consumer := consumer_after res\<rparr>)"
proof (rule send_all_run [OF assms(3)])
  show "send_all api (batch_xadds rt batch) None (pl_redis p) = (res, s')"
    using assms(1,2,4) by (auto simp: ingest_batch_def redis_client.truncate_def split: if_splits)
qed

lemma consumer_turn_run:
  assumes "\<And>s cmds. rc_xadds api s cmds = send_all api cmds None s"
    and "pl_consumer p = CWait" and "consume_once rt (redis_client.truncate api) b (pl_redis p) = (res, s')"
  shows "\<exists>S. pl_steps rt api items entries st b True p (p\<lparr>pl_redis := s', pl_consumer := consumer_after res, pl_sent := S\<rparr>)"
  using assms(3)
proof (cases rule: consume_once_cases)
  case (popped e)
  then have "pl_step rt api items entries st b True p (p\<lparr>pl_redis := s', pl_consumer := consumer_caught e\<rparr>)"
    using assms(2) by (intro pl_pop_failed) (simp_all add: redis_client.truncate_def)
  moreover have "p\<lparr>pl_redis := s', pl_consumer := consumer_caught e\<rparr> =
      p\<lparr>pl_redis := s', pl_consumer := consumer_after res, pl_sent := pl_sent p\<rparr>"
    using popped by (cases p) simp
  ultimately show ?thesis by (intro exI [of _ "pl_sent p"]) simp
next
  case none
  then have "pl_step rt api items entries st b True p (p\<lparr>pl_redis := s'\<rparr>)"
    using assms(2) by (intro pl_idle) (simp_all add: redis_client.truncate_def)
  moreover have "p\<lparr>pl_redis := s'\<rparr> = p\<lparr>pl_redis := s', pl_consumer := consumer_after res, pl_sent := pl_sent p\<rparr>"
    using none assms(2) by (cases p) simp
  ultimately show ?thesis by (intro exI [of _ "pl_sent p"]) simp
next
  case (drain x s1 e)
  let ?p = "p\<lparr>pl_redis := s1, pl_consumer := CPopped x\<rparr>"
  have "pl_step rt api items entries st b True p ?p"
    using drain assms(2) by (intro pl_woken) (simp_all add: redis_client.truncate_def)
  moreover have "pl_step rt api items entries st b True ?p (?p\<lparr>pl_redis := s', pl_consumer := consumer_caught e\<rparr>)"
    using drain by (intro pl_drain_failed) (simp_all add: redis_client.truncate_def)
  moreover have "?p\<lparr>pl_redis := s', pl_consumer := consumer_caught e\<rparr> =
      p\<lparr>pl_redis := s', pl_consumer := consumer_after res, pl_sent := pl_sent p\<rparr>"
    using drain by (cases p) simp
  ultimately show ?thesis by (intro exI [of _ "pl_sent p"]) (simp add: converse_rtranclp_into_rtranclp)
next
  case (batch x s1 rest s2)
  let ?p = "p\<lparr>pl_redis := s1, pl_consumer := CPopped x\<rparr>"
  let ?cs = "batch_xadds rt (x # rest)"
  let ?q = "?p\<lparr>pl_redis := s2, pl_consumer := CSend ?cs None, pl_sent := pl_sent p \<union> set ?cs\<rparr>"
  have 1: "pl_step rt api items entries st b True p ?p"
    using batch assms(2) by (intro pl_woken) (simp_all add: redis_client.truncate_def)
  have 2: "pl_step rt api items entries st b True ?p ?q"
    using batch pl_drained [of ?p x b api rest s2 rt items entries st True] by (simp add: redis_client.truncate_def)
  have 3: "pl_steps rt api items entries st b True ?q (?q\<lparr>pl_redis := s', pl_consumer := consumer_after res\<rparr>)"
    by (rule ingest_batch_run [OF assms(1) batch(4)]) simp_all
  have eq: "?q\<lparr>pl_redis := s', pl_consumer := consumer_after res\<rparr> =
      p\<lparr>pl_redis := s', pl_consumer := consumer_after res, pl_sent := pl_sent p \<union> set ?cs\<rparr>"
    by (cases p) simp
  show ?thesis
    by (rule exI, rule converse_rtranclp_into_rtranclp [OF 1 converse_rtranclp_into_rtranclp [OF 2 3 [unfolded eq]]])
next
  case (one x s1)
  let ?p = "p\<lparr>pl_redis := s1, pl_consumer := CPopped x\<rparr>"
  let ?cs = "batch_xadds rt [x]"
  let ?q = "?p\<lparr>pl_consumer := CSend ?cs None, pl_sent := pl_sent p \<union> set ?cs\<rparr>"
  have 1: "pl_step rt api items entries st b True p ?p"
    using one assms(2) by (intro pl_woken) (simp_all add: redis_client.truncate_def)
  have 2: "pl_step rt api items entries st b True ?p ?q"
    using one pl_single [of ?p x b rt api items entries st True] by simp
  have 3: "pl_steps rt api items entries st b True ?q (?q\<lparr>pl_redis := s', pl_consumer := consumer_after res\<rparr>)"
    by (rule ingest_batch_run [OF assms(1) one(3)]) simp_all
  have eq: "?q\<lparr>pl_redis := s', pl_consumer := consumer_after res\<rparr> =
      p\<lparr>pl_redis := s', pl_consumer := consumer_after res, pl_sent := pl_sent p \<union> set ?cs\<rparr>"
    by (cases p) simp
  show ?thesis
    by (rule exI, rule converse_rtranclp_into_rtranclp [OF 1 converse_rtranclp_into_rtranclp [OF 2 3 [unfolded eq]]])
qed

text \<open>The trimmer, from the reading of its clock to the last trim.\<close>

definition trimmer_after :: "(string \<times> kind \<times> int) list \<Rightarrow> py_error option \<Rightarrow> trimmer_pc" where
  "trimmer_after w err = (case err of None \<Rightarrow> TrSweep w | Some e \<Rightarrow> TrDead e)"

lemma trim_stream_error:
  "xtrim s (stream_key h k) ms False = (Inl e, s1) \<Longrightarrow>
   trim_stream xtrim h k ms s = (if e = RedisError then None else Some e, s1)"
  by (cases e) (simp_all add: trim_stream_def)

lemma trim_stream_step:
  assumes "pl_trimmer p = TrSweep ((h, k, ms) # w)" and "trim_stream (ra_xtrim api) h k ms (pl_redis p) = (err, s')"
  shows "\<exists>T. pl_step rt api items entries st b True p
    (p\<lparr>pl_redis := s', pl_trimmer := trimmer_after w err, pl_trims := T\<rparr>)"
proof -
  obtain res s1 where x: "ra_xtrim api (pl_redis p) (stream_key h k) ms False = (res, s1)"
    by (cases "ra_xtrim api (pl_redis p) (stream_key h k) ms False")
  show ?thesis
  proof (cases res)
    case (Inl e)
    then have e: "err = (if e = RedisError then None else Some e)" "s' = s1"
      using assms(2) trim_stream_error [of "ra_xtrim api" "pl_redis p" h k ms e s1] x Inl by simp_all
    have "pl_step rt api items entries st b True p
        (p\<lparr>pl_redis := s1, pl_trimmer := (if e = RedisError then TrSweep w else TrDead e), pl_trims := insert (h, k, ms) (pl_trims p)\<rparr>)"
      using assms(1) x Inl by (intro pl_trim_failed) simp_all
    moreover have "trimmer_after w err = (if e = RedisError then TrSweep w else TrDead e)"
      unfolding e by (simp add: trimmer_after_def)
    ultimately show ?thesis unfolding e(2) by (intro exI [of _ "insert (h, k, ms) (pl_trims p)"]) simp
  next
    case (Inr u)
    then have "s1 = s'" "trimmer_after w err = TrSweep w"
      using assms(2) x by (simp_all add: trim_stream_def trimmer_after_def)
    then show ?thesis using pl_trimmed [OF assms(1), of api s' rt items entries st b True] x Inr by fastforce
  qed
qed

lemma trim_hosts_run:
  "pl_trimmer p = TrSweep (concat (map (\<lambda>h. [(h, LOG, l), (h, METRIC, m)]) hs)) \<Longrightarrow>
   trim_hosts (ra_xtrim api) l m hs (pl_redis p) = (err, s') \<Longrightarrow>
   \<exists>T. pl_steps rt api items entries st b True p
     (p\<lparr>pl_redis := s', pl_trimmer := (case err of None \<Rightarrow> TrSleep | Some e \<Rightarrow> TrDead e), pl_trims := T\<rparr>)"
proof (induction hs arbitrary: p)
  case Nil
  then have "pl_step rt api items entries st b True p (p\<lparr>pl_trimmer := TrSleep\<rparr>)" by (intro pl_swept) simp
  moreover have "p\<lparr>pl_trimmer := TrSleep\<rparr> =
      p\<lparr>pl_redis := s', pl_trimmer := (case err of None \<Rightarrow> TrSleep | Some e \<Rightarrow> TrDead e), pl_trims := pl_trims p\<rparr>"
    using Nil.prems(2) by (cases p) simp
  ultimately show ?case by (metis r_into_rtranclp)
next
  case (Cons h hs)
  let ?w = "concat (map (\<lambda>h. [(h, LOG, l), (h, METRIC, m)]) hs)"
  obtain e1 s1 where t1: "trim_stream (ra_xtrim api) h LOG l (pl_redis p) = (e1, s1)"
    by (cases "trim_stream (ra_xtrim api) h LOG l (pl_redis p)")
  have "pl_trimmer p = TrSweep ((h, LOG, l) # (h, METRIC, m) # ?w)" using Cons.prems(1) by simp
  from trim_stream_step [OF this t1, of rt items entries st b] obtain T1 where step1: "pl_step rt api items entries st b True p
      (p\<lparr>pl_redis := s1, pl_trimmer := trimmer_after ((h, METRIC, m) # ?w) e1, pl_trims := T1\<rparr>)" (is "pl_step _ _ _ _ _ _ _ _ ?p1") by blast
  then have one: "pl_steps rt api items entries st b True p ?p1" by (rule r_into_rtranclp)
  show ?case
  proof (cases e1)
    case (Some e)
    then show ?thesis using Cons.prems(2) t1 one by (auto simp: trimmer_after_def)
  next
    case None
    obtain e2 s2 where t2: "trim_stream (ra_xtrim api) h METRIC m s1 = (e2, s2)"
      by (cases "trim_stream (ra_xtrim api) h METRIC m s1")
    have "pl_trimmer ?p1 = TrSweep ((h, METRIC, m) # ?w)" "trim_stream (ra_xtrim api) h METRIC m (pl_redis ?p1) = (e2, s2)"
      using None t2 by (simp_all add: trimmer_after_def)
    from trim_stream_step [OF this, of rt items entries st b] obtain T2 where step2: "pl_step rt api items entries st b True ?p1
        (?p1\<lparr>pl_redis := s2, pl_trimmer := trimmer_after ?w e2, pl_trims := T2\<rparr>)" (is "pl_step _ _ _ _ _ _ _ _ ?p2") by blast
    have two: "pl_steps rt api items entries st b True p ?p2" using step1 step2 by (blast intro: rtranclp.intros)
    show ?thesis
    proof (cases e2)
      case (Some e)
      then show ?thesis using Cons.prems(2) t1 t2 None two by (auto simp: trimmer_after_def)
    next
      case None2: None
      have "pl_trimmer ?p2 = TrSweep ?w" "trim_hosts (ra_xtrim api) l m hs (pl_redis ?p2) = (err, s')"
        using Cons.prems(2) t1 t2 None None2 by (simp_all add: trimmer_after_def)
      from Cons.IH [OF this] two show ?thesis by (auto intro: rtranclp_trans)
    qed
  qed
qed

lemma sweep_run:
  assumes "pl_trimmer p = TrSleep" and "start_trimmer (ra_xtrim api) st [t] (pl_redis p) = (err, s')"
  shows "\<exists>T. pl_steps rt api items entries st b True p
    (p\<lparr>pl_redis := s', pl_trimmer := (case err of None \<Rightarrow> TrSleep | Some e \<Rightarrow> TrDead e), pl_trims := T\<rparr>)"
proof (cases "now_ms t")
  case (Inl e)
  then have e: "err = Some e" "s' = pl_redis p" using assms(2) by (simp_all add: start_trimmer_def trim_once_def)
  have "pl_step rt api items entries st b True p (p\<lparr>pl_trimmer := TrDead e\<rparr>)"
    using assms(1) Inl by (intro pl_clock_failed) simp_all
  moreover have "p\<lparr>pl_trimmer := TrDead e\<rparr> = p\<lparr>pl_redis := s', pl_trimmer := TrDead e, pl_trims := pl_trims p\<rparr>"
    using e by (cases p) simp
  ultimately show ?thesis unfolding e(1) option.case by (metis r_into_rtranclp)
next
  case (Inr n)
  let ?l = "n - retention_days (st_retention st) * MS_PER_DAY"
  let ?m = "n - effective_metrics_retention_days (st_retention st) * MS_PER_DAY"
  let ?p = "p\<lparr>pl_trimmer := TrSweep (sweep st n)\<rparr>"
  have h: "trim_hosts (ra_xtrim api) ?l ?m (map dc_id (st_daemons st)) (pl_redis p) = (err, s')"
    using assms(2) Inr by (auto simp: start_trimmer_def trim_once_def split: prod.splits option.splits)
  have w: "pl_trimmer ?p = TrSweep (concat (map (\<lambda>h. [(h, LOG, ?l), (h, METRIC, ?m)]) (map dc_id (st_daemons st))))"
    by (simp add: sweep_def comp_def)
  have "pl_step rt api items entries st b True p ?p" by (rule pl_sweep_begins [OF assms(1) Inr])
  moreover obtain T where "pl_steps rt api items entries st b True ?p
     (?p\<lparr>pl_redis := s', pl_trimmer := (case err of None \<Rightarrow> TrSleep | Some e \<Rightarrow> TrDead e), pl_trims := T\<rparr>)"
    using trim_hosts_run [OF w, where api = api and err = err and s' = s' and rt = rt and items = items and entries = entries
        and st = st and b = b] h by auto
  ultimately show ?thesis by (auto intro: converse_rtranclp_into_rtranclp)
qed

section \<open>Properties\<close>

text \<open>
  C38. A turn of the consumer as a whole, from the blocking pop to the last answer of the
  pipeline, is a run of these steps, and so is a sweep of the trimmer from its clock on: what
  holds under every interleaving holds of the loops as they are written.
\<close>

theorem turns_are_runs:
  assumes "\<And>s cmds. rc_xadds api s cmds = send_all api cmds None s"
  shows "(pl_consumer p = CWait \<longrightarrow> consume_once rt (redis_client.truncate api) b (pl_redis p) = (res, s') \<longrightarrow>
      (\<exists>S. pl_steps rt api items entries st b True p (p\<lparr>pl_redis := s', pl_consumer := consumer_after res, pl_sent := S\<rparr>))) \<and>
    (pl_trimmer p = TrSleep \<longrightarrow> start_trimmer (ra_xtrim api) st [t] (pl_redis p) = (err, s'') \<longrightarrow>
      (\<exists>T. pl_steps rt api items entries st b True p
        (p\<lparr>pl_redis := s'', pl_trimmer := (case err of None \<Rightarrow> TrSleep | Some e \<Rightarrow> TrDead e), pl_trims := T\<rparr>)))"
  by (intro conjI impI consumer_turn_run [OF assms] sweep_run) simp_all

lemma mem_sends: "rc_xadds mem_api s cmds = send_all mem_api cmds None s"
  by (induction cmds arbitrary: s) (auto simp: mem_api_def)

theorem turns_are_runs_witness:
  "\<exists>S. pl_steps sample_rt mem_api mem_items mem_entries one_daemon 2 True (pl_start mem_items sample_mem)
     ((pl_start mem_items sample_mem)\<lparr>pl_redis := \<lparr>mem_items = [Text ''ok''], mem_entries = one_entry\<rparr>, pl_consumer := CWait, pl_sent := S\<rparr>)"
proof -
  have "consume_once sample_rt (redis_client.truncate mem_api) 2 sample_mem =
      (Inr (), \<lparr>mem_items = [Text ''ok''], mem_entries = one_entry\<rparr>)"
    by (simp add: consume_once_def redis_client.truncate_def mem_api_def sample_mem_def ingest_batch_def sample_xadds
        mem_xadd_def fresh_id_def)
  then show ?thesis
    using turns_are_runs [OF mem_sends, where p = "pl_start mem_items sample_mem" and rt = sample_rt and b = 2
        and items = mem_items and entries = mem_entries and st = one_daemon and res = "Inr ()"
        and s' = "\<lparr>mem_items = [Text ''ok''], mem_entries = one_entry\<rparr>"]
    by (simp add: pl_start_def)
qed

end
