(* ===== verification/Ingest_Recovery.thy ===== *)
theory Ingest_Recovery
  imports Ingest_Pipeline
begin

text \<open>
  What the consumer of theory \<open>Ingest_Pipeline\<close> can still do after failures: as long as every
  failed call raised a Redis error it is alive in every reachable state, and from any moment at
  which Redis serves its calls again it can bring all that is on the way to the streams.
\<close>

definition only_redis_errors :: "'r redis_api \<Rightarrow> bool" where
  "only_redis_errors api \<longleftrightarrow>
     (\<forall>s s' e. rc_blpop api s INGEST_LIST = (Inl e, s') \<longrightarrow> e = RedisError) \<and>
     (\<forall>s s' n e. rc_lpop api s INGEST_LIST n = (Inl e, s') \<longrightarrow> e = RedisError) \<and>
     (\<forall>s s' key d e. ra_xadd api s key d = (Inl e, s') \<longrightarrow> e = RedisError)"

text \<open>A set of states from which the consumer's calls succeed and lead back into the set.\<close>

definition serving :: "'r redis_api \<Rightarrow> ('r \<Rightarrow> raw_item list) \<Rightarrow> 'r set \<Rightarrow> bool" where
  "serving api items U \<longleftrightarrow>
     (\<forall>s\<in>U. items s \<noteq> [] \<longrightarrow> (\<exists>x. \<exists>s'\<in>U. rc_blpop api s INGEST_LIST = (Inr (Some x), s'))) \<and>
     (\<forall>s\<in>U. \<forall>n>0. \<exists>xs. \<exists>s'\<in>U. rc_lpop api s INGEST_LIST n = (Inr xs, s')) \<and>
     (\<forall>s\<in>U. \<forall>key d. \<exists>s'\<in>U. ra_xadd api s key d = (Inr (), s'))"

fun alive :: "consumer_pc \<Rightarrow> bool" where
  "alive (CDead e) = False"
| "alive (CSend cs err) = (err = None \<or> err = Some RedisError)"
| "alive pc = True"

lemma alive_step:
  assumes "pl_step rt api items entries st b faulty p p'" and ok: "only_redis_errors api" and "alive (pl_consumer p)"
  shows "alive (pl_consumer p')"
  using assms(1)
proof (cases rule: pl_step_cases)
  case (pop_failed e s')
  then have "e = RedisError" using ok unfolding only_redis_errors_def by blast
  then show ?thesis using pop_failed by (simp add: consumer_caught_def)
next
  case (drain_failed x e s')
  then have "e = RedisError" using ok unfolding only_redis_errors_def by blast
  then show ?thesis using drain_failed by (simp add: consumer_caught_def)
next
  case (send_failed key d cs err e s')
  then have "e = RedisError" using ok unfolding only_redis_errors_def by blast
  then show ?thesis using send_failed assms(3) by auto
qed (use assms(3) in \<open>auto simp: consumer_caught_def\<close>)

lemma alive_steps:
  "pl_steps rt api items entries st b faulty (pl_start items s) p \<Longrightarrow> only_redis_errors api \<Longrightarrow> alive (pl_consumer p)"
  by (induction rule: rtranclp_induct) (simp add: pl_start_def, blast intro: alive_step)

section \<open>Bringing in what is on the way\<close>

text \<open>What a stretch of steps has brought to the streams, and that it ends with an idle consumer.\<close>

definition delivered :: "('r \<Rightarrow> string \<Rightarrow> entry list) \<Rightarrow> 'r \<Rightarrow> 'r \<Rightarrow> (string \<times> string) list \<Rightarrow> bool" where
  "delivered entries s s' cmds \<longleftrightarrow>
     (\<forall>key. map entry_data (entries s' key) = map entry_data (entries s key) @ added key cmds)"

lemma delivered_Nil: "entries s' = entries s \<Longrightarrow> delivered entries s s' []"
  by (simp add: delivered_def)

lemma delivered_trans: "delivered entries s s1 xs \<Longrightarrow> delivered entries s1 s2 ys \<Longrightarrow> delivered entries s s2 (xs @ ys)"
  by (simp add: delivered_def)

lemma delivered_appended: "appended key d (entries s) (entries s') \<Longrightarrow> delivered entries s s' [(key, d)]"
  using appended_data unfolding delivered_def by blast

lemma send_delivers:
  assumes redis: "redis_ok api items entries" and up: "serving api items U"
  shows "pl_consumer p = CSend cs err \<Longrightarrow> alive (CSend cs err) \<Longrightarrow> pl_redis p \<in> U \<Longrightarrow>
    \<exists>p'. pl_steps rt api items entries st b True p p' \<and> pl_consumer p' = CWait \<and> pl_redis p' \<in> U \<and>
      items (pl_redis p') = items (pl_redis p) \<and> delivered entries (pl_redis p) (pl_redis p') cs"
proof (induction cs arbitrary: p)
  case Nil
  have "pl_step rt api items entries st b True p (p\<lparr>pl_consumer := CWait\<rparr>)"
  proof (cases err)
    case None
    then show ?thesis using Nil.prems(1) by (intro pl_executed) simp
  next
    case (Some e)
    then have "pl_consumer p = CSend [] (Some RedisError)" using Nil.prems(1,2) by simp
    from pl_executed_error [OF TrueI this] show ?thesis by (simp add: consumer_caught_def)
  qed
  then show ?case using Nil.prems(3) by (intro exI [of _ "p\<lparr>pl_consumer := CWait\<rparr>"]) (simp add: r_into_rtranclp delivered_Nil)
next
  case (Cons c cs)
  obtain key d where c: "c = (key, d)" by (cases c)
  obtain s1 where s1: "s1 \<in> U" "ra_xadd api (pl_redis p) key d = (Inr (), s1)"
    using up Cons.prems(3) unfolding serving_def by blast
  let ?p = "p\<lparr>pl_redis := s1, pl_consumer := CSend cs err\<rparr>"
  have step: "pl_step rt api items entries st b True p ?p"
    using Cons.prems(1) s1(2) unfolding c by (intro pl_sent)
  have "delivered entries (pl_redis p) s1 [c]"
    unfolding c by (rule delivered_appended [OF redis_okD(8) [OF redis s1(2)]])
  moreover have "alive (CSend cs err)" using Cons.prems(2) by simp
  then obtain p' where p': "pl_steps rt api items entries st b True ?p p'" "pl_consumer p' = CWait" "pl_redis p' \<in> U"
    "items (pl_redis p') = items s1" "delivered entries s1 (pl_redis p') cs"
    using Cons.IH [of ?p] s1(1) by auto
  ultimately have "delivered entries (pl_redis p) (pl_redis p') ([c] @ cs)" by (blast intro: delivered_trans)
  moreover have "pl_steps rt api items entries st b True p p'" using step p'(1) by (rule converse_rtranclp_into_rtranclp)
  ultimately show ?case using p' redis_okD(6) [OF redis s1(2)] by (intro exI [of _ p']) simp
qed

lemma popped_delivers:
  assumes redis: "redis_ok api items entries" and up: "serving api items U"
    and "pl_consumer p = CPopped x" and "pl_redis p \<in> U"
  shows "\<exists>p' xs. pl_steps rt api items entries st b True p p' \<and> pl_consumer p' = CWait \<and> pl_redis p' \<in> U \<and>
      items (pl_redis p) = xs @ items (pl_redis p') \<and> delivered entries (pl_redis p) (pl_redis p') (batch_xadds rt (x # xs))"
proof (cases "1 < b")
  case True
  then obtain xs s1 where s1: "s1 \<in> U" "rc_lpop api (pl_redis p) INGEST_LIST (b - 1) = (Inr xs, s1)"
    using up assms(4) unfolding serving_def by (metis diff_gt_0_iff_gt)
  let ?p = "p\<lparr>pl_redis := s1, pl_consumer := CSend (batch_xadds rt (x # xs)) None,
      pl_sent := pl_sent p \<union> set (batch_xadds rt (x # xs))\<rparr>"
  have step: "pl_step rt api items entries st b True p ?p" by (rule pl_drained [OF assms(3) True s1(2)])
  obtain p' where p': "pl_steps rt api items entries st b True ?p p'" "pl_consumer p' = CWait" "pl_redis p' \<in> U"
    "items (pl_redis p') = items s1" "delivered entries s1 (pl_redis p') (batch_xadds rt (x # xs))"
    using send_delivers [OF redis up, where rt = rt and st = st and b = b and p = ?p and cs = "batch_xadds rt (x # xs)" and err = None] s1(1) by auto
  have r: "entries s1 = entries (pl_redis p)" "items (pl_redis p) = xs @ items s1"
    using redis_okD(4,5) [OF redis _ s1(2)] True by simp_all
  have "delivered entries (pl_redis p) (pl_redis p') (batch_xadds rt (x # xs))"
    using delivered_trans [OF delivered_Nil [OF r(1)] p'(5)] by simp
  moreover have "pl_steps rt api items entries st b True p p'" using step p'(1) by (rule converse_rtranclp_into_rtranclp)
  ultimately show ?thesis using p' r by (intro exI [of _ p'] exI [of _ xs]) simp
next
  case False
  let ?p = "p\<lparr>pl_consumer := CSend (batch_xadds rt [x]) None, pl_sent := pl_sent p \<union> set (batch_xadds rt [x])\<rparr>"
  have step: "pl_step rt api items entries st b True p ?p" by (rule pl_single [OF assms(3) False])
  obtain p' where p': "pl_steps rt api items entries st b True ?p p'" "pl_consumer p' = CWait" "pl_redis p' \<in> U"
    "items (pl_redis p') = items (pl_redis p)" "delivered entries (pl_redis p) (pl_redis p') (batch_xadds rt [x])"
    using send_delivers [OF redis up, where rt = rt and st = st and b = b and p = ?p and cs = "batch_xadds rt [x]" and err = None] assms(4) by auto
  moreover have "pl_steps rt api items entries st b True p p'" using step p'(1) by (rule converse_rtranclp_into_rtranclp)
  ultimately show ?thesis by (intro exI [of _ p'] exI [of _ "[]"]) simp
qed

lemma waiting_delivers:
  assumes redis: "redis_ok api items entries" and up: "serving api items U"
  shows "pl_consumer p = CWait \<Longrightarrow> pl_redis p \<in> U \<Longrightarrow>
    \<exists>p'. pl_steps rt api items entries st b True p p' \<and> pl_consumer p' = CWait \<and> items (pl_redis p') = [] \<and>
      delivered entries (pl_redis p) (pl_redis p') (batch_xadds rt (items (pl_redis p)))"
proof (induction "length (items (pl_redis p))" arbitrary: p rule: less_induct)
  case less
  show ?case
  proof (cases "items (pl_redis p) = []")
    case True
    then show ?thesis using less.prems by (intro exI [of _ p]) (simp add: delivered_Nil)
  next
    case False
    then obtain x s1 where s1: "s1 \<in> U" "rc_blpop api (pl_redis p) INGEST_LIST = (Inr (Some x), s1)"
      using up less.prems(2) unfolding serving_def by metis
    let ?p = "p\<lparr>pl_redis := s1, pl_consumer := CPopped x\<rparr>"
    have step: "pl_step rt api items entries st b True p ?p" by (rule pl_woken [OF less.prems(1) s1(2)])
    note r = redis_okD(1,2) [OF redis s1(2)]
    obtain p1 xs where p1: "pl_steps rt api items entries st b True ?p p1" "pl_consumer p1 = CWait" "pl_redis p1 \<in> U"
      "items s1 = xs @ items (pl_redis p1)" "delivered entries s1 (pl_redis p1) (batch_xadds rt (x # xs))"
      using popped_delivers [OF redis up, where rt = rt and st = st and b = b and p = ?p and x = x] s1(1) by auto
    have i: "items (pl_redis p) = (x # xs) @ items (pl_redis p1)" using r(2) p1(4) by simp
    have "length (items (pl_redis p1)) < length (items (pl_redis p))" unfolding i by simp
    from less.hyps [OF this p1(2,3)] obtain p' where p': "pl_steps rt api items entries st b True p1 p'" "pl_consumer p' = CWait"
      "items (pl_redis p') = []" "delivered entries (pl_redis p1) (pl_redis p') (batch_xadds rt (items (pl_redis p1)))" by blast
    have "delivered entries (pl_redis p) (pl_redis p') ([] @ batch_xadds rt (x # xs) @ batch_xadds rt (items (pl_redis p1)))"
      by (rule delivered_trans [OF delivered_Nil [OF r(1)] delivered_trans [OF p1(5) p'(4)]])
    then have "delivered entries (pl_redis p) (pl_redis p') (batch_xadds rt (items (pl_redis p)))"
      unfolding i batch_xadds_append by simp
    moreover have "pl_steps rt api items entries st b True p p'"
      using step p1(1) p'(1) by (meson converse_rtranclp_into_rtranclp rtranclp_trans)
    ultimately show ?thesis using p' by blast
  qed
qed

lemma alive_delivers:
  assumes redis: "redis_ok api items entries" and up: "serving api items U"
    and "alive (pl_consumer p)" and "pl_redis p \<in> U"
  shows "\<exists>p'. pl_steps rt api items entries st b True p p' \<and> pl_consumer p' = CWait \<and> items (pl_redis p') = [] \<and>
      delivered entries (pl_redis p) (pl_redis p') (in_hand rt (pl_consumer p) @ batch_xadds rt (items (pl_redis p)))"
proof -
  have "\<exists>p1 xs. pl_steps rt api items entries st b True p p1 \<and> pl_consumer p1 = CWait \<and> pl_redis p1 \<in> U \<and>
      items (pl_redis p) = xs @ items (pl_redis p1) \<and>
      delivered entries (pl_redis p) (pl_redis p1) (in_hand rt (pl_consumer p) @ batch_xadds rt xs)"
  proof (cases "pl_consumer p")
    case CWait
    then show ?thesis using assms(4) by (intro exI [of _ p] exI [of _ "[]"]) (simp add: delivered_Nil)
  next
    case (CPopped x)
    then show ?thesis using popped_delivers [OF redis up CPopped assms(4)]
      unfolding CPopped in_hand.simps batch_xadds_append [symmetric] append_Cons append_Nil by blast
  next
    case (CSend cs err)
    then show ?thesis using send_delivers [OF redis up CSend _ assms(4)] assms(3) unfolding CSend in_hand.simps
      by (metis append.left_neutral append.right_neutral batch_xadds_Nil)
  qed (use assms(3) in simp)
  then obtain p1 xs where p1: "pl_steps rt api items entries st b True p p1" "pl_consumer p1 = CWait" "pl_redis p1 \<in> U"
    "items (pl_redis p) = xs @ items (pl_redis p1)"
    "delivered entries (pl_redis p) (pl_redis p1) (in_hand rt (pl_consumer p) @ batch_xadds rt xs)" by blast
  from waiting_delivers [OF redis up p1(2,3)] obtain p' where p': "pl_steps rt api items entries st b True p1 p'"
    "pl_consumer p' = CWait" "items (pl_redis p') = []"
    "delivered entries (pl_redis p1) (pl_redis p') (batch_xadds rt (items (pl_redis p1)))" by blast
  have "delivered entries (pl_redis p) (pl_redis p') (in_hand rt (pl_consumer p) @ batch_xadds rt (items (pl_redis p)))"
    using delivered_trans [OF p1(5) p'(4)] unfolding p1(4) batch_xadds_append by simp
  then show ?thesis using p' p1(1) by (blast intro: rtranclp_trans)
qed

section \<open>Properties\<close>

text \<open>
  C17. Failures never stop the consumer for good: when every failed call raised a Redis error,
  then from every reachable state in which Redis serves its calls again the consumer can go on
  to an empty list and an idle turn, with exactly what it held and what was in the list added
  to the streams, in order.
\<close>

theorem consumer_recovers:
  assumes "redis_ok api items entries" and "only_redis_errors api" and "serving api items U"
    and "pl_steps rt api items entries st b True (pl_start items s) p" and "pl_redis p \<in> U"
  shows "\<exists>p'. pl_steps rt api items entries st b True p p' \<and> pl_consumer p' = CWait \<and> items (pl_redis p') = [] \<and>
    (\<forall>h k. map entry_data (entries (pl_redis p') (stream_key h k)) =
      map entry_data (entries (pl_redis p) (stream_key h k)) @ on_the_way rt items (stream_key h k) p)"
proof -
  have "alive (pl_consumer p)" by (rule alive_steps [OF assms(4,2)])
  from alive_delivers [OF assms(1,3) this assms(5)] show ?thesis by (simp add: delivered_def on_the_way_def) blast
qed

text \<open>The sample run, its connection lost with a record in the consumer's hands.\<close>

lemma mem_serving: "serving mem_api mem_items UNIV"
  by (auto simp: serving_def mem_api_def neq_Nil_conv)

lemma mem_only_redis_errors: "only_redis_errors mem_api"
  by (auto simp: only_redis_errors_def mem_api_def split: list.splits)

lemma sample_lost:
  "pl_steps sample_rt mem_api mem_items mem_entries one_daemon 2 True (pl_start mem_items sample_mem)
     (sample_pipe [Text ''ok''] (\<lambda>key. []) CWait TrSleep {(stream_key ''d'' LOG, ''ok'')})"
proof -
  let ?step = "pl_step sample_rt mem_api mem_items mem_entries one_daemon 2 True"
  let ?p0 = "sample_pipe [Text ''ok'', Text ''bad'', Text ''ok''] (\<lambda>key. []) CWait TrSleep {}"
  let ?p1 = "sample_pipe [Text ''bad'', Text ''ok''] (\<lambda>key. []) (CPopped (Text ''ok'')) TrSleep {}"
  let ?p2 = "sample_pipe [Text ''ok''] (\<lambda>key. []) (CSend [(stream_key ''d'' LOG, ''ok'')] None) TrSleep {(stream_key ''d'' LOG, ''ok'')}"
  have "?step ?p0 ?p1"
    using pl_woken [where p = ?p0 and api = mem_api and x = "Text ''ok''" and s' = "pl_redis ?p1"]
    by (simp add: mem_api_def)
  moreover have "?step ?p1 ?p2"
    using pl_drained [where p = ?p1 and api = mem_api and x = "Text ''ok''" and rest = "[Text ''bad'']" and b = 2
        and s' = "pl_redis ?p2" and rt = sample_rt]
    by (simp add: mem_api_def sample_xadds)
  moreover have "?step ?p2 (sample_pipe [Text ''ok''] (\<lambda>key. []) CWait TrSleep {(stream_key ''d'' LOG, ''ok'')})"
    using pl_connection_lost [where p = ?p2] by (simp add: consumer_caught_def)
  moreover have "pl_start mem_items sample_mem = ?p0" by (simp add: pl_start_def sample_mem_def)
  ultimately show ?thesis by (auto intro: rtranclp.intros)
qed

theorem consumer_recovers_witness:
  "\<exists>p' :: mem pipeline. pl_consumer p' = CWait \<and> mem_items (pl_redis p') = [] \<and>
     map entry_data (mem_entries (pl_redis p') (stream_key ''d'' LOG)) = [''ok'']"
proof -
  have w: "on_the_way sample_rt mem_items (stream_key ''d'' LOG) (sample_pipe [Text ''ok''] (\<lambda>key. []) CWait TrSleep {(stream_key ''d'' LOG, ''ok'')}) = [''ok'']"
    by (simp add: on_the_way_def batch_xadds_def map_filter_Cons item_xadd_def validate_json_def dump_json_def
        one_record_runtime_def sample_log_def List.map_filter_def added_def)
  obtain p' :: "mem pipeline" where p': "pl_consumer p' = CWait" "mem_items (pl_redis p') = []"
    "\<forall>h k. map entry_data (mem_entries (pl_redis p') (stream_key h k)) =
      map entry_data (mem_entries (pl_redis (sample_pipe [Text ''ok''] (\<lambda>key. []) CWait TrSleep {(stream_key ''d'' LOG, ''ok'')})) (stream_key h k)) @
      on_the_way sample_rt mem_items (stream_key h k) (sample_pipe [Text ''ok''] (\<lambda>key. []) CWait TrSleep {(stream_key ''d'' LOG, ''ok'')})"
    using consumer_recovers [OF mem_api_ok mem_only_redis_errors mem_serving sample_lost UNIV_I] by (elim exE conjE)
  then have "map entry_data (mem_entries (pl_redis p') (stream_key ''d'' LOG)) = [''ok'']" using w by simp
  then show ?thesis using p'(1,2) by (intro exI [of _ p'] conjI)
qed

end
