(* ===== verification/Auth_Access.thy ===== *)
theory Auth_Access
  imports Config Redis_Keys
begin

text \<open>
  \<^verbatim>\<open>log_sump_common/auth.py\<close>, \<^verbatim>\<open>log_sump_server/deps.py\<close> and \<^verbatim>\<open>routers/catalog.py\<close>: who may see
  what. Redis is the function \<open>smembers\<close> from a key to the members of its set (or the error
  it raises); the SHA-256 digest is a parameter. The locale \<open>auth_backend\<close> is the
  \<open>AuthBackend\<close> protocol with what its docstring promises; the dependencies' lemmas are
  proved in it, and \<open>redis_auth\<close> interprets it on \<open>RedisApiKeyAuthBackend\<close>.
\<close>

definition permitted_daemons :: "(string \<Rightarrow> string) \<Rightarrow> (string \<Rightarrow> string set result) \<Rightarrow> string
    \<Rightarrow> string set option result" where
  "permitted_daemons hexdigest smembers api_key =
     (if api_key = [] then Inr None
      else bind_r (smembers (auth_key hexdigest api_key)) (\<lambda>members.
        Inr (if members = {} then None else Some members)))"

text \<open>The dependency: the header's key, absent or empty, an unknown key, or the permitted set.\<close>

definition get_permitted_daemons :: "(string \<Rightarrow> string set option result) \<Rightarrow> string option \<Rightarrow> string set result" where
  "get_permitted_daemons backend api_key =
     (case api_key of
        None \<Rightarrow> Inl (HTTPException 401 ''missing API key'')
      | Some k \<Rightarrow>
          if k = [] then Inl (HTTPException 401 ''missing API key'')
          else bind_r (backend k) (\<lambda>permitted.
            case permitted of
              None \<Rightarrow> Inl (HTTPException 401 ''invalid API key'')
            | Some ds \<Rightarrow> Inr ds))"

definition require_valid_api_key :: "(string \<Rightarrow> string set option result) \<Rightarrow> string option \<Rightarrow> unit result" where
  "require_valid_api_key backend api_key = bind_r (get_permitted_daemons backend api_key) (\<lambda>_. Inr ())"

definition require_daemon_access :: "string \<Rightarrow> string set \<Rightarrow> unit result" where
  "require_daemon_access host permitted =
     (if host \<notin> permitted then Inl (HTTPException 403 (''not permitted for daemon '' @ py_repr host)) else Inr ())"

record catalog_entry =
  ce_id :: string
  ce_host :: string
  ce_enabled :: bool

definition catalog_entries :: "settings \<Rightarrow> string set \<Rightarrow> catalog_entry list" where
  "catalog_entries st permitted =
     map (\<lambda>d. \<lparr>ce_id = dc_id d, ce_host = dc_host d, ce_enabled = dc_enabled d\<rparr>)
       (filter (\<lambda>d. dc_id d \<in> permitted) (st_daemons st))"

definition get_catalog :: "(string \<Rightarrow> string set option result) \<Rightarrow> settings \<Rightarrow> string option
    \<Rightarrow> catalog_entry list result" where
  "get_catalog backend st api_key =
     bind_r (get_permitted_daemons backend api_key) (\<lambda>permitted. Inr (catalog_entries st permitted))"

locale auth_backend =
  fixes permits :: "'store \<Rightarrow> string \<Rightarrow> string set option result"
  assumes no_empty_key: "permits s [] = Inr None"
    and no_empty_set: "permits s k = Inr (Some ds) \<Longrightarrow> ds \<noteq> {}"
begin

lemma granted_iff:
  "get_permitted_daemons (permits s) key = Inr ds \<longleftrightarrow> (\<exists>k. key = Some k \<and> permits s k = Inr (Some ds))"
  using no_empty_key [of s]
  by (auto simp: get_permitted_daemons_def bind_r_eq_Inr split: option.splits if_splits)

lemma granted_nonempty: "get_permitted_daemons (permits s) key = Inr ds \<Longrightarrow> ds \<noteq> {}"
  using no_empty_set by (auto simp: granted_iff)

lemma refused_401:
  "get_permitted_daemons (permits s) key = Inl e \<longleftrightarrow>
   e = HTTPException 401 ''missing API key'' \<and> (key = None \<or> key = Some []) \<or>
   (\<exists>k. key = Some k \<and> k \<noteq> [] \<and>
      (permits s k = Inl e \<or> permits s k = Inr None \<and> e = HTTPException 401 ''invalid API key''))"
  by (auto simp: get_permitted_daemons_def bind_r_eq_Inl split: option.splits if_splits)

lemma catalog_granted:
  "get_catalog (permits s) st key = Inr es \<Longrightarrow>
   \<exists>k ds. key = Some k \<and> permits s k = Inr (Some ds) \<and> es = catalog_entries st ds"
  by (auto simp: get_catalog_def bind_r_eq_Inr granted_iff)

end

interpretation redis_auth: auth_backend "permitted_daemons hexdigest" for hexdigest
  by unfold_locales (auto simp: permitted_daemons_def bind_r_eq_Inr split: if_splits)

lemma permitted_daemons_Some:
  "permitted_daemons hx smembers k = Inr (Some ds) \<longleftrightarrow> k \<noteq> [] \<and> smembers (auth_key hx k) = Inr ds \<and> ds \<noteq> {}"
  by (auto simp: permitted_daemons_def bind_r_eq_Inr split: if_splits)

lemma permitted_daemons_Inl:
  "permitted_daemons hx smembers k = Inl e \<Longrightarrow> smembers (auth_key hx k) = Inl e"
  by (auto simp: permitted_daemons_def bind_r_eq_Inl split: if_splits)

section \<open>Health\<close>

text \<open>\<^verbatim>\<open>routers/health.py\<close>: status code and body; only Redis errors are reported as 503.\<close>

definition liveness :: "int \<times> string" where
  "liveness = (200, ''ok'')"

definition readiness :: "unit result \<Rightarrow> (int \<times> string) result" where
  "readiness ping =
     (case ping of
        Inr u \<Rightarrow> Inr (200, ''ok'')
      | Inl RedisError \<Rightarrow> Inr (503, ''redis unreachable'')
      | Inl e \<Rightarrow> Inl e)"

section \<open>Properties\<close>

text \<open>
  Access is decided by the Redis set of the key's hash alone: a key is let through exactly
  when it is not empty and that set is not, with exactly its members as permitted daemons;
  every other request without a Redis error is a 401, and a permitted caller who asks for a
  daemon outside the set gets a 403.
\<close>

lemma access_decided_by_key_set:
  "(get_permitted_daemons (permitted_daemons hx smembers) key = Inr ds \<longleftrightarrow>
      (\<exists>k. key = Some k \<and> k \<noteq> [] \<and> smembers (auth_key hx k) = Inr ds \<and> ds \<noteq> {})) \<and>
   (get_permitted_daemons (permitted_daemons hx smembers) key = Inl e \<longrightarrow>
      (\<exists>m. e = HTTPException 401 m) \<or> (\<exists>k. key = Some k \<and> smembers (auth_key hx k) = Inl e)) \<and>
   (require_daemon_access h ds = Inr () \<longleftrightarrow> h \<in> ds)"
proof (intro conjI impI)
  show "get_permitted_daemons (permitted_daemons hx smembers) key = Inr ds \<longleftrightarrow>
      (\<exists>k. key = Some k \<and> k \<noteq> [] \<and> smembers (auth_key hx k) = Inr ds \<and> ds \<noteq> {})"
    by (simp only: redis_auth.granted_iff permitted_daemons_Some)
  show "require_daemon_access h ds = Inr () \<longleftrightarrow> h \<in> ds" by (simp add: require_daemon_access_def)
  assume "get_permitted_daemons (permitted_daemons hx smembers) key = Inl e"
  then show "(\<exists>m. e = HTTPException 401 m) \<or> (\<exists>k. key = Some k \<and> smembers (auth_key hx k) = Inl e)"
    unfolding redis_auth.refused_401 using permitted_daemons_Inl by blast
qed

lemma access_decided_by_key_set_example:
  "get_permitted_daemons (permitted_daemons (\<lambda>k. k) (\<lambda>key. if key = auth_key (\<lambda>k. k) ''k1'' then Inr {''d1''} else Inr {}))
     (Some ''k1'') = Inr {''d1''}"
  using access_decided_by_key_set [of "\<lambda>k. k" "\<lambda>key. if key = auth_key (\<lambda>k. k) ''k1'' then Inr {''d1''} else Inr {}"
      "Some ''k1''" "{''d1''}"]
  by simp

text \<open>
  The catalog shows a caller exactly the configured daemons its key permits, enabled or
  not, in configuration order; what the other daemons are does not influence the answer.
\<close>

lemma catalog_shows_permitted_only:
  assumes "get_catalog (permitted_daemons hx smembers) st key = Inr es"
  shows "\<exists>k ds. key = Some k \<and> smembers (auth_key hx k) = Inr ds \<and>
    map ce_id es = filter (\<lambda>i. i \<in> ds) (map dc_id (st_daemons st)) \<and>
    (\<forall>st'. filter (\<lambda>d. dc_id d \<in> ds) (st_daemons st') = filter (\<lambda>d. dc_id d \<in> ds) (st_daemons st) \<longrightarrow>
      get_catalog (permitted_daemons hx smembers) st' key = Inr es)"
proof -
  obtain k ds where k: "key = Some k" "permitted_daemons hx smembers k = Inr (Some ds)"
    and es: "es = catalog_entries st ds"
    using redis_auth.catalog_granted [OF assms] by blast
  have "get_permitted_daemons (permitted_daemons hx smembers) key = Inr ds"
    using redis_auth.granted_iff k by blast
  moreover have "map ce_id es = filter (\<lambda>i. i \<in> ds) (map dc_id (st_daemons st))"
    by (simp add: es catalog_entries_def filter_map comp_def)
  ultimately show ?thesis using k es
    by (auto simp: permitted_daemons_Some get_catalog_def catalog_entries_def)
qed

lemma catalog_shows_permitted_only_example:
  "\<exists>es. get_catalog (permitted_daemons (\<lambda>k. k) (\<lambda>key. Inr {''d2''}))
     (default_settings\<lparr>st_daemons := [daemon_defaults ''d1'' ''h1'', daemon_defaults ''d2'' ''h2'']\<rparr>) (Some ''k1'') = Inr es \<and>
     map ce_id es = [''d2'']"
proof -
  let ?b = "permitted_daemons (\<lambda>k. k) (\<lambda>key. Inr {''d2''})"
  let ?st = "default_settings\<lparr>st_daemons := [daemon_defaults ''d1'' ''h1'', daemon_defaults ''d2'' ''h2'']\<rparr>"
  obtain es where es: "get_catalog ?b ?st (Some ''k1'') = Inr es"
    by (simp add: get_catalog_def get_permitted_daemons_def permitted_daemons_def)
  from catalog_shows_permitted_only [OF es] show ?thesis
    using es by (intro exI [of _ es]) (auto simp: daemon_defaults_def)
qed

end
