(* ===== verification/Records_Router.thy ===== *)
theory Records_Router
  imports Record_Queries Auth_Access "HOL-Library.Multiset"
begin

text \<open>
  \<^verbatim>\<open>log_sump_server/routers/records.py\<close>: one request of \<open>GET /records\<close>, from the caller's key to
  the page. The two streams are read one after the other, so each read has its own Redis state.
\<close>

record records_page =
  rp_records :: "sump_record list"
  next_log_cursor :: "string option"
  next_metric_cursor :: "string option"

record records_query =
  q_host :: string
  q_kind :: string
  q_container_id :: "string option"
  q_level :: "string option"
  q_text :: "string option"
  q_start :: "datetime option"
  q_end :: "datetime option"
  q_log_cursor :: "string option"
  q_metric_cursor :: "string option"
  q_limit :: "int option"

text \<open>The parameter's pattern, and the kinds it selects.\<close>

definition kind_pattern :: "string \<Rightarrow> bool" where
  "kind_pattern k \<longleftrightarrow> k \<in> {''log'', ''metric'', ''both''}"

definition query_kinds :: "string \<Rightarrow> kind list" where
  "query_kinds k = (if k = ''both'' then [LOG, METRIC] else if k = ''log'' then [LOG] else [METRIC])"

text \<open>\<open>min(limit or default, max)\<close>: a limit of 0 is the default as well.\<close>

definition effective_limit :: "server_config \<Rightarrow> int option \<Rightarrow> int" where
  "effective_limit c limit =
     min (case limit of None \<Rightarrow> page_size_default c | Some n \<Rightarrow> if n = 0 then page_size_default c else n)
       (page_size_max c)"

definition one_hour :: int where
  "one_hour = 3600 * 1000000"

definition range_of :: "datetime \<Rightarrow> records_query \<Rightarrow> datetime \<times> datetime" where
  "range_of now q =
     (case q_start q of None \<Rightarrow> now\<lparr>dt_us := dt_us now - one_hour\<rparr> | Some d \<Rightarrow> d,
      case q_end q of None \<Rightarrow> now | Some d \<Rightarrow> d)"

text \<open>
  \<open>list.sort(key=ts)\<close> is stable. Python orders neither a naive datetime against an aware one
  nor the reverse; sorting two or more records that mix them must compare such a pair.
\<close>

definition sort_by_ts :: "sump_record list \<Rightarrow> sump_record list result" where
  "sort_by_ts rs =
     (if (\<forall>r\<in>set rs. dt_aware (rec_ts r)) \<or> (\<forall>r\<in>set rs. \<not> dt_aware (rec_ts r))
      then Inr (sort_key (\<lambda>r. dt_us (rec_ts r)) rs) else Inl TypeError)"

text \<open>The page of one kind if it was asked for.\<close>

definition page_if :: "bool \<Rightarrow> ((string \<times> sump_record) list \<times> string option) result
    \<Rightarrow> ((string \<times> sump_record) list \<times> string option) result" where
  "page_if wanted page = (if wanted then page else Inr ([], None))"

definition log_page :: "runtime \<Rightarrow> (datetime \<Rightarrow> pyfloat result) \<Rightarrow> 'r xrange \<Rightarrow> settings \<Rightarrow> datetime
    \<Rightarrow> records_query \<Rightarrow> 'r \<Rightarrow> ((string \<times> sump_record) list \<times> string option) result" where
  "log_page rt lts xrange st now q s =
     page_if (LOG \<in> set (query_kinds (q_kind q)))
       (fetch_kind_page rt lts xrange s (q_host q) LOG (fst (range_of now q)) (snd (range_of now q))
         (q_log_cursor q) (effective_limit (st_server st) (q_limit q)))"

definition metric_page :: "runtime \<Rightarrow> (datetime \<Rightarrow> pyfloat result) \<Rightarrow> 'r xrange \<Rightarrow> settings \<Rightarrow> datetime
    \<Rightarrow> records_query \<Rightarrow> 'r \<Rightarrow> ((string \<times> sump_record) list \<times> string option) result" where
  "metric_page rt lts xrange st now q s =
     page_if (METRIC \<in> set (query_kinds (q_kind q)))
       (fetch_kind_page rt lts xrange s (q_host q) METRIC (fst (range_of now q)) (snd (range_of now q))
         (q_metric_cursor q) (effective_limit (st_server st) (q_limit q)))"

definition get_records :: "runtime \<Rightarrow> (datetime \<Rightarrow> pyfloat result) \<Rightarrow> 'r xrange \<Rightarrow> settings \<Rightarrow> datetime
    \<Rightarrow> string set \<Rightarrow> records_query \<Rightarrow> 'r \<Rightarrow> 'r \<Rightarrow> records_page result" where
  "get_records rt lts xrange st now permitted q s1 s2 =
     bind_r (require_daemon_access (q_host q) permitted) (\<lambda>_.
     bind_r (log_page rt lts xrange st now q s1) (\<lambda>(logs, log_cursor).
     bind_r (metric_page rt lts xrange st now q s2) (\<lambda>(metrics, metric_cursor).
     bind_r (sort_by_ts (map snd logs @ map snd metrics)) (\<lambda>all_records.
     Inr \<lparr>rp_records = apply_filters (q_container_id q) (q_level q) (q_text q) all_records,
          next_log_cursor = log_cursor, next_metric_cursor = metric_cursor\<rparr>))))"

text \<open>The request: the key is checked first, then the parameters (422), then the handler runs.\<close>

definition records_request :: "(string \<Rightarrow> string set option result) \<Rightarrow> runtime \<Rightarrow> (datetime \<Rightarrow> pyfloat result)
    \<Rightarrow> 'r xrange \<Rightarrow> settings \<Rightarrow> datetime \<Rightarrow> string option \<Rightarrow> records_query \<Rightarrow> 'r \<Rightarrow> 'r \<Rightarrow> records_page result" where
  "records_request backend rt lts xrange st now api_key q s1 s2 =
     bind_r (get_permitted_daemons backend api_key) (\<lambda>permitted.
       if kind_pattern (q_kind q) then get_records rt lts xrange st now permitted q s1 s2
       else Inl (HTTPException 422 ''kind''))"

section \<open>Lemmas\<close>

lemma apply_filters_filter:
  "apply_filters c l t rs = filter (\<lambda>r. (c = None \<or> c = Some (rec_container_id r)) \<and>
     (case l of None \<Rightarrow> True | Some v \<Rightarrow> has_level v r) \<and>
     (case t of None \<Rightarrow> True | Some v \<Rightarrow> py_contains (py_lower v) (py_lower (message_of r)))) rs"
  by (auto simp: apply_filters_def Let_def conj_commute split: option.splits intro!: filter_cong)

lemma get_records_Inr:
  assumes "get_records rt lts xrange st now permitted q s1 s2 = Inr page"
  shows "\<exists>logs metrics all_records.
    q_host q \<in> permitted \<and>
    log_page rt lts xrange st now q s1 = Inr (logs, next_log_cursor page) \<and>
    metric_page rt lts xrange st now q s2 = Inr (metrics, next_metric_cursor page) \<and>
    sort_by_ts (map snd logs @ map snd metrics) = Inr all_records \<and>
    rp_records page = apply_filters (q_container_id q) (q_level q) (q_text q) all_records"
  using assms unfolding get_records_def require_daemon_access_def
  by (auto simp: bind_r_eq_Inr split: if_splits prod.splits)

text \<open>What a query asks of one record.\<close>

definition matches :: "records_query \<Rightarrow> sump_record \<Rightarrow> bool" where
  "matches q r \<longleftrightarrow>
     (\<forall>c. q_container_id q = Some c \<longrightarrow> rec_container_id r = c) \<and>
     (\<forall>l. q_level q = Some l \<longrightarrow> has_level l r) \<and>
     (\<forall>t. q_text q = Some t \<longrightarrow> py_contains (py_lower t) (py_lower (message_of r)))"

lemma apply_filters_matches: "apply_filters (q_container_id q) (q_level q) (q_text q) rs = filter (matches q) rs"
  unfolding apply_filters_filter matches_def
  by (cases "q_container_id q"; cases "q_level q"; cases "q_text q") (auto intro!: filter_cong)

lemma sort_by_ts_Inr: "sort_by_ts rs = Inr out \<Longrightarrow> out = sort_key (\<lambda>r. dt_us (rec_ts r)) rs"
  by (simp add: sort_by_ts_def split: if_splits)

lemma fetch_kind_page_length:
  assumes "fetch_kind_page rt lts xrange s host k start end_dt cursor limit = Inr (es, c)"
    and "\<And>s key lo hi n raws. xrange s key lo hi n = Inr raws \<Longrightarrow> int (length raws) \<le> n"
  shows "int (length es) \<le> limit"
proof -
  obtain lo hi raws where r: "xrange s (stream_key host k) lo hi limit = Inr raws"
    and es: "es = List.map_filter (page_entry rt) raws"
    using assms(1) by (auto simp: fetch_kind_page_def bind_r_eq_Inr Let_def)
  have "length es \<le> length raws" unfolding es by (rule length_map_filter_le)
  then show ?thesis using assms(2) [OF r] by linarith
qed

text \<open>A page depends on the state only through the one stream it reads.\<close>

definition reads_one_key :: "'r xrange \<Rightarrow> ('r \<Rightarrow> string \<Rightarrow> entry list) \<Rightarrow> bool" where
  "reads_one_key xrange entries \<longleftrightarrow>
     (\<forall>s s' key. entries s key = entries s' key \<longrightarrow> xrange s key = xrange s' key)"

lemma fetch_kind_page_key:
  assumes "reads_one_key xrange entries" and "entries s (stream_key host k) = entries s' (stream_key host k)"
  shows "fetch_kind_page rt lts xrange s host k = fetch_kind_page rt lts xrange s' host k"
proof -
  have "xrange s (stream_key host k) = xrange s' (stream_key host k)"
    using assms unfolding reads_one_key_def by blast
  then show ?thesis by (intro ext) (simp add: fetch_kind_page_def)
qed

lemma fun_xrange_reads: "reads_one_key fun_xrange (\<lambda>s. s)"
  by (auto simp: reads_one_key_def fun_xrange_def intro!: ext)

section \<open>Properties\<close>

text \<open>
  C23. A page is one timeline: its records are exactly the fetched records that match the
  filters, each as often as fetched, in time order, and records with the same time keep their
  order, logs before metrics and each kind in stream order. The cursors it returns are those
  of the two streams' own pages.
\<close>

theorem page_is_one_timeline:
  assumes "get_records rt lts xrange st now permitted q s1 s2 = Inr page"
  shows "\<exists>logs metrics.
    log_page rt lts xrange st now q s1 = Inr (logs, next_log_cursor page) \<and>
    metric_page rt lts xrange st now q s2 = Inr (metrics, next_metric_cursor page) \<and>
    mset (rp_records page) = filter_mset (matches q) (mset (map snd logs) + mset (map snd metrics)) \<and>
    sorted (map (\<lambda>r. dt_us (rec_ts r)) (rp_records page)) \<and>
    (\<forall>t. filter (\<lambda>r. dt_us (rec_ts r) = t) (rp_records page) =
      filter (\<lambda>r. dt_us (rec_ts r) = t \<and> matches q r) (map snd logs @ map snd metrics))"
proof -
  obtain logs metrics all_records where l: "log_page rt lts xrange st now q s1 = Inr (logs, next_log_cursor page)"
    and m: "metric_page rt lts xrange st now q s2 = Inr (metrics, next_metric_cursor page)"
    and s: "sort_by_ts (map snd logs @ map snd metrics) = Inr all_records"
    and p: "rp_records page = apply_filters (q_container_id q) (q_level q) (q_text q) all_records"
    using get_records_Inr [OF assms] by blast
  let ?key = "\<lambda>r. dt_us (rec_ts r)" and ?rs = "map snd logs @ map snd metrics"
  have pr: "rp_records page = filter (matches q) (sort_key ?key ?rs)"
    unfolding p apply_filters_matches sort_by_ts_Inr [OF s] ..
  have "filter (\<lambda>r. ?key r = t) (rp_records page) = filter (matches q) (filter (\<lambda>r. ?key r = t) (sort_key ?key ?rs))" for t
    by (simp add: pr conj_commute)
  then have st: "filter (\<lambda>r. ?key r = t) (rp_records page) = filter (\<lambda>r. ?key r = t \<and> matches q r) ?rs" for t
    unfolding sort_key_stable by (simp add: conj_commute)
  have "sorted (map ?key (sort_key ?key ?rs))" by simp
  then have "sorted (map ?key (rp_records page))" unfolding pr by (rule sorted_filter)
  moreover have "mset (rp_records page) = filter_mset (matches q) (mset (map snd logs) + mset (map snd metrics))"
    by (simp add: pr)
  ultimately show ?thesis using l m st by blast
qed

text \<open>
  A page never holds more than the configured maximum of records per kind, whatever limit
  the caller asks for.
\<close>

lemma page_size_bounded:
  assumes "get_records rt lts xrange st now permitted q s1 s2 = Inr page"
    and "\<And>s key lo hi n raws. xrange s key lo hi n = Inr raws \<Longrightarrow> int (length raws) \<le> n"
  shows "int (length (rp_records page)) \<le>
    int (length (query_kinds (q_kind q))) * page_size_max (st_server st)"
proof -
  obtain logs metrics all_records where l: "log_page rt lts xrange st now q s1 = Inr (logs, next_log_cursor page)"
    and m: "metric_page rt lts xrange st now q s2 = Inr (metrics, next_metric_cursor page)"
    and s: "sort_by_ts (map snd logs @ map snd metrics) = Inr all_records"
    and p: "rp_records page = apply_filters (q_container_id q) (q_level q) (q_text q) all_records"
    using get_records_Inr [OF assms(1)] by blast
  let ?max = "page_size_max (st_server st)"
  have lim: "effective_limit (st_server st) (q_limit q) \<le> ?max" by (simp add: effective_limit_def)
  have bl: "int (length logs) \<le> (if LOG \<in> set (query_kinds (q_kind q)) then ?max else 0)"
    using l fetch_kind_page_length [OF _ assms(2)] lim by (fastforce simp: log_page_def page_if_def split: if_splits)
  have bm: "int (length metrics) \<le> (if METRIC \<in> set (query_kinds (q_kind q)) then ?max else 0)"
    using m fetch_kind_page_length [OF _ assms(2)] lim by (fastforce simp: metric_page_def page_if_def split: if_splits)
  have "length (rp_records page) \<le> length all_records" unfolding p apply_filters_matches by (rule length_filter_le)
  also have "length all_records = length logs + length metrics" using sort_by_ts_Inr [OF s] by simp
  finally show ?thesis using bl bm by (auto simp: query_kinds_def split: if_splits)
qed

text \<open>
  A page with a naive and an aware timestamp among the fetched records is no page: the
  sort raises \<open>TypeError\<close>, and nothing else of the handler does so once both pages are there.
\<close>

lemma mixed_timestamps_raise:
  assumes "q_host q \<in> permitted"
    and "log_page rt lts xrange st now q s1 = Inr (logs, c1)"
    and "metric_page rt lts xrange st now q s2 = Inr (metrics, c2)"
  shows "get_records rt lts xrange st now permitted q s1 s2 = Inl TypeError \<longleftrightarrow>
    (\<exists>r\<in>set (map snd logs @ map snd metrics). \<exists>r'\<in>set (map snd logs @ map snd metrics).
      dt_aware (rec_ts r) \<noteq> dt_aware (rec_ts r'))"
proof -
  have "get_records rt lts xrange st now permitted q s1 s2 =
      bind_r (sort_by_ts (map snd logs @ map snd metrics)) (\<lambda>all_records.
       Inr \<lparr>rp_records = apply_filters (q_container_id q) (q_level q) (q_text q) all_records,
            next_log_cursor = c1, next_metric_cursor = c2\<rparr>)"
    using assms by (simp add: get_records_def require_daemon_access_def)
  also have "\<dots> = Inl TypeError \<longleftrightarrow> \<not> ((\<forall>r\<in>set (map snd logs @ map snd metrics). dt_aware (rec_ts r)) \<or>
      (\<forall>r\<in>set (map snd logs @ map snd metrics). \<not> dt_aware (rec_ts r)))"
    by (simp add: sort_by_ts_def)
  also have "\<dots> \<longleftrightarrow> (\<exists>r\<in>set (map snd logs @ map snd metrics). \<exists>r'\<in>set (map snd logs @ map snd metrics).
      dt_aware (rec_ts r) \<noteq> dt_aware (rec_ts r'))" by blast
  finally show ?thesis .
qed

text \<open>
  What a caller gets is about daemons its key permits and depends on nothing else: a
  request that is answered names a permitted daemon and its answer is the same whatever the
  other streams of Redis hold, and a request for another daemon is a 403, whatever the streams
  hold.
\<close>

lemma records_of_permitted_daemon_only:
  assumes "reads_one_key xrange entries" and "kind_pattern (q_kind q)"
    and "get_permitted_daemons (permitted_daemons hx smembers) api_key = Inr ds"
  shows "(q_host q \<notin> ds \<longrightarrow> (\<exists>m. \<forall>s1 s2. records_request (permitted_daemons hx smembers) rt lts xrange st now api_key q s1 s2 =
      Inl (HTTPException 403 m))) \<and>
    (\<exists>k. api_key = Some k \<and> smembers (auth_key hx k) = Inr ds) \<and>
    (\<forall>s1 s2 s1' s2'. entries s1 (stream_key (q_host q) LOG) = entries s1' (stream_key (q_host q) LOG) \<longrightarrow>
      entries s2 (stream_key (q_host q) METRIC) = entries s2' (stream_key (q_host q) METRIC) \<longrightarrow>
      records_request (permitted_daemons hx smembers) rt lts xrange st now api_key q s1 s2 =
      records_request (permitted_daemons hx smembers) rt lts xrange st now api_key q s1' s2')"
proof (intro conjI impI allI)
  assume "q_host q \<notin> ds"
  then show "\<exists>m. \<forall>s1 s2. records_request (permitted_daemons hx smembers) rt lts xrange st now api_key q s1 s2 = Inl (HTTPException 403 m)"
    using assms(2,3) by (simp add: records_request_def get_records_def require_daemon_access_def)
next
  show "\<exists>k. api_key = Some k \<and> smembers (auth_key hx k) = Inr ds"
    using assms(3) redis_auth.granted_iff permitted_daemons_Some by blast
next
  fix s1 s2 s1' s2'
  assume "entries s1 (stream_key (q_host q) LOG) = entries s1' (stream_key (q_host q) LOG)"
    "entries s2 (stream_key (q_host q) METRIC) = entries s2' (stream_key (q_host q) METRIC)"
  then have "fetch_kind_page rt lts xrange s1 (q_host q) LOG = fetch_kind_page rt lts xrange s1' (q_host q) LOG"
    "fetch_kind_page rt lts xrange s2 (q_host q) METRIC = fetch_kind_page rt lts xrange s2' (q_host q) METRIC"
    using fetch_kind_page_key [OF assms(1)] by blast+
  then show "records_request (permitted_daemons hx smembers) rt lts xrange st now api_key q s1 s2 =
      records_request (permitted_daemons hx smembers) rt lts xrange st now api_key q s1' s2'"
    unfolding records_request_def get_records_def log_page_def metric_page_def using assms(2) by simp
qed


section \<open>A concrete request\<close>

definition sample_query :: "string \<Rightarrow> records_query" where
  "sample_query h = \<lparr>q_host = h, q_kind = ''both'', q_container_id = None, q_level = Some ''info'', q_text = None,
     q_start = Some (utc 1100000000001000), q_end = Some (utc 1100000000002000),
     q_log_cursor = None, q_metric_cursor = None, q_limit = None\<rparr>"

lemma sample_query_simps [simp]:
  "q_host (sample_query h) = h" "q_kind (sample_query h) = ''both''" "q_log_cursor (sample_query h) = None"
  "q_metric_cursor (sample_query h) = None" "q_container_id (sample_query h) = None" "q_level (sample_query h) = Some ''info''"
  "q_text (sample_query h) = None"
  "range_of now (sample_query h) = (utc 1100000000001000, utc 1100000000002000)"
  "effective_limit (st_server default_settings) (q_limit (sample_query h)) = 200"
  by (simp_all add: sample_query_def range_of_def effective_limit_def default_settings_def server_defaults_def)

lemma sample_page:
  "fetch_kind_page rt lts fun_xrange sample_stream ''d'' k (utc 1100000000001000) (utc 1100000000002000) None 200 =
   Inr (if k = LOG then valid_entries rt (sample_stream (stream_key ''d'' LOG)) else [], None)"
proof -
  have w: "in_range (cursor_bound (nat (dt_us (utc 1100000000001000) div 1000)) None)
      (SID (nat (dt_us (utc 1100000000002000) div 1000)) MAX_STREAM_SEQ) (sample_stream (stream_key ''d'' LOG)) =
      sample_stream (stream_key ''d'' LOG)"
    using sample_window by (simp add: in_range_ms [OF sample_stream_ok])
  have m: "sample_stream (stream_key ''d'' METRIC) = []" by (simp add: sample_stream_def)
  have len: "length (sample_stream (stream_key ''d'' LOG)) = 3" by (simp add: sample_stream_def)
  note f = fetch_kind_page_ok [where entries = "\<lambda>s. s" and s = sample_stream and cur = None and limit = 200 and host = "''d''" and k = k,
      OF fun_xrange_ok exact_window_dates [OF sample_exact(1) _ sample_exact(2), of lts]]
  show ?thesis
  proof (cases k)
    case LOG
    then show ?thesis using f w len by (simp add: Let_def)
  next
    case METRIC
    then show ?thesis using f m by (simp add: in_range_def List.map_filter_def Let_def)
  qed
qed

lemma sample_log_page: "log_page rt lts fun_xrange default_settings now (sample_query ''d'') sample_stream =
    Inr (valid_entries rt (sample_stream (stream_key ''d'' LOG)), None)"
  by (simp add: log_page_def page_if_def query_kinds_def sample_page)

lemma sample_metric_page: "metric_page rt lts fun_xrange default_settings now (sample_query ''d'') sample_stream = Inr ([], None)"
  by (simp add: metric_page_def page_if_def query_kinds_def sample_page)

lemma sample_log_simps [simp]: "rec_ts (sample_log h n) = utc 0" "has_level l (sample_log h n) \<longleftrightarrow> l = ''info''"
  by (auto simp: sample_log_def utc_def)

lemma sample_records: "get_records sample_rt lts fun_xrange default_settings now {''d''} (sample_query ''d'') sample_stream sample_stream =
    Inr \<lparr>rp_records = [sample_log ''d'' 1, sample_log ''d'' 1], next_log_cursor = None, next_metric_cursor = None\<rparr>"
  unfolding get_records_def sample_log_page sample_metric_page bind_r_simps sample_valid
  by (simp add: require_daemon_access_def sort_by_ts_def apply_filters_def)

theorem page_is_one_timeline_witness:
  "\<exists>logs metrics. log_page sample_rt no_local_time fun_xrange default_settings (utc 1100000000002000) (sample_query ''d'') sample_stream = Inr (logs, None) \<and>
     metric_page sample_rt no_local_time fun_xrange default_settings (utc 1100000000002000) (sample_query ''d'') sample_stream = Inr (metrics, None) \<and>
     filter_mset (matches (sample_query ''d'')) (mset (map snd logs) + mset (map snd metrics)) =
       {#sample_log ''d'' 1, sample_log ''d'' 1#}"
  using page_is_one_timeline [OF sample_records, of no_local_time "utc 1100000000002000"] by auto

lemma page_size_bounded_example:
  "\<exists>page. get_records sample_rt no_local_time fun_xrange default_settings (utc 1100000000002000) {''d''} (sample_query ''d'') sample_stream sample_stream = Inr page \<and>
     int (length (rp_records page)) \<le> int (length (query_kinds ''both'')) * page_size_max (st_server default_settings)"
proof -
  have "int (length raws) \<le> n" if "fun_xrange s key lo hi n = Inr raws" for s key lo hi n raws
    using that by (auto simp: fun_xrange_def reply_def split: if_splits)
  from page_size_bounded [OF sample_records [of no_local_time "utc 1100000000002000"] this] show ?thesis by (auto simp: sample_records)
qed

definition naive_log :: sump_record where
  "naive_log = (case sample_log ''d'' 2 of LogRecord r \<Rightarrow> LogRecord (r\<lparr>ts := \<lparr>dt_us = 0, dt_aware = False\<rparr>\<rparr>)
     | MetricRecord r \<Rightarrow> MetricRecord r)"

definition mixed_runtime :: runtime where
  "mixed_runtime = sample_rt\<lparr>rt_validate_json := (\<lambda>t. Some (if t = ''bad'' then naive_log else sample_log ''d'' 1))\<rparr>"

lemma mixed_timestamps_raise_example:
  "get_records mixed_runtime no_local_time fun_xrange default_settings (utc 1100000000002000) {''d''} (sample_query ''d'') sample_stream sample_stream = Inl TypeError"
proof -
  have v: "map snd (valid_entries mixed_runtime (sample_stream (stream_key ''d'' LOG))) = [sample_log ''d'' 1, naive_log, sample_log ''d'' 1]"
    by (simp add: sample_stream_def map_filter_Cons entry_record_def page_entry_def validate_json_def mixed_runtime_def List.map_filter_def)
  have n: "dt_aware (rec_ts naive_log) \<noteq> dt_aware (rec_ts (sample_log ''d'' 1))"
    by (simp add: naive_log_def sample_log_def)
  have "q_host (sample_query ''d'') \<in> {''d''}" by simp
  from mixed_timestamps_raise [OF this sample_log_page sample_metric_page, of mixed_runtime no_local_time "utc 1100000000002000"] v n
  show ?thesis by simp
qed

lemma records_of_permitted_daemon_only_example:
  "\<exists>m. \<forall>s1 s2. records_request (permitted_daemons (\<lambda>k. k) (\<lambda>key. Inr {''e''})) sample_rt no_local_time fun_xrange default_settings (utc 1100000000002000) (Some ''k1'')
     (sample_query ''d'') s1 s2 = Inl (HTTPException 403 m)"
proof -
  have k: "kind_pattern (q_kind (sample_query ''d''))" by (simp add: kind_pattern_def)
  have g: "get_permitted_daemons (permitted_daemons (\<lambda>k. k) (\<lambda>key. Inr {''e''})) (Some ''k1'') = Inr {''e''}"
    by (simp add: get_permitted_daemons_def permitted_daemons_def)
  have h: "q_host (sample_query ''d'') \<notin> {''e''}" by simp
  show ?thesis by (rule conjunct1 [OF records_of_permitted_daemon_only [OF fun_xrange_reads k g], THEN mp, OF h])
qed

end
