(* ===== verification/Redis_Admin.thy ===== *)
theory Redis_Admin
  imports Auth_Access "HOL-Library.AList"
begin

text \<open>
  \<^verbatim>\<open>log_sump_server/redis_inspect.py\<close> and \<^verbatim>\<open>routers/admin.py\<close>: which Redis commands a caller
  may run and how replies are turned into JSON. \<open>execute_command\<close> is a parameter over an
  arbitrary server state; decoding bytes (UTF-8 with replacement) and the text of an exception
  are parameters too.
\<close>

section \<open>The allowlist\<close>

definition ALLOWED_COMMANDS :: "string list" where
  "ALLOWED_COMMANDS =
    [''GET'', ''MGET'', ''EXISTS'', ''TYPE'', ''TTL'', ''PTTL'', ''STRLEN'', ''KEYS'', ''SCAN'',
     ''DBSIZE'', ''HGET'', ''HMGET'', ''HGETALL'', ''HKEYS'', ''HVALS'', ''HLEN'', ''HEXISTS'',
     ''SMEMBERS'', ''SCARD'', ''SISMEMBER'', ''LRANGE'', ''LLEN'', ''LINDEX'', ''ZRANGE'',
     ''ZSCORE'', ''ZCARD'', ''ZRANK'', ''XRANGE'', ''XREVRANGE'', ''XLEN'', ''XINFO'', ''PING'',
     ''INFO'', ''MEMORY'']"

definition not_allowed_message :: "string \<Rightarrow> string" where
  "not_allowed_message command = ''command '' @ py_repr command @ '' is not in the read-only allowlist''"

definition check_command_allowed :: "string \<Rightarrow> string result" where
  "check_command_allowed command =
     (let normalized = py_upper (py_strip command)
      in if normalized \<notin> set ALLOWED_COMMANDS then Inl (CommandNotAllowed command) else Inr normalized)"

section \<open>Replies\<close>

datatype reply =
    Bytes string
  | Str string
  | Integer int
  | Floating pyfloat
  | Boolean bool
  | Nothing
  | ListReply "reply list"
  | TupleReply "reply list"
  | DictReply "(reply \<times> reply) list"

text \<open>A dict comprehension: a repeated key keeps its place and takes the last value.\<close>

definition dict_of :: "('k \<times> 'v) list \<Rightarrow> ('k \<times> 'v) list" where
  "dict_of kvs = fold (\<lambda>kv d. AList.update (fst kv) (snd kv) d) kvs []"

lemma size_in_dict [termination_simp]:
  assumes "kv \<in> set kvs"
  shows "size (fst kv) < Suc (size_list (size_prod size size) kvs)" "size (snd kv) < Suc (size_list (size_prod size size) kvs)"
proof -
  have "size_prod size size kv \<le> size_list (size_prod size size) kvs" by (rule size_list_estimation' [OF assms order.refl])
  then show "size (fst kv) < Suc (size_list (size_prod size size) kvs)" "size (snd kv) < Suc (size_list (size_prod size size) kvs)"
    by (cases kv; simp)+
qed

fun decode_reply :: "(string \<Rightarrow> string) \<Rightarrow> reply \<Rightarrow> reply" where
  "decode_reply dec (Bytes b) = Str (dec b)"
| "decode_reply dec (ListReply vs) = ListReply (map (\<lambda>v. decode_reply dec v) vs)"
| "decode_reply dec (TupleReply vs) = TupleReply (map (\<lambda>v. decode_reply dec v) vs)"
| "decode_reply dec (DictReply kvs) = DictReply (dict_of (map (\<lambda>kv. (decode_reply dec (fst kv), decode_reply dec (snd kv))) kvs))"
| "decode_reply dec v = v"

section \<open>The endpoint\<close>

type_synonym 'r execute = "'r \<Rightarrow> string \<Rightarrow> string list \<Rightarrow> reply result \<times> 'r"

definition run_redis_command :: "'r execute \<Rightarrow> (string \<Rightarrow> string) \<Rightarrow> string \<Rightarrow> string \<Rightarrow> string list \<Rightarrow> 'r
    \<Rightarrow> reply result \<times> 'r" where
  "run_redis_command execute dec err_text command args s =
     (case check_command_allowed command of
        Inl e \<Rightarrow> (Inl (HTTPException 403 (not_allowed_message command)), s)
      | Inr c \<Rightarrow>
          (case execute s c args of
             (Inl RedisError, s') \<Rightarrow> (Inl (HTTPException 400 err_text), s')
           | (Inl e, s') \<Rightarrow> (Inl e, s')
           | (Inr v, s') \<Rightarrow> (Inr (decode_reply dec v), s')))"

text \<open>With its dependency on a valid key.\<close>

definition redis_command_request :: "(string \<Rightarrow> string set option result) \<Rightarrow> 'r execute \<Rightarrow> (string \<Rightarrow> string) \<Rightarrow> string
    \<Rightarrow> string option \<Rightarrow> string \<Rightarrow> string list \<Rightarrow> 'r \<Rightarrow> reply result \<times> 'r" where
  "redis_command_request backend execute dec err_text api_key command args s =
     (case require_valid_api_key backend api_key of
        Inl e \<Rightarrow> (Inl e, s)
      | Inr u \<Rightarrow> run_redis_command execute dec err_text command args s)"

section \<open>Lemmas\<close>

fun has_bytes :: "reply \<Rightarrow> bool" where
  "has_bytes (Bytes b) = True"
| "has_bytes (ListReply vs) = (\<exists>v\<in>set vs. has_bytes v)"
| "has_bytes (TupleReply vs) = (\<exists>v\<in>set vs. has_bytes v)"
| "has_bytes (DictReply kvs) = (\<exists>kv\<in>set kvs. has_bytes (fst kv) \<or> has_bytes (snd kv))"
| "has_bytes v = False"

lemma update_all:
  "P k \<Longrightarrow> Q v \<Longrightarrow> \<forall>kv\<in>set d. P (fst kv) \<and> Q (snd kv) \<Longrightarrow>
   \<forall>kv\<in>set (AList.update k v d). P (fst kv) \<and> Q (snd kv)"
proof (induction d)
  case (Cons kv d)
  then show ?case by (cases kv) simp
qed simp

lemma fold_update_all:
  "\<forall>kv\<in>set kvs. P (fst kv) \<and> Q (snd kv) \<Longrightarrow> \<forall>kv\<in>set d. P (fst kv) \<and> Q (snd kv) \<Longrightarrow>
   \<forall>kv\<in>set (fold (\<lambda>kv d. AList.update (fst kv) (snd kv) d) kvs d). P (fst kv) \<and> Q (snd kv)"
proof (induction kvs arbitrary: d)
  case (Cons kv kvs)
  have "\<forall>x\<in>set (AList.update (fst kv) (snd kv) d). P (fst x) \<and> Q (snd x)"
    by (rule update_all [where P = P and Q = Q]) (use Cons.prems in simp_all)
  then have "\<forall>x\<in>set (fold (\<lambda>kv d. AList.update (fst kv) (snd kv) d) kvs (AList.update (fst kv) (snd kv) d)). P (fst x) \<and> Q (snd x)"
    by (rule Cons.IH [rotated]) (use Cons.prems(1) in simp)
  then show ?case by simp
qed simp

text \<open>Keys and values of the result are keys and values of the argument.\<close>

lemma dict_of_all:
  "\<forall>kv\<in>set kvs. P (fst kv) \<and> Q (snd kv) \<Longrightarrow> \<forall>kv\<in>set (dict_of kvs). P (fst kv) \<and> Q (snd kv)"
  unfolding dict_of_def by (rule fold_update_all [where P = P and Q = Q]) simp_all

lemma decode_no_bytes: "\<not> has_bytes (decode_reply dec v)"
proof (induction dec v rule: decode_reply.induct)
  case (4 dec kvs)
  have "\<not> has_bytes (decode_reply dec (fst kv)) \<and> \<not> has_bytes (decode_reply dec (snd kv))" if "kv \<in> set kvs" for kv
    using 4(1,2) [OF that] by (rule conjI)
  then have "\<forall>kv\<in>set (map (\<lambda>kv. (decode_reply dec (fst kv), decode_reply dec (snd kv))) kvs). \<not> has_bytes (fst kv) \<and> \<not> has_bytes (snd kv)"
    by simp
  then have "\<forall>kv\<in>set (dict_of (map (\<lambda>kv. (decode_reply dec (fst kv), decode_reply dec (snd kv))) kvs)). \<not> has_bytes (fst kv) \<and> \<not> has_bytes (snd kv)"
    by (rule dict_of_all [where P = "\<lambda>v. \<not> has_bytes v" and Q = "\<lambda>v. \<not> has_bytes v"])
  then show ?case by simp
qed simp_all

lemma strip_spaces: "\<forall>c\<in>set a. is_space c \<Longrightarrow> \<forall>c\<in>set b. is_space c \<Longrightarrow> py_strip (a @ s @ b) = py_strip s"
proof (induction a)
  case Nil
  then show ?case
  proof (induction b rule: rev_induct)
    case (snoc c b)
    then show ?case using py_strip_snoc_space [of c "s @ b"] by simp
  qed simp
qed (simp add: py_strip_Cons_space)

lemma require_valid_api_key_Inr:
  "require_valid_api_key (permitted_daemons hx smembers) key = Inr u \<longleftrightarrow>
   (\<exists>ds. get_permitted_daemons (permitted_daemons hx smembers) key = Inr ds)"
  by (cases u) (simp add: require_valid_api_key_def bind_r_eq_Inr)

lemma check_command_allowed_Inr:
  "check_command_allowed c = Inr n \<longleftrightarrow> n = py_upper (py_strip c) \<and> n \<in> set ALLOWED_COMMANDS"
  by (auto simp: check_command_allowed_def Let_def)

lemma check_command_allowed_Inl: "check_command_allowed c = Inl e \<Longrightarrow> py_upper (py_strip c) \<notin> set ALLOWED_COMMANDS"
  by (auto simp: check_command_allowed_def Let_def split: if_splits)

text \<open>The allowlist is in capitals, so case mapping finds it from any spelling.\<close>

definition is_capital :: "char \<Rightarrow> bool" where
  "is_capital c \<longleftrightarrow> 65 \<le> (of_char c :: nat) \<and> of_char c \<le> (90 :: nat)"

lemma allowed_capitals: "\<forall>c\<in>set ALLOWED_COMMANDS. \<forall>x\<in>set c. is_capital x"
  by code_simp

lemma spelling_char:
  assumes "lower_char x = lower_char y" and "is_capital y"
  shows "upper_char x = [y]" and "\<not> is_space x"
proof -
  let ?x = "of_char x :: nat" and ?y = "of_char y :: nat"
  have y: "65 \<le> ?y" "?y \<le> 90" using assms(2) by (simp_all add: is_capital_def)
  then have "lower_char y = char_of (?y + 32)" by (simp add: lower_char_def Let_def)
  then have l: "of_char (lower_char x) = ?y + 32" using y assms(1) by simp
  have "?x < 256" by simp
  then have "?x = ?y \<or> ?x = ?y + 32" using l y by (auto simp: lower_char_def Let_def split: if_splits)
  then have x: "x = y \<or> x = char_of (?y + 32)" by (metis char_of_char)
  show "upper_char x = [y]" "\<not> is_space x" using x y
    by (auto simp: upper_char_def is_lower_az_def is_space_def Let_def)
qed

lemma spelling_upper:
  "map lower_char s = map lower_char c \<Longrightarrow> \<forall>x\<in>set c. is_capital x \<Longrightarrow> py_upper s = c \<and> (\<forall>x\<in>set s. \<not> is_space x)"
proof (induction s arbitrary: c)
  case (Cons x s)
  then obtain y c' where c: "c = y # c'" "lower_char x = lower_char y" "map lower_char s = map lower_char c'" by (cases c) auto
  then show ?case using Cons.IH [of c'] Cons.prems(2) spelling_char [OF c(2)] by (simp add: py_upper_def)
qed (simp add: py_upper_def)

section \<open>Properties\<close>

text \<open>
  C39. Redis is touched only by allowlisted commands of callers with a valid key: when every
  allowlisted command, whatever its arguments, leaves a part of the data as it is, so does
  every request; and any other request leaves the whole state alone and ends in a 401, a 403
  or the error of the key lookup.
\<close>

theorem only_allowlisted_commands_run:
  assumes "\<And>s c args. c \<in> set ALLOWED_COMMANDS \<Longrightarrow> data (snd (execute s c args)) = data s"
    and "redis_command_request (permitted_daemons hx smembers) execute dec err_text api_key command args s = (res, s')"
  shows "data s' = data s \<and>
    (py_upper (py_strip command) \<in> set ALLOWED_COMMANDS \<and>
       (\<exists>ds. get_permitted_daemons (permitted_daemons hx smembers) api_key = Inr ds) \<and>
       s' = snd (execute s (py_upper (py_strip command)) args) \<or>
     s' = s \<and> (\<exists>code m k e. res = Inl (HTTPException code m) \<and> (code = 401 \<or> code = 403) \<or>
       api_key = Some k \<and> smembers (auth_key hx k) = Inl e \<and> res = Inl e))"
proof (cases "require_valid_api_key (permitted_daemons hx smembers) api_key")
  case (Inl e)
  then have g: "get_permitted_daemons (permitted_daemons hx smembers) api_key = Inl e"
    by (auto simp: require_valid_api_key_def bind_r_eq_Inl)
  have "(res, s') = (Inl e, s)" using assms(2) Inl by (simp add: redis_command_request_def)
  moreover have "(\<exists>m. e = HTTPException 401 m) \<or> (\<exists>k. api_key = Some k \<and> smembers (auth_key hx k) = Inl e)"
    using g permitted_daemons_Inl unfolding redis_auth.refused_401 by blast
  ultimately show ?thesis by blast
next
  case (Inr u)
  then obtain ds where ds: "get_permitted_daemons (permitted_daemons hx smembers) api_key = Inr ds"
    unfolding require_valid_api_key_Inr by blast
  have run: "run_redis_command execute dec err_text command args s = (res, s')"
    using assms(2) Inr by (simp add: redis_command_request_def)
  show ?thesis
  proof (cases "check_command_allowed command")
    case (Inl e)
    then show ?thesis using run by (auto simp: run_redis_command_def)
  next
    case (Inr c)
    then have c: "c = py_upper (py_strip command)" "c \<in> set ALLOWED_COMMANDS" unfolding check_command_allowed_Inr by blast+
    obtain r s1 where r: "execute s c args = (r, s1)" by (cases "execute s c args")
    then have s1: "s' = s1" using run Inr by (simp add: run_redis_command_def split: sum.splits py_error.splits)
    have "data s1 = data s" using assms(1) [OF c(2), of s args] r by simp
    then show ?thesis unfolding s1 c(1) [symmetric] using c(2) ds r by auto
  qed
qed

text \<open>
  Every allowlisted command is accepted in any mix of upper and lower case and with any
  white space around it, and is run in its one spelling; and no reply that reaches the caller
  contains bytes, however nested.
\<close>

lemma commands_normalized_replies_decoded:
  assumes "c \<in> set ALLOWED_COMMANDS" and "map lower_char spelling = map lower_char c"
    and "\<forall>x\<in>set a. is_space x" and "\<forall>x\<in>set b. is_space x"
  shows "run_redis_command execute dec err_text (a @ spelling @ b) args s =
      (case execute s c args of
         (Inl RedisError, s') \<Rightarrow> (Inl (HTTPException 400 err_text), s')
       | (Inl e, s') \<Rightarrow> (Inl e, s')
       | (Inr v, s') \<Rightarrow> (Inr (decode_reply dec v), s')) \<and>
    (\<forall>v s'. run_redis_command execute dec err_text (a @ spelling @ b) args s = (Inr v, s') \<longrightarrow> \<not> has_bytes v)"
proof -
  note sp = spelling_upper [OF assms(2) bspec [OF allowed_capitals assms(1)]]
  have "py_strip (a @ spelling @ b) = spelling"
    using strip_spaces [OF assms(3,4)] py_strip_no_space [of spelling] sp by simp
  then have k: "check_command_allowed (a @ spelling @ b) = Inr c" using sp assms(1) by (simp add: check_command_allowed_Inr)
  show ?thesis unfolding run_redis_command_def k
    using decode_no_bytes by (auto split: prod.splits sum.splits py_error.splits)
qed

text \<open>A toy server for the witnesses: one counter, and \<open>SET\<close> would change it.\<close>

definition toy_execute :: "int execute" where
  "toy_execute s c args = (if c = ''SET'' then (Inr Nothing, s + 1) else (Inr (ListReply [Bytes ''x'', Integer s]), s))"

theorem only_allowlisted_commands_run_witness:
  "snd (redis_command_request (permitted_daemons (\<lambda>k. k) (\<lambda>key. Inr {''d''})) toy_execute (\<lambda>b. b) ''err'' (Some ''k1'') ''set'' [''a''] 7) = 7"
proof -
  have t: "id (snd (toy_execute s c args)) = id s" if "c \<in> set ALLOWED_COMMANDS" for s c args
    using that by (auto simp: toy_execute_def ALLOWED_COMMANDS_def)
  obtain res s' where r: "redis_command_request (permitted_daemons (\<lambda>k. k) (\<lambda>key. Inr {''d''})) toy_execute (\<lambda>b. b) ''err''
      (Some ''k1'') ''set'' [''a''] 7 = (res, s')" by (rule prod.exhaust)
  have "id s' = id 7" by (rule conjunct1 [OF only_allowlisted_commands_run [where data = id, OF t r]])
  then show ?thesis unfolding r by simp
qed

lemma commands_normalized_replies_decoded_example:
  "run_redis_command toy_execute (\<lambda>b. b) ''err'' ('' '' @ ''xLeN'' @ [CHR 0x0A]) [''k''] 7 = (Inr (ListReply [Str ''x'', Integer 7]), 7)"
proof -
  have c: "''XLEN'' \<in> set ALLOWED_COMMANDS" by (simp add: ALLOWED_COMMANDS_def)
  have l: "map lower_char ''xLeN'' = map lower_char ''XLEN''" by code_simp
  have sp: "\<forall>x\<in>set '' ''. is_space x" "\<forall>x\<in>set [CHR 0x0A]. is_space x" by (simp_all add: is_space_def)
  show ?thesis using commands_normalized_replies_decoded [OF c l sp, of toy_execute "\<lambda>b. b" "''err''" "[''k'']" 7]
    by (simp add: toy_execute_def)
qed

end
