(* ===== verification/Server_App.thy ===== *)
theory Server_App
  imports Records_Router Redis_Admin Ingest_Pipeline
begin

text \<open>
  The application \<open>create_app\<close> assembles: the five endpoints of the four included routers, each
  with its dependencies, and the answer a caller gets. A request is one whose parameters and body
  the framework could parse. An exception no handler turns into a
  response is a 500 with a fixed body. Paths the routers do not declare belong to the framework
  (its 404s and its own pages): a parameter that sees neither Redis nor the settings.

  Lemmas: without a valid key no endpoint but the health checks answers anything but a 401, and
  a request cannot tell what Redis holds; what the pipeline of theory \<open>Ingest_Pipeline\<close> has
  stored is served to permitted callers only, and never as a 500 of the paging code.
\<close>

section \<open>Routes\<close>

datatype endpoint = Liveness | Readiness | GetCatalog | GetRecords | RunRedisCommand

definition routes :: "((string \<times> string) \<times> endpoint) list" where
  "routes =
    [((''GET'', ''/health/live''), Liveness),
     ((''GET'', ''/health/ready''), Readiness),
     ((''GET'', ''/catalog''), GetCatalog),
     ((''GET'', ''/records''), GetRecords),
     ((''POST'', ''/admin/redis/command''), RunRedisCommand)]"

record redis_command =
  cmd_command :: string
  cmd_args :: "string list"

record request =
  rq_method :: string
  rq_path :: string
  rq_api_key :: "string option"
  rq_query :: records_query
  rq_body :: redis_command

datatype body =
    StatusBody string
  | CatalogBody "catalog_entry list"
  | RecordsBody records_page
  | ResultBody reply
  | DetailBody string
  | FrameworkBody string

type_synonym response = "int \<times> body"

text \<open>What the application is built from: settings, the client's calls, and the parameters.\<close>

record 'r app_env =
  en_settings :: settings
  en_runtime :: runtime
  en_hexdigest :: "string \<Rightarrow> string"
  en_smembers :: "'r \<Rightarrow> string \<Rightarrow> string set result"
  en_ping :: "'r \<Rightarrow> unit result"
  en_xrange :: "'r xrange"
  en_execute :: "'r execute"
  en_decode :: "string \<Rightarrow> string"
  en_error_text :: string
  en_local_timestamp :: "datetime \<Rightarrow> pyfloat result"
  en_now :: datetime
  en_framework :: "string \<Rightarrow> string \<Rightarrow> int \<times> string"

definition answer :: "('a \<Rightarrow> body) \<Rightarrow> 'a result \<Rightarrow> response" where
  "answer f res =
     (case res of
        Inr v \<Rightarrow> (200, f v)
      | Inl (HTTPException code detail) \<Rightarrow> (code, DetailBody detail)
      | Inl e \<Rightarrow> (500, DetailBody ''Internal Server Error''))"

text \<open>The key is looked up in the state the request finds; \<open>s2\<close> is the state at its second read.\<close>

definition auth_backend_of :: "'r app_env \<Rightarrow> 'r \<Rightarrow> string \<Rightarrow> string set option result" where
  "auth_backend_of env s = permitted_daemons (en_hexdigest env) (en_smembers env s)"

definition handle :: "'r app_env \<Rightarrow> endpoint \<Rightarrow> request \<Rightarrow> 'r \<Rightarrow> 'r \<Rightarrow> response \<times> 'r" where
  "handle env ep rq s s2 =
     (case ep of
        Liveness \<Rightarrow> (case liveness of (code, status) \<Rightarrow> ((code, StatusBody status), s))
      | Readiness \<Rightarrow>
          ((case readiness (en_ping env s) of
              Inr (code, status) \<Rightarrow> (code, StatusBody status)
            | Inl e \<Rightarrow> answer StatusBody (Inl e)), s)
      | GetCatalog \<Rightarrow> (answer CatalogBody (get_catalog (auth_backend_of env s) (en_settings env) (rq_api_key rq)), s)
      | GetRecords \<Rightarrow>
          (answer RecordsBody (records_request (auth_backend_of env s) (en_runtime env) (en_local_timestamp env)
             (en_xrange env) (en_settings env) (en_now env) (rq_api_key rq) (rq_query rq) s s2), s2)
      | RunRedisCommand \<Rightarrow>
          (case redis_command_request (auth_backend_of env s) (en_execute env) (en_decode env) (en_error_text env)
                  (rq_api_key rq) (cmd_command (rq_body rq)) (cmd_args (rq_body rq)) s of
             (res, s') \<Rightarrow> (answer ResultBody res, s')))"

definition serve :: "'r app_env \<Rightarrow> request \<Rightarrow> 'r \<Rightarrow> 'r \<Rightarrow> response \<times> 'r" where
  "serve env rq s s2 =
     (case map_of routes (rq_method rq, rq_path rq) of
        Some ep \<Rightarrow> handle env ep rq s s2
      | None \<Rightarrow> (case en_framework env (rq_method rq) (rq_path rq) of (code, page) \<Rightarrow> ((code, FrameworkBody page), s)))"

lemma answer_simps [simp]:
  "answer f (Inr v) = (200, f v)"
  "answer f (Inl (HTTPException code detail)) = (code, DetailBody detail)"
  by (simp_all add: answer_def)

lemma answer_200:
  "answer f res = (200, b) \<Longrightarrow> (\<exists>v. res = Inr v \<and> b = f v) \<or> (\<exists>m. b = DetailBody m)"
  by (auto simp: answer_def split: sum.splits py_error.splits)

section \<open>Without a key\<close>

definition no_valid_key :: "'r app_env \<Rightarrow> request \<Rightarrow> 'r \<Rightarrow> bool" where
  "no_valid_key env rq s \<longleftrightarrow>
     (\<forall>k. rq_api_key rq = Some k \<longrightarrow> k = [] \<or> en_smembers env s (auth_key (en_hexdigest env) k) = Inr {})"

definition key_refusal :: "request \<Rightarrow> string" where
  "key_refusal rq = (case rq_api_key rq of Some (c # cs) \<Rightarrow> ''invalid API key'' | _ \<Rightarrow> ''missing API key'')"

lemma refused_key:
  "no_valid_key env rq s \<Longrightarrow>
   get_permitted_daemons (auth_backend_of env s) (rq_api_key rq) = Inl (HTTPException 401 (key_refusal rq))"
  by (auto simp: no_valid_key_def key_refusal_def get_permitted_daemons_def auth_backend_of_def permitted_daemons_def
      split: option.splits list.splits)

lemma handle_refused:
  assumes "no_valid_key env rq s" and "ep \<in> {GetCatalog, GetRecords, RunRedisCommand}"
  shows "handle env ep rq s s = ((401, DetailBody (key_refusal rq)), s)"
  using assms(2) refused_key [OF assms(1)]
  by (auto simp: handle_def get_catalog_def records_request_def redis_command_request_def require_valid_api_key_def)

section \<open>What the pipeline stored\<close>

text \<open>
  Of \<open>XRANGE\<close> with any arguments: what it returns are entries of the stream it names.
\<close>

definition xrange_within :: "'r xrange \<Rightarrow> ('r \<Rightarrow> string \<Rightarrow> entry list) \<Rightarrow> bool" where
  "xrange_within xrange entries \<longleftrightarrow>
     (\<forall>s key lo hi n raws. xrange s key lo hi n = Inr raws \<longrightarrow> set raws \<subseteq> set (reply (entries s key)))"

lemma fun_xrange_within: "xrange_within fun_xrange (\<lambda>s. s)"
  by (auto simp: xrange_within_def fun_xrange_def reply_def in_range_def dest!: in_set_takeD split: if_splits)

lemma good_entry:
  "good_stream rt h k es \<Longrightarrow> e \<in> set es \<Longrightarrow>
   \<exists>r. entry_record rt e = Some (show_sid (fst e), r) \<and> rec_docker_host r = h \<and> rec_kind r = k"
  by (fastforce simp: good_stream_def record_text_def entry_record_def page_entry_def validate_json_def)

lemma fetched_good:
  assumes "xrange_within xrange entries" and "good_stream rt h k (entries s (stream_key h k))"
    and "fetch_kind_page rt lts xrange s h k a b cur limit = Inr (es, c)"
  shows "\<forall>r\<in>set (map snd es). rec_docker_host r = h \<and> rec_kind r = k"
proof -
  obtain lo hi raws where x: "xrange s (stream_key h k) lo hi limit = Inr raws"
    and es: "es = List.map_filter (page_entry rt) raws"
    using assms(3) by (auto simp: fetch_kind_page_def bind_r_eq_Inr Let_def)
  have "set raws \<subseteq> set (reply (entries s (stream_key h k)))" using assms(1) x unfolding xrange_within_def by blast
  show ?thesis
  proof
    fix r assume "r \<in> set (map snd es)"
    then obtain y raw where y: "raw \<in> set raws" "page_entry rt raw = Some y" "r = snd y"
      by (auto simp: es map_filter_set)
    then obtain e where e: "e \<in> set (entries s (stream_key h k))" "raw = (Some (show_sid (fst e)), Some (snd e))"
      using \<open>set raws \<subseteq> _\<close> by (auto simp: reply_def)
    then show "rec_docker_host r = h \<and> rec_kind r = k"
      using good_entry [OF assms(2) e(1)] y by (auto simp: entry_record_def)
  qed
qed

text \<open>Every page of a good stream is a page: none of its entries is skipped.\<close>

lemma good_valid:
  assumes "good_stream rt h k es" and "set p \<subseteq> set es"
  shows "length (valid_entries rt p) = length p"
  using assms(2)
proof (induction p)
  case (Cons e p)
  then show ?case using good_entry [OF assms(1), of e] by (auto simp: map_filter_Cons)
qed (simp add: List.map_filter_def)

lemma good_page:
  assumes "xrange_ok xrange entries" and "window lts a b x y" and "0 < limit"
    and good: "good_stream rt h k (entries s (stream_key h k))"
  shows "\<exists>es c. fetch_kind_page rt lts xrange s h k a b (map_option show_sid cur) limit = Inr (es, c) \<and>
    set es \<subseteq> set (valid_entries rt (entries s (stream_key h k)))"
proof -
  let ?E = "entries s (stream_key h k)"
  let ?p = "take (nat limit) (in_range (cursor_bound x cur) (SID y MAX_STREAM_SEQ) ?E)"
  have p: "set ?p \<subseteq> set ?E" by (auto simp: in_range_def dest: in_set_takeD)
  then have sub: "set (valid_entries rt ?p) \<subseteq> set (valid_entries rt ?E)" by (auto simp: map_filter_set)
  have "valid_entries rt ?p \<noteq> [] \<or> length ?p < nat limit"
    using good_valid [OF good p] assms(3) by (cases "?p = []") auto
  then show ?thesis using sub fetch_kind_page_ok [OF assms(1-3), of rt s h k cur] by (auto simp: Let_def)
qed

lemma page_if_cases: "page_if wanted page = Inr (es, c) \<Longrightarrow> wanted \<and> page = Inr (es, c) \<or> \<not> wanted \<and> es = []"
  by (auto simp: page_if_def split: if_splits)

lemma page_if_sub:
  "\<exists>es c. page = Inr (es, c) \<and> set es \<subseteq> S \<Longrightarrow> \<exists>es c. page_if wanted page = Inr (es, c) \<and> set es \<subseteq> S"
  by (auto simp: page_if_def)

lemma page_if_good:
  assumes "page_if wanted (fetch_kind_page rt lts xrange s h k a b cur limit) = Inr (es, c)"
    and "xrange_within xrange entries" and "good_stream rt h k (entries s (stream_key h k))" and "r \<in> set (map snd es)"
  shows "rec_docker_host r = h \<and> rec_kind r = k \<and> wanted"
  using page_if_cases [OF assms(1)]
proof
  assume "wanted \<and> fetch_kind_page rt lts xrange s h k a b cur limit = Inr (es, c)"
  then show ?thesis using fetched_good [OF assms(2,3)] assms(4) by blast
qed (use assms(4) in simp)

lemma handle_page:
  assumes "serve env rq s s2 = ((200, RecordsBody page), s')"
  shows "map_of routes (rq_method rq, rq_path rq) = Some GetRecords \<and>
    records_request (auth_backend_of env s) (en_runtime env) (en_local_timestamp env)
      (en_xrange env) (en_settings env) (en_now env) (rq_api_key rq) (rq_query rq) s s2 = Inr page"
proof -
  obtain ep where ep: "map_of routes (rq_method rq, rq_path rq) = Some ep" and h: "handle env ep rq s s2 = ((200, RecordsBody page), s')"
    using assms by (auto simp: serve_def split: option.splits prod.splits)
  have "ep = GetRecords"
    using h by (cases ep) (auto simp: handle_def liveness_def dest!: answer_200 split: prod.splits sum.splits)
  then show ?thesis using h ep by (auto simp: handle_def dest!: answer_200)
qed

lemma request_granted:
  "records_request (permitted_daemons hx smembers) rt lts xrange st now api_key q s s2 = Inr page \<Longrightarrow>
   \<exists>k ds. api_key = Some k \<and> smembers (auth_key hx k) = Inr ds \<and> q_host q \<in> ds \<and> kind_pattern (q_kind q) \<and>
     get_records rt lts xrange st now ds q s s2 = Inr page"
  by (fastforce simp: records_request_def bind_r_eq_Inr redis_auth.granted_iff permitted_daemons_Some
      dest: get_records_Inr split: if_splits)

section \<open>Properties\<close>

text \<open>
  C18. Without a key that opens something nothing comes out: every endpoint but the two health
  checks is a 401 whose text depends on the header alone, whatever Redis holds and whatever is
  asked, the health checks answer with their fixed words, and Redis is left as it was.
\<close>

theorem no_data_without_key:
  assumes "no_valid_key env rq s"
  shows "snd (serve env rq s s) = s \<and>
    (case map_of routes (rq_method rq, rq_path rq) of
       None \<Rightarrow> (\<exists>code page. \<forall>s s2. fst (serve env rq s s2) = (code, FrameworkBody page))
     | Some Liveness \<Rightarrow> (\<forall>s2. fst (serve env rq s s2) = (200, StatusBody ''ok''))
     | Some Readiness \<Rightarrow> (\<forall>s2. fst (serve env rq s s2) \<in>
         {(200, StatusBody ''ok''), (503, StatusBody ''redis unreachable'')} \<or>
         (\<exists>e. en_ping env s = Inl e \<and> e \<noteq> RedisError))
     | Some ep \<Rightarrow> (\<forall>s2. fst (serve env rq s s2) = (401, DetailBody (key_refusal rq))))"
proof (cases "map_of routes (rq_method rq, rq_path rq)")
  case None
  then show ?thesis by (auto simp: serve_def split: prod.splits)
next
  case (Some ep)
  have s: "serve env rq s s2 = handle env ep rq s s2" for s2 using Some by (simp add: serve_def)
  show ?thesis
  proof (cases "ep \<in> {GetCatalog, GetRecords, RunRedisCommand}")
    case True
    then have "fst (handle env ep rq s s2) = (401, DetailBody (key_refusal rq))" for s2
      using refused_key [OF assms]
      by (auto simp: handle_def get_catalog_def records_request_def redis_command_request_def require_valid_api_key_def)
    then show ?thesis using handle_refused [OF assms True] True unfolding Some s by auto
  next
    case False
    then consider "ep = Liveness" | "ep = Readiness" by (cases ep) auto
    then show ?thesis unfolding Some s
      by cases (auto simp: handle_def liveness_def readiness_def split: sum.splits py_error.splits)
  qed
qed

text \<open>
  C4. From Logstash's list to the caller: whatever was pushed and in whatever state failures
  and interleavings have left the pipeline at the two reads, a page that is served answers a
  key whose set contains the daemon asked for, and every record in it is a record of that
  daemon and of a kind asked for, whatever bounds, cursors and limit the caller sent.
\<close>

theorem served_records_are_permitted:
  assumes "redis_ok api items entries" and "adapter_stable (en_runtime env)"
    and "xrange_within (en_xrange env) entries" and "\<forall>h k. entries s (stream_key h k) = []"
    and "pl_steps (en_runtime env) api items entries st b faulty (pl_start items s) p1"
    and "pl_steps (en_runtime env) api items entries st b faulty p1 p2"
    and "serve env rq (pl_redis p1) (pl_redis p2) = ((200, RecordsBody page), s')"
  shows "\<exists>k ds. rq_api_key rq = Some k \<and> en_smembers env (pl_redis p1) (auth_key (en_hexdigest env) k) = Inr ds \<and>
    q_host (rq_query rq) \<in> ds \<and>
    (\<forall>r\<in>set (rp_records page). rec_docker_host r = q_host (rq_query rq) \<and> rec_kind r \<in> set (query_kinds (q_kind (rq_query rq))))"
proof -
  let ?q = "rq_query rq" and ?rt = "en_runtime env" and ?lts = "en_local_timestamp env"
  obtain k ds where k: "rq_api_key rq = Some k" "en_smembers env (pl_redis p1) (auth_key (en_hexdigest env) k) = Inr ds"
    "q_host ?q \<in> ds" and g: "get_records ?rt ?lts (en_xrange env) (en_settings env) (en_now env) ds ?q (pl_redis p1) (pl_redis p2) = Inr page"
    using request_granted [OF conjunct2 [OF handle_page [OF assms(7)], unfolded auth_backend_of_def]] by blast
  have g1: "streams_good ?rt entries p1" by (rule streams_good_steps [OF assms(5,1,2) streams_good_start [where entries = entries, OF assms(4)]])
  have good: "good_stream ?rt h k (entries (pl_redis p) (stream_key h k))" if "p \<in> {p1, p2}" for p h k
    using that g1 streams_good_steps [OF assms(6,1,2) g1] by (auto simp: streams_good_def)
  obtain logs metrics all_records where l: "log_page ?rt ?lts (en_xrange env) (en_settings env) (en_now env) ?q (pl_redis p1) = Inr (logs, next_log_cursor page)"
    and m: "metric_page ?rt ?lts (en_xrange env) (en_settings env) (en_now env) ?q (pl_redis p2) = Inr (metrics, next_metric_cursor page)"
    and a: "sort_by_ts (map snd logs @ map snd metrics) = Inr all_records"
    and r: "rp_records page = apply_filters (q_container_id ?q) (q_level ?q) (q_text ?q) all_records"
    using get_records_Inr [OF g] by blast
  have L: "rec_docker_host r = q_host ?q \<and> rec_kind r = LOG \<and> LOG \<in> set (query_kinds (q_kind ?q))"
    if "r \<in> set (map snd logs)" for r
    by (rule page_if_good [OF l [unfolded log_page_def] assms(3) good that]) simp
  have M: "rec_docker_host r = q_host ?q \<and> rec_kind r = METRIC \<and> METRIC \<in> set (query_kinds (q_kind ?q))"
    if "r \<in> set (map snd metrics)" for r
    by (rule page_if_good [OF m [unfolded metric_page_def] assms(3) good that]) simp
  have "set (rp_records page) \<subseteq> set (map snd logs) \<union> set (map snd metrics)"
    unfolding r apply_filters_matches sort_by_ts_Inr [OF a] by auto
  then have "\<forall>r\<in>set (rp_records page). rec_docker_host r = q_host ?q \<and> rec_kind r \<in> set (query_kinds (q_kind ?q))"
    using L M by fastforce
  then show ?thesis using k by blast
qed

text \<open>
  C16. The paging code does not fail on what the pipeline stored: a permitted caller who asks
  for a window of exact dates with a positive page size and cursors as the server gives them
  gets a page, unless among the stored records of that daemon a naive and an aware timestamp
  meet, which is a 500.
\<close>

theorem stored_records_are_served:
  assumes "redis_ok api items entries" and "adapter_stable (en_runtime env)"
    and "xrange_ok (en_xrange env) entries" and "\<forall>h k. entries s (stream_key h k) = []"
    and "pl_steps (en_runtime env) api items entries st b faulty (pl_start items s) p1"
    and "pl_steps (en_runtime env) api items entries st b faulty p1 p2"
    and "map_of routes (rq_method rq, rq_path rq) = Some GetRecords" and "kind_pattern (q_kind (rq_query rq))"
    and "rq_api_key rq = Some key" and "key \<noteq> []"
    and "en_smembers env (pl_redis p1) (auth_key (en_hexdigest env) key) = Inr ds" and "q_host (rq_query rq) \<in> ds"
    and "range_of (en_now env) (rq_query rq) = (lo, hi)"
    and "exact_window (dt_us lo)" and "dt_aware lo" and "exact_window (dt_us hi)" and "dt_aware hi"
    and "q_log_cursor (rq_query rq) = map_option show_sid lc" and "q_metric_cursor (rq_query rq) = map_option show_sid mc"
    and "0 < effective_limit (st_server (en_settings env)) (q_limit (rq_query rq))"
    and "stored = map snd (valid_entries (en_runtime env) (entries (pl_redis p1) (stream_key (q_host (rq_query rq)) LOG) @
        entries (pl_redis p2) (stream_key (q_host (rq_query rq)) METRIC)))"
  shows "(\<exists>page. fst (serve env rq (pl_redis p1) (pl_redis p2)) = (200, RecordsBody page)) \<or>
    fst (serve env rq (pl_redis p1) (pl_redis p2)) = (500, DetailBody ''Internal Server Error'') \<and>
      (\<exists>r\<in>set stored. \<exists>r'\<in>set stored. dt_aware (rec_ts r) \<noteq> dt_aware (rec_ts r'))"
proof -
  let ?q = "rq_query rq" and ?rt = "en_runtime env" and ?lts = "en_local_timestamp env" and ?x = "en_xrange env"
  let ?lim = "effective_limit (st_server (en_settings env)) (q_limit ?q)"
  have g1: "streams_good ?rt entries p1"
    by (rule streams_good_steps [OF assms(5,1,2) streams_good_start [where entries = entries, OF assms(4)]])
  have good: "good_stream ?rt h k (entries (pl_redis p) (stream_key h k))" if "p \<in> {p1, p2}" for p h k
    using that g1 streams_good_steps [OF assms(6,1,2) g1] by (auto simp: streams_good_def)
  have pg: "\<exists>es c. fetch_kind_page ?rt ?lts ?x (pl_redis p) h k lo hi (map_option show_sid cur) ?lim = Inr (es, c) \<and>
      set es \<subseteq> set (valid_entries ?rt (entries (pl_redis p) (stream_key h k)))" if "p \<in> {p1, p2}" for p h k cur
    by (rule good_page [OF assms(3) exact_window_dates [OF assms(14-17)] assms(20) good [OF that]])
  obtain logs c1 where l: "log_page ?rt ?lts ?x (en_settings env) (en_now env) ?q (pl_redis p1) = Inr (logs, c1)"
    "set logs \<subseteq> set (valid_entries ?rt (entries (pl_redis p1) (stream_key (q_host ?q) LOG)))"
    using page_if_sub [OF pg [of p1 "q_host ?q" LOG lc], of "LOG \<in> set (query_kinds (q_kind ?q))"]
    unfolding log_page_def assms(13,18) fst_conv snd_conv by blast
  obtain metrics c2 where m: "metric_page ?rt ?lts ?x (en_settings env) (en_now env) ?q (pl_redis p2) = Inr (metrics, c2)"
    "set metrics \<subseteq> set (valid_entries ?rt (entries (pl_redis p2) (stream_key (q_host ?q) METRIC)))"
    using page_if_sub [OF pg [of p2 "q_host ?q" METRIC mc], of "METRIC \<in> set (query_kinds (q_kind ?q))"]
    unfolding metric_page_def assms(13,19) fst_conv snd_conv by blast
  have sub: "set (map snd logs @ map snd metrics) \<subseteq> set stored"
    using l(2) m(2) by (auto simp: assms(21) map_filter_append)
  have gp: "get_permitted_daemons (auth_backend_of env (pl_redis p1)) (rq_api_key rq) = Inr ds"
    using assms(9-12) unfolding auth_backend_of_def redis_auth.granted_iff permitted_daemons_Some by auto
  have acc: "require_daemon_access (q_host ?q) ds = Inr ()" using assms(12) by (simp add: require_daemon_access_def)
  have f: "fst (serve env rq (pl_redis p1) (pl_redis p2)) =
      answer RecordsBody (bind_r (sort_by_ts (map snd logs @ map snd metrics)) (\<lambda>rs.
        Inr \<lparr>rp_records = apply_filters (q_container_id ?q) (q_level ?q) (q_text ?q) rs, next_log_cursor = c1, next_metric_cursor = c2\<rparr>))"
    unfolding serve_def assms(7) handle_def records_request_def gp get_records_def l(1) m(1) using assms(8) acc by simp
  show ?thesis
  proof (cases "sort_by_ts (map snd logs @ map snd metrics)")
    case (Inr rs)
    then show ?thesis unfolding f by simp
  next
    case (Inl e)
    then have "e = TypeError" "\<exists>r\<in>set (map snd logs @ map snd metrics). \<exists>r'\<in>set (map snd logs @ map snd metrics).
        dt_aware (rec_ts r) \<noteq> dt_aware (rec_ts r')"
      by (auto simp: sort_by_ts_def split: if_splits)
    then have "\<exists>r\<in>set stored. \<exists>r'\<in>set stored. dt_aware (rec_ts r) \<noteq> dt_aware (rec_ts r')" using sub by blast
    moreover have "fst (serve env rq (pl_redis p1) (pl_redis p2)) = (500, DetailBody ''Internal Server Error'')"
      unfolding f Inl \<open>e = TypeError\<close> by (simp add: answer_def)
    ultimately show ?thesis by blast
  qed
qed

section \<open>A concrete application\<close>

definition mem_env :: "string set \<Rightarrow> mem app_env" where
  "mem_env ds =
     \<lparr>en_settings = default_settings, en_runtime = sample_rt, en_hexdigest = (\<lambda>k. k),
      en_smembers = (\<lambda>s key. Inr (if key = auth_key (\<lambda>k. k) ''k1'' then ds else {})), en_ping = (\<lambda>s. Inr ()),
      en_xrange = (\<lambda>s. fun_xrange (mem_entries s)), en_execute = (\<lambda>s c args. (Inr Nothing, s)), en_decode = (\<lambda>b. b),
      en_error_text = ''err'', en_local_timestamp = no_local_time, en_now = utc 1100000000002000,
      en_framework = (\<lambda>m p. (404, ''Not Found''))\<rparr>"

lemma mem_env_simps [simp]:
  "en_runtime (mem_env ds) = sample_rt" "en_hexdigest (mem_env ds) = (\<lambda>k. k)"
  "en_smembers (mem_env ds) = (\<lambda>s key. Inr (if key = auth_key (\<lambda>k. k) ''k1'' then ds else {}))"
  "en_xrange (mem_env ds) = (\<lambda>s. fun_xrange (mem_entries s))" "en_settings (mem_env ds) = default_settings"
  "en_now (mem_env ds) = utc 1100000000002000" "en_local_timestamp (mem_env ds) = no_local_time"
  by (simp_all add: mem_env_def)

lemma mem_xrange_ok: "xrange_ok (\<lambda>s. fun_xrange (mem_entries s)) mem_entries"
  using fun_xrange_ok by (auto simp: xrange_ok_def)

lemma mem_xrange_within: "xrange_within (\<lambda>s. fun_xrange (mem_entries s)) mem_entries"
  using fun_xrange_within by (auto simp: xrange_within_def)

definition records_of :: "string option \<Rightarrow> records_query \<Rightarrow> request" where
  "records_of key q = \<lparr>rq_method = ''GET'', rq_path = ''/records'', rq_api_key = key, rq_query = q,
     rq_body = \<lparr>cmd_command = [], cmd_args = []\<rparr>\<rparr>"

lemma records_of_simps [simp]:
  "rq_api_key (records_of key q) = key" "rq_query (records_of key q) = q"
  "map_of routes (rq_method (records_of key q), rq_path (records_of key q)) = Some GetRecords"
  by (simp_all add: records_of_def routes_def)

text \<open>The daemon's log since long before the one entry of the sample run.\<close>

definition wide_query :: records_query where
  "wide_query = (sample_query ''d'')\<lparr>q_level := None\<rparr>"

lemma wide_query_simps [simp]:
  "q_host wide_query = ''d''" "q_kind wide_query = ''both''" "q_log_cursor wide_query = None" "q_metric_cursor wide_query = None"
  "range_of now wide_query = (utc 1100000000001000, utc 1100000000002000)"
  "effective_limit (st_server default_settings) (q_limit wide_query) = 200"
  by (simp_all add: wide_query_def sample_query_def range_of_def effective_limit_def default_settings_def server_defaults_def)

abbreviation sample_at :: "mem pipeline" where
  "sample_at \<equiv> sample_pipe [Text ''ok''] one_entry CWait TrSleep {(stream_key ''d'' LOG, ''ok'')}"

lemma sample_mem_empty: "\<forall>h k. mem_entries sample_mem (stream_key h k) = []"
  by (simp add: sample_mem_def)

theorem no_data_without_key_witness:
  "fst (serve (mem_env {''d''}) (records_of (Some ''k2'') wide_query) sample_mem sample_mem) = (401, DetailBody ''invalid API key'')"
proof -
  have "no_valid_key (mem_env {''d''}) (records_of (Some ''k2'') wide_query) sample_mem"
    by (simp add: no_valid_key_def auth_key_def)
  from no_data_without_key [OF this] show ?thesis by (simp add: key_refusal_def)
qed

theorem stored_records_are_served_witness:
  "\<exists>page. fst (serve (mem_env {''d''}) (records_of (Some ''k1'') wide_query) (pl_redis sample_at) (pl_redis sample_at)) =
     (200, RecordsBody page)"
proof -
  let ?env = "mem_env {''d''}" and ?rq = "records_of (Some ''k1'') wide_query"
  let ?stored = "map snd (valid_entries (en_runtime ?env) (mem_entries (pl_redis sample_at) (stream_key (q_host (rq_query ?rq)) LOG) @
      mem_entries (pl_redis sample_at) (stream_key (q_host (rq_query ?rq)) METRIC)))"
  have st: "?stored = [sample_log ''d'' 1]" by (simp add: map_filter_Cons sample_record List.map_filter_def)
  have r: "range_of (en_now ?env) (rq_query ?rq) = (utc 1100000000001000, utc 1100000000002000)" by simp
  have x: "redis_ok mem_api mem_items mem_entries" "adapter_stable (en_runtime ?env)" "xrange_ok (en_xrange ?env) mem_entries"
    using mem_api_ok sample_adapter mem_xrange_ok by simp_all
  have run: "pl_steps (en_runtime ?env) mem_api mem_items mem_entries one_daemon 2 False (pl_start mem_items sample_mem) sample_at"
    using sample_ingested by simp
  have c: "q_log_cursor (rq_query ?rq) = map_option show_sid None" "q_metric_cursor (rq_query ?rq) = map_option show_sid None"
    "kind_pattern (q_kind (rq_query ?rq))" "0 < effective_limit (st_server (en_settings ?env)) (q_limit (rq_query ?rq))"
    "''k1'' \<noteq> []" "q_host (rq_query ?rq) \<in> {''d''}" "rq_api_key ?rq = Some ''k1''"
    "en_smembers ?env (pl_redis sample_at) (auth_key (en_hexdigest ?env) ''k1'') = Inr {''d''}"
    by (simp_all add: kind_pattern_def)
  from stored_records_are_served [OF x sample_mem_empty run rtranclp.rtrancl_refl records_of_simps(3) c(3,7,5,8,6) r
      sample_exact(1) utc_simps(2) sample_exact(2) utc_simps(2) c(1,2,4) refl]
  show ?thesis unfolding st by simp
qed

lemma wide_query_filters: "q_container_id wide_query = None" "q_level wide_query = None" "q_text wide_query = None"
  by (simp_all add: wide_query_def)

lemma sample_at_page:
  "fetch_kind_page sample_rt no_local_time (\<lambda>s. fun_xrange (mem_entries s)) (pl_redis sample_at) ''d'' k
     (utc 1100000000001000) (utc 1100000000002000) None 200 =
   Inr (if k = LOG then [(show_sid (SID 1100000000001 0), sample_log ''d'' 1)] else [], None)"
proof -
  note f = fetch_kind_page_ok [where entries = "\<lambda>s. s" and cur = None and limit = 200 and host = "''d''" and s = one_entry and rt = sample_rt,
      OF fun_xrange_ok exact_window_dates [OF sample_exact(1) utc_simps(2) sample_exact(2) utc_simps(2), of no_local_time]]
  show ?thesis using f [of k]
    by (cases k) (simp_all add: fetch_kind_page_def in_range_def less_eq_stream_id_def MAX_STREAM_SEQ_def List.map_filter_def
        sample_record Let_def)
qed

theorem served_records_are_permitted_witness:
  "\<exists>page. fst (serve (mem_env {''d''}) (records_of (Some ''k1'') wide_query) (pl_redis sample_at) (pl_redis sample_at)) =
     (200, RecordsBody page) \<and> rp_records page = [sample_log ''d'' 1] \<and> rec_docker_host (sample_log ''d'' 1) = ''d''"
proof -
  let ?env = "mem_env {''d''}" and ?rq = "records_of (Some ''k1'') wide_query"
  have x: "redis_ok mem_api mem_items mem_entries" "adapter_stable (en_runtime ?env)" "xrange_within (en_xrange ?env) mem_entries"
    using mem_api_ok sample_adapter mem_xrange_within by simp_all
  have run: "pl_steps (en_runtime ?env) mem_api mem_items mem_entries one_daemon 2 False (pl_start mem_items sample_mem) sample_at"
    using sample_ingested by simp
  have k: "get_permitted_daemons (auth_backend_of ?env (pl_redis sample_at)) (Some ''k1'') = Inr {''d''}"
    by (simp add: auth_backend_of_def get_permitted_daemons_def permitted_daemons_def)
  obtain page s' where s: "serve ?env ?rq (pl_redis sample_at) (pl_redis sample_at) = ((200, RecordsBody page), s')"
    and page: "rp_records page = [sample_log ''d'' 1]"
    using k sample_at_page by (simp add: serve_def handle_def records_request_def kind_pattern_def get_records_def log_page_def
        metric_page_def page_if_def query_kinds_def require_daemon_access_def sort_by_ts_def apply_filters_def wide_query_filters)
  from served_records_are_permitted [OF x sample_mem_empty run rtranclp.rtrancl_refl s] show ?thesis using s page by auto
qed

end
