(* ===== verification/Server_Lifecycle.thy ===== *)
theory Server_Lifecycle
  imports Ingest_Consumer Retention_Trimmer
begin

text \<open>
  The lifespan of \<open>create_app\<close> in \<^verbatim>\<open>log_sump_server/app.py\<close> and \<open>main\<close> of \<^verbatim>\<open>__main__.py\<close>: what the
  server starts, with which parameters, and what it cleans up. A Redis client is its number;
  the effects are kept as a trace.
\<close>

datatype background = ConsumerTask | TrimmerTask

datatype server_call =
    Connected string nat
  | ConsumerStarted nat int
  | TrimmerStarted nat "string list" int int pyfloat
  | Serving
  | TaskCancelled background
  | TasksAwaited
  | RedisClosed nat

record app_closure =
  ac_redis :: "nat option"
  ac_owns_redis :: bool

text \<open>\<open>create_app(settings, redis)\<close> up to the lifespan function.\<close>

definition new_closure :: "nat option \<Rightarrow> app_closure" where
  "new_closure redis = \<lparr>ac_redis = redis, ac_owns_redis = (redis = None)\<rparr>"

definition startup :: "settings \<Rightarrow> nat \<Rightarrow> app_closure \<Rightarrow> nat \<times> app_closure \<times> server_call list" where
  "startup st fresh ac =
     (let (r, calls) = (case ac_redis ac of None \<Rightarrow> (fresh, [Connected (redis_url (st_redis st)) fresh]) | Some r \<Rightarrow> (r, []))
      in (r, ac\<lparr>ac_redis := Some r\<rparr>,
          calls @ [ConsumerStarted r BATCH_SIZE,
            TrimmerStarted r (map dc_id (st_daemons st)) (retention_days (st_retention st))
              (effective_metrics_retention_days (st_retention st)) (trim_interval_seconds (st_retention st))]))"

definition cleanup :: "nat \<Rightarrow> app_closure \<Rightarrow> server_call list" where
  "cleanup r ac = [TaskCancelled ConsumerTask, TaskCancelled TrimmerTask, TasksAwaited] @
     (if ac_owns_redis ac then [RedisClosed r] else [])"

text \<open>One lifespan: the \<open>finally\<close> runs however serving ended, and the exception goes on.\<close>

definition lifespan :: "settings \<Rightarrow> nat \<Rightarrow> unit result \<Rightarrow> app_closure \<Rightarrow> unit result \<times> app_closure \<times> server_call list" where
  "lifespan st fresh served ac =
     (case startup st fresh ac of (r, ac', calls) \<Rightarrow> (served, ac', calls @ [Serving] @ cleanup r ac'))"

text \<open>\<open>main\<close>: where uvicorn is told to listen.\<close>

definition bind_address :: "settings \<Rightarrow> string \<times> int" where
  "bind_address st = (bind_host (st_server st), bind_port (st_server st))"

text \<open>An injected client is used as it is and never closed; the app's own is closed last.\<close>

lemma lifespan_redis:
  "lifespan st fresh served (new_closure redis) = (res, ac', calls) \<Longrightarrow>
   res = served \<and>
   (\<exists>r. ac_redis ac' = Some r \<and> (case redis of None \<Rightarrow> r = fresh | Some r0 \<Rightarrow> r = r0) \<and>
      (\<forall>x. RedisClosed x \<in> set calls \<longrightarrow> redis = None \<and> x = r \<and> last calls = RedisClosed r) \<and>
      (redis = None \<longrightarrow> last calls = RedisClosed r))"
  by (auto simp: lifespan_def startup_def cleanup_def new_closure_def split: option.splits)

end
