(* ===== verification/Spec2Isabelle.thy ===== *)
theory Spec2Isabelle
  imports Orchestrator Container_Listener Containers_Listing Container_Stats System_Stats
    Producers Listener_Shutdown Ingest_Turns Ingest_Recovery Server_App Listener_Lifecycle Server_Lifecycle
begin

text \<open>
  A verification development for log-sump: a listener that follows the containers of several
  Docker daemons and ships their log lines and metrics, and a server that stores them in Redis
  streams, trims them and answers queries. The sources are the three Python packages under
  \<^verbatim>\<open>src/packages/\<close>: \<^verbatim>\<open>log-sump-common\<close> (C below), \<^verbatim>\<open>log-sump-listener\<close> (L), \<^verbatim>\<open>log-sump-server\<close> (S).

  The parts and how they interact. Per enabled daemon the listener runs four loops (L/app.py
  \<open>run_daemon\<close>): \<open>containers_listing\<close> runs \<open>docker ps\<close> over the transport (C/transport.py) and
  records the result in the registry; the registry hands every new container to a dispatcher,
  which asks that daemon's \<open>ListenerManager\<close> to spawn a container listener; \<open>container_tracker\<close>
  stops the listeners of containers missing for too many listings; \<open>container_stats\<close> and
  \<open>system_stats\<close> sample metrics. Records leave through the records logger
  (L/logging_setup.py) and Logstash into a Redis list; the server's consumer moves them to one
  stream per daemon and kind, the trimmer cuts the streams, and the routers answer from them
  for callers whose API key permits the daemon.

  The theories, bottom up, and the code they model:
    \<^item> \<open>Prelude\<close>: exceptions, results, generic lemmas. \<open>Py_Floats\<close>: binary64 arithmetic with one
      rounding per operation, proved against rounding over the reals. \<open>Py_Strings\<close>: the \<open>str\<close>
      operations used, \<open>int()\<close>, \<open>float()\<close>, \<open>repr\<close>, over the code points 0 to 255.
    \<^item> \<open>Redis_Keys\<close> (C/redis_keys.py), \<open>Schema\<close> (C/schema.py), \<open>Transport\<close> and \<open>Merge_Streams\<close>
      (C/transport.py; the second is the interleaving of the two pumps and the generator),
      \<open>Config\<close> (C/config.py), \<open>Units\<close> (L/units.py).
    \<^item> \<open>Registry\<close> (L/registry.py), \<open>Container_Tracker\<close> (L/container_tracker.py),
      \<open>Listener_Manager\<close> (L/app.py, the class), \<open>Orchestrator\<close>: their interleaving as a step
      relation, one step per stretch of code between two \<open>await\<close>s.
    \<^item> \<open>Container_Listener\<close>, \<open>Containers_Listing\<close>, \<open>Container_Stats\<close>, \<open>Proc_Parsers\<close> and
      \<open>System_Stats\<close>: the loops of the listener; \<open>Docker_Cli\<close> and \<open>Sampling_Loop\<close> what they
      share, \<open>Producers\<close> what holds of everything they ship.
    \<^item> \<open>Listener_Lifecycle\<close> (L/app.py \<open>run\<close>, \<open>run_daemon\<close>; L/logging_setup.py; L/__main__.py).
      \<open>Listener_World\<close>: the orchestrator's steps together with the listeners that read their lines,
      the threads that run the handler, and the cancellations of a shutdown; \<open>Listener_Shutdown\<close>:
      what a signal leads to.
    \<^item> \<open>Ingest_Consumer\<close>, \<open>Stream_Ids\<close>, \<open>Retention_Trimmer\<close>, \<open>Server_Lifecycle\<close> (S/ingest, S/app.py);
      \<open>Ingest_Pipeline\<close>: consumer, trimmer and Logstash's pushes interleaved on one Redis, one step
      per Redis call, with failures; \<open>Ingest_Turns\<close>: the loops as runs of it; \<open>Ingest_Recovery\<close>:
      what the consumer can do after failures.
    \<^item> \<open>Auth_Access\<close> (C/auth.py, S/deps.py, the catalog and health routers), \<open>Record_Queries\<close>
      (S/queries.py), \<open>Records_Router\<close> (S/routers/records.py), \<open>Redis_Admin\<close> (S/redis_inspect.py,
      S/routers/admin.py), \<open>Server_App\<close>: the application \<open>create_app\<close> assembles of them.

  Interfaces as locales, each interpreted where it is provided: \<open>liveness_register\<close> (what the
  tracker relies on of the registry), \<open>listener_pool\<close> (of the manager), \<open>auth_backend\<close> (what the
  dependencies rely on of the key backend), \<open>sampling_loop\<close> (what any loop over cycles does with
  records and exceptions).

  State and operations. A class with attributes is a \<open>record\<close>, a method a function from the
  state to the new state; an exception is a value of \<open>py_error\<close>, so a handler's \<open>except\<close>
  clauses are branches. A coroutine that awaits in a shared state is cut at its \<open>await\<close>s
  (\<open>Orchestrator\<close>, \<open>Listener_World\<close>, \<open>Merge_Streams\<close>, \<open>Ingest_Pipeline\<close>); elsewhere it is the sequence of its
  calls, and for the consumer and the trimmer such a sequence is shown to be a run of the steps.

  What the lemma groups show. Registry, tracker, manager: the miss count of a container is the
  number of listings since it was last seen; a tracker run stops exactly the overdue. The
  orchestrator: the invariant that registered and running tasks correspond, the semaphore's
  account, progress of the notification loop. The process: a listener ships the records of
  what it has read, two listeners of a container do not overlap, what a signal reaches, and what is flushed at the
  exit (\<open>main\<close>, the \<open>AtExit\<close> event: \<open>logging.shutdown\<close>). Transport and merge: which shell gets a script from which argv,
  exactly-once delivery, and when the merged stream ends. Parsers: exact values and exactly which inputs
  raise. Loops: numbering, what they emit, which failures they survive. Consumer, trimmer,
  queries: exactly which entries are added, kept and returned. Pipeline: what every stream holds
  under all interleavings and failures, that nothing is lost without failures, and recovery.
  Application: no answer without a key, and from the pushed item to the served page. Producers:
  the shapes of shipped records and what a second run of a listener ships. The last sections
  compose one listener and the whole listener process with the consumer; the listener, the
  pipeline and the application from a printed line to the page a caller reads; and one loop
  with the whole process.

  Bounds and fuel. A loop that never ends is a function of the finite list of its turns' inputs
  (what the commands printed, the clock), so a statement for all lists covers every prefix of a
  run. The consumer takes a number of turns; \<open>consumer_drains_in_order\<close> says how many are
  enough. The walk over pages takes the list of states Redis is in at each page, and more
  states than entries are shown enough. Stream bounds are exact for aware datetimes from
  November 2004 to January 2038 (\<open>exact_window\<close>); outside, rounding may lose a millisecond.

  Code that is not in the repository is a parameter: Redis commands (over an arbitrary server
  state, with the documented behaviour as named hypotheses \<open>list_redis\<close>, \<open>xtrim_ok\<close>,
  \<open>xrange_ok\<close>, \<open>xrange_within\<close>, and \<open>redis_ok\<close> for the calls of the pipeline, all satisfied by a
  server in memory), the pydantic adapter (\<open>adapter_roundtrips\<close>, \<open>adapter_stable\<close>), the JSON decoder, \<open>fromisoformat\<close>, SHA-256, UTF-8
  decoding, and what commands print: of \<open>docker logs\<close> that without a selecting option it writes the
  whole log (\<open>writes_whole_log\<close>), of \<open>ssh\<close> that it skips the options it is given, if they let it
  run a command, and hands the rest of its words to the remote shell (\<open>command_options\<close>). The
  interpreter's exit hook \<open>logging.shutdown\<close> is written out from the standard library.

  Not modelled, and why: the parsing of settings sources by pydantic and of requests by FastAPI,
  its own pages for paths the routers do not declare (a parameter), the rendering and wording
  of log messages, sleeping, and Logstash itself. A request reaches the model only if the
  framework could parse it: a malformed body or parameter is a 422 before any dependency runs.
  \<open>json.loads\<close> fails only with \<open>ValueError\<close>: the \<open>RecursionError\<close> of deeply nested input is left
  out. A container ID that is not a string is represented by its \<open>str\<close>. The hosts of the
  orchestrator are distinct: two configured daemons with the same id, of which the code would
  start two of each loop, are left out. Strings are limited to code points below 256. The repository's tests, its Docker and
  Logstash files are not Python code of the program.
\<close>

section \<open>From a container's output to its stream\<close>

lemma subseq_map_filter: "subseq xs ys \<Longrightarrow> subseq (List.map_filter f xs) (List.map_filter f ys)"
  unfolding List.map_filter_def by (intro subseq_map subseq_filter)

lemma map_filter_map_Some: "(\<And>x. x \<in> set xs \<Longrightarrow> f (g x) = Some x) \<Longrightarrow> List.map_filter f (map g xs) = xs"
  by (induction xs) (simp_all add: map_filter_Cons List.map_filter_def)

lemma listener_records_host: "r \<in> set (listener_records rt h cid cn n lines) \<Longrightarrow> docker_host r = h"
  by (induction lines arbitrary: n) (auto split: option.splits dest: parse_line_identity)

text \<open>What the shipped texts of a run become among whatever else is in the list.\<close>

lemma shipped_read_back:
  assumes "adapter_roundtrips rt (LogRecord ` set (listener_records rt h cid cn 1 lines))"
    and "subseq (map Text (run_container_listener rt h cid cn lines)) its"
  shows "subseq (map LogRecord (listener_records rt h cid cn 1 lines))
    (List.map_filter (rt_validate_json rt) (map (dump_json rt) (filter (\<lambda>r. rec_docker_host r = h \<and> rec_kind r = LOG) (valid_records rt its))))"
proof -
  let ?rs = "map LogRecord (listener_records rt h cid cn 1 lines)"
  let ?item = "\<lambda>item. case item of Text d \<Rightarrow> rt_validate_json rt d | Number n \<Rightarrow> None"
  let ?here = "\<lambda>r. rec_docker_host r = h \<and> rec_kind r = LOG"
  have readback: "rt_validate_json rt (dump_json rt r) = Some r" if "r \<in> set ?rs" for r
    using assms(1) that by (auto simp: adapter_roundtrips_def dump_json_def)
  have shipped: "map Text (run_container_listener rt h cid cn lines) = map (\<lambda>r. Text (dump_json rt r)) ?rs"
    by (simp add: run_container_listener_def)
  have rs: "List.map_filter ?item (map (\<lambda>r. Text (dump_json rt r)) ?rs) = ?rs"
    using readback by (intro map_filter_map_Some) simp
  have "subseq ?rs (valid_records rt its)"
    using subseq_map_filter [OF assms(2) [unfolded shipped], of ?item] unfolding rs valid_records_def .
  then have "subseq (filter ?here ?rs) (filter ?here (valid_records rt its))" by (rule subseq_filter)
  moreover have "filter ?here ?rs = ?rs" by (auto simp: filter_id_conv dest: listener_records_host)
  ultimately have "subseq ?rs (filter ?here (valid_records rt its))" by simp
  then have "subseq (map (dump_json rt) ?rs) (map (dump_json rt) (filter ?here (valid_records rt its)))" by (rule subseq_map)
  then have "subseq (List.map_filter (rt_validate_json rt) (map (dump_json rt) ?rs))
      (List.map_filter (rt_validate_json rt) (map (dump_json rt) (filter ?here (valid_records rt its))))"
    by (rule subseq_map_filter)
  moreover have "List.map_filter (rt_validate_json rt) (map (dump_json rt) ?rs) = ?rs"
    using readback by (rule map_filter_map_Some)
  ultimately show ?thesis by (simp only:)
qed

text \<open>
  What a container listener ships, through the ingest list in its order and among
  whatever else is in the list, arrives: once the consumer has drained the list, the log
  stream of the daemon, read back with the same adapter, contains the records of all lines
  with a timestamp in the order of the lines.
\<close>

lemma shipped_records_arrive_in_order:
  assumes "list_redis rc items streams"
    and "adapter_roundtrips rt (LogRecord ` set (listener_records rt h cid cn 1 lines))"
    and "subseq (map Text (run_container_listener rt h cid cn lines)) (items s)"
    and "length (items s) \<le> n * turn_size batch_size"
  shows "\<exists>s' new. run_consumer rt rc batch_size n s = (None, s') \<and> items s' = [] \<and>
    streams s' (stream_key h LOG) = streams s (stream_key h LOG) @ new \<and>
    subseq (map LogRecord (listener_records rt h cid cn 1 lines)) (List.map_filter (rt_validate_json rt) new)"
proof -
  obtain err s' where run: "run_consumer rt rc batch_size n s = (err, s')"
    by (cases "run_consumer rt rc batch_size n s")
  let ?new = "map (dump_json rt) (filter (\<lambda>r. rec_docker_host r = h \<and> rec_kind r = LOG) (valid_records rt (items s)))"
  have "err = None" "items s' = []" "streams s' (stream_key h LOG) = streams s (stream_key h LOG) @ ?new"
    using run_consumer_ok [OF assms(1) run] assms(4) by (simp_all add: added_valid_records)
  then show ?thesis using run shipped_read_back [OF assms(2,3)]
    by (intro exI [of _ s'] exI [of _ ?new] conjI) simp_all
qed

text \<open>One container that prints one line, and a consumer that finds it after a malformed entry.\<close>

definition demo_line :: stream_line where
  "demo_line = \<lparr>sl_stream = STDOUT, sl_text = ''T hi''\<rparr>"

definition demo_rt :: runtime where
  "demo_rt = (table_runtime [] [(''T'', utc 0)])\<lparr>rt_validate_json := (\<lambda>t. if t = ''R'' then
       Some (LogRecord \<lparr>docker_host = ''d'', container_name = ''web'', container_id = ''c'', ts = utc 0, seq = 1, stream = STDOUT,
         level = ''info'', message = ''hi'', log_fields = [], raw = ''T hi''\<rparr>) else None), rt_dump_json := (\<lambda>r. ''R'')\<rparr>"

lemma demo_records:
  "listener_records demo_rt ''d'' ''c'' ''web'' 1 [demo_line] =
     [\<lparr>docker_host = ''d'', container_name = ''web'', container_id = ''c'', ts = utc 0, seq = 1, stream = STDOUT,
       level = ''info'', message = ''hi'', log_fields = [], raw = ''T hi''\<rparr>]"
  by (simp add: parse_line_def demo_line_def demo_rt_def py_partition_def replace_char_def try_parse_json_object_def
      json_loads_def table_runtime_def DEFAULT_LEVEL_def)

lemma shipped_records_arrive_in_order_example:
  "\<exists>s' new. run_consumer demo_rt store_redis BATCH_SIZE 1 \<lparr>store_items = [Text ''bad'', Text ''R''], store_streams = (\<lambda>key. [])\<rparr> = (None, s') \<and>
     store_streams s' (stream_key ''d'' LOG) = new \<and> List.map_filter (rt_validate_json demo_rt) new \<noteq> []"
proof -
  let ?s = "\<lparr>store_items = [Text ''bad'', Text ''R''], store_streams = (\<lambda>key. [])\<rparr>"
  have rt: "adapter_roundtrips demo_rt (LogRecord ` set (listener_records demo_rt ''d'' ''c'' ''web'' 1 [demo_line]))"
    unfolding demo_records by (simp add: adapter_roundtrips_def demo_rt_def)
  have sub: "subseq (map Text (run_container_listener demo_rt ''d'' ''c'' ''web'' [demo_line])) (store_items ?s)"
    unfolding run_container_listener_def demo_records by (simp add: dump_json_def demo_rt_def)
  have len: "length (store_items ?s) \<le> 1 * turn_size BATCH_SIZE" by (simp add: turn_size_def BATCH_SIZE_def)
  from shipped_records_arrive_in_order [where s = ?s and items = store_items, OF store_redis_ok rt sub len] obtain s' new where
    "run_consumer demo_rt store_redis BATCH_SIZE 1 ?s = (None, s')"
    "store_streams s' (stream_key ''d'' LOG) = store_streams ?s (stream_key ''d'' LOG) @ new"
    "subseq (map LogRecord (listener_records demo_rt ''d'' ''c'' ''web'' 1 [demo_line])) (List.map_filter (rt_validate_json demo_rt) new)"
    by blast
  then show ?thesis unfolding demo_records by (intro exI [of _ s'] exI [of _ new]) auto
qed

section \<open>From the listener process to the streams\<close>

text \<open>
  C3. What a whole listener process has shipped at any moment of any run, through the ingest list
  in the order of the logger's calls, is what the log streams gain when the consumer drains the
  list: a daemon's stream, read back, gains exactly the records of that daemon's listeners in
  that order, and among them those of every listener are the records of the lines it has
  read, in order, but for at most the last.
\<close>

theorem listener_process_fills_the_streams:
  assumes "reachable_world rt hosts thr cap w" and "list_redis rc items streams"
    and "adapter_roundtrips rt (LogRecord ` set (shipped (w_trace w)))"
    and "items s = map (\<lambda>r. Text (dump_json rt (LogRecord r))) (shipped (w_trace w))"
    and "length (items s) \<le> n * turn_size batch_size"
  shows "\<exists>s' new. run_consumer rt rc batch_size n s = (None, s') \<and> items s' = [] \<and>
    streams s' (stream_key h LOG) = streams s (stream_key h LOG) @ new \<and>
    List.map_filter (rt_validate_json rt) new = map LogRecord (filter (\<lambda>r. docker_host r = h) (shipped (w_trace w))) \<and>
    (\<forall>i t. task_of (w_sys w) i = Some t \<and> task_host t = h \<longrightarrow>
      (\<exists>rs. prefix rs (listener_records rt h (task_cid t) (task_cname t) 1 (w_lines w i)) \<and>
        length (listener_records rt h (task_cid t) (task_cname t) 1 (w_lines w i)) \<le> Suc (length rs) \<and>
        subseq (map LogRecord rs) (List.map_filter (rt_validate_json rt) new)))"
proof -
  let ?all = "shipped (w_trace w)" and ?here = "\<lambda>r. docker_host r = h"
  let ?item = "\<lambda>item. case item of Text d \<Rightarrow> rt_validate_json rt d | Number n \<Rightarrow> None"
  have rb: "rt_validate_json rt (dump_json rt (LogRecord r)) = Some (LogRecord r)" if "r \<in> set ?all" for r
    using assms(3) that by (auto simp: adapter_roundtrips_def dump_json_def)
  have "List.map_filter ?item (map (\<lambda>r. Text (dump_json rt r)) (map LogRecord ?all)) = map LogRecord ?all"
    using rb by (intro map_filter_map_Some) auto
  then have valid: "valid_records rt (items s) = map LogRecord ?all" by (simp add: valid_records_def assms(4) comp_def)
  let ?rs = "map LogRecord (filter ?here ?all)"
  have "filter (\<lambda>r. rec_docker_host r = h \<and> rec_kind r = LOG) (map LogRecord ?all) = ?rs"
    by (simp add: filter_map comp_def)
  then have new: "added (stream_key h LOG) (batch_xadds rt (items s)) = map (dump_json rt) ?rs"
    by (simp add: added_valid_records valid)
  have read: "List.map_filter (rt_validate_json rt) (map (dump_json rt) ?rs) = ?rs"
    using rb by (intro map_filter_map_Some) auto
  obtain err s' where run: "run_consumer rt rc batch_size n s = (err, s')" by (cases "run_consumer rt rc batch_size n s")
  have 1: "err = None" "items s' = []" "streams s' (stream_key h LOG) = streams s (stream_key h LOG) @ map (dump_json rt) ?rs"
    using run_consumer_ok [OF assms(2) run] assms(5) by (simp_all add: new)
  have each: "subseq (map LogRecord (by_task i (w_trace w))) ?rs \<and>
      prefix (by_task i (w_trace w)) (listener_records rt h (task_cid t) (task_cname t) 1 (w_lines w i)) \<and>
      length (listener_records rt h (task_cid t) (task_cname t) 1 (w_lines w i)) \<le> Suc (length (by_task i (w_trace w)))"
    if t: "task_of (w_sys w) i = Some t" "task_host t = h" for i t
  proof -
    have p: "prefix (by_task i (w_trace w)) (records_read rt t (w_lines w i)) \<and>
      length (records_read rt t (w_lines w i)) \<le> Suc (length (by_task i (w_trace w)))"
      using shipped_of_task [OF world_inv_reachable [OF assms(1)] t(1) refl] by blast
    then have "r \<in> set (by_task i (w_trace w)) \<Longrightarrow> docker_host r = h" for r
      using listener_records_host set_mono_prefix t(2) unfolding records_read_def by blast
    then have "filter ?here (by_task i (w_trace w)) = by_task i (w_trace w)" by (simp add: filter_id_conv)
    then have "subseq (by_task i (w_trace w)) (filter ?here ?all)"
      using subseq_filter [OF by_task_subseq [of i "w_trace w"], of ?here] by simp
    then show ?thesis using p t(2) by (simp add: subseq_map records_read_def)
  qed
  show ?thesis
  proof (rule exI [of _ s'], rule exI [of _ "map (dump_json rt) ?rs"], unfold read, intro conjI allI impI)
    fix i t assume "task_of (w_sys w) i = Some t \<and> task_host t = h"
    then show "\<exists>rs. prefix rs (listener_records rt h (task_cid t) (task_cname t) 1 (w_lines w i)) \<and>
        length (listener_records rt h (task_cid t) (task_cname t) 1 (w_lines w i)) \<le> Suc (length rs) \<and>
        subseq (map LogRecord rs) ?rs"
      using each [of i t] by (intro exI [of _ "by_task i (w_trace w)"]) simp
  qed (use run 1 in simp_all)
qed

theorem listener_process_fills_the_streams_witness:
  "\<exists>s' new. run_consumer demo_rt store_redis BATCH_SIZE 1 \<lparr>store_items = [Text ''R'', Text ''R''], store_streams = (\<lambda>key. [])\<rparr> = (None, s') \<and>
     store_streams s' (stream_key ''d'' LOG) = new \<and>
     List.map_filter (rt_validate_json demo_rt) new = [LogRecord hi_record, LogRecord hi_record]"
proof -
  let ?s = "\<lparr>store_items = [Text ''R'', Text ''R''], store_streams = (\<lambda>key. [])\<rparr>"
  have "reads_hi demo_rt"
    using demo_records by (simp add: reads_hi_def hi_line_def demo_line_def hi_record_def utc_def split: option.splits)
  from straggler_reachable [OF this] have w: "reachable_world demo_rt [''d''] 0 1 straggler" .
  have tr: "shipped (w_trace straggler) = [hi_record, hi_record]" by (simp add: straggler_def Let_def)
  have rt: "adapter_roundtrips demo_rt (LogRecord ` set (shipped (w_trace straggler)))"
    unfolding tr by (simp add: adapter_roundtrips_def demo_rt_def hi_record_def utc_def)
  have its: "store_items ?s = map (\<lambda>r. Text (dump_json demo_rt (LogRecord r))) (shipped (w_trace straggler))"
    unfolding tr by (simp add: dump_json_def demo_rt_def)
  have len: "length (store_items ?s) \<le> 1 * turn_size BATCH_SIZE" by (simp add: turn_size_def BATCH_SIZE_def)
  from listener_process_fills_the_streams [OF w store_redis_ok rt its len, of "''d''"] obtain s' new where
    "run_consumer demo_rt store_redis BATCH_SIZE 1 ?s = (None, s')"
    "store_streams s' (stream_key ''d'' LOG) = store_streams ?s (stream_key ''d'' LOG) @ new"
    "List.map_filter (rt_validate_json demo_rt) new =
       map LogRecord (filter (\<lambda>r. docker_host r = ''d'') (shipped (w_trace straggler)))"
    by blast
  then show ?thesis unfolding tr by (intro exI [of _ s'] exI [of _ new]) (simp add: hi_record_def)
qed

section \<open>From a container's output to the reader\<close>

text \<open>The records a page reads from a good stream are those of its entries' texts.\<close>

lemma good_stream_records:
  "good_stream rt h k es \<Longrightarrow> map snd (valid_entries rt es) = List.map_filter (rt_validate_json rt) (map entry_data es)"
proof (induction es)
  case (Cons e es)
  have "good_stream rt h k es" using Cons.prems by (simp add: good_stream_def stream_ok_def)
  moreover obtain d where "snd e = [(''data'', d)]" "record_text rt h k d" using Cons.prems by (auto simp: good_stream_def)
  ultimately show ?case using Cons.IH
    by (auto simp: map_filter_Cons entry_record_def page_entry_def validate_json_def entry_data_def record_text_def)
qed (simp add: List.map_filter_def)

text \<open>
  An idle pipeline that has lost nothing and trimmed nothing of the daemon's log: the stream
  read back contains what the listener shipped.
\<close>

lemma stored_output:
  assumes "redis_ok api items entries" and "adapter_stable rt" and "\<forall>h k. entries s (stream_key h k) = []"
    and "pl_steps rt api items entries st b False (pl_start items s) p"
    and "pl_consumer p = CWait" and "items (pl_redis p) = []" and "\<forall>ms. (h, LOG, ms) \<notin> pl_trims p"
    and "adapter_roundtrips rt (LogRecord ` set (listener_records rt h cid cn 1 lines))"
    and "subseq (map Text (run_container_listener rt h cid cn lines)) (pl_pushed p)"
  shows "subseq (map LogRecord (listener_records rt h cid cn 1 lines))
    (map snd (valid_entries rt (entries (pl_redis p) (stream_key h LOG))))"
proof -
  note start = streams_good_start [where entries = entries, OF assms(3)]
  have "flows rt items entries p h LOG"
    using flows_steps [OF assms(4,1,2) start] assms(3) by (simp add: flows_start)
  then obtain gone where gone: "\<forall>e\<in>set gone. expired (pl_trims p) h LOG e"
    "added (stream_key h LOG) (batch_xadds rt (pl_pushed p)) = map entry_data (gone @ entries (pl_redis p) (stream_key h LOG)) @
      on_the_way rt items (stream_key h LOG) p"
    unfolding flows_def by blast
  have "gone = []" using gone(1) assms(7) by (cases gone) (auto simp: expired_def)
  moreover have "on_the_way rt items (stream_key h LOG) p = []" using assms(5,6) by (simp add: on_the_way_def)
  ultimately have d: "map (dump_json rt) (filter (\<lambda>r. rec_docker_host r = h \<and> rec_kind r = LOG) (valid_records rt (pl_pushed p))) =
      map entry_data (entries (pl_redis p) (stream_key h LOG))"
    using gone(2) by (simp add: added_valid_records)
  have "good_stream rt h LOG (entries (pl_redis p) (stream_key h LOG))"
    using streams_good_steps [OF assms(4,1,2) start] by (simp add: streams_good_def)
  from good_stream_records [OF this] show ?thesis using shipped_read_back [OF assms(8,9)] by (simp add: d)
qed

text \<open>
  C2. What a container prints is what a permitted caller reads: when a run without failures has
  come to rest and nothing of the daemon's log has been trimmed, a caller who asks for the log
  of a window that holds the whole stream, within the page size, gets one page without a
  cursor, in time order, with the records of all lines that have a timestamp, lines of equal
  timestamps in the order they were printed.
\<close>

theorem container_output_reaches_the_reader:
  assumes "redis_ok api items entries" and "adapter_stable (en_runtime env)" and "xrange_ok (en_xrange env) entries"
    and "\<forall>h k. entries s (stream_key h k) = []"
    and "pl_steps (en_runtime env) api items entries st b False (pl_start items s) p"
    and "pl_consumer p = CWait" and "items (pl_redis p) = []" and "\<forall>ms. (h, LOG, ms) \<notin> pl_trims p"
    and "adapter_roundtrips (en_runtime env) (LogRecord ` set (listener_records (en_runtime env) h cid cn 1 lines))"
    and "subseq (map Text (run_container_listener (en_runtime env) h cid cn lines)) (pl_pushed p)"
    and "map_of routes (rq_method rq, rq_path rq) = Some GetRecords"
    and "rq_api_key rq = Some key" and "key \<noteq> []"
    and "en_smembers env (pl_redis p) (auth_key (en_hexdigest env) key) = Inr ds" and "h \<in> ds"
    and "rq_query rq = \<lparr>q_host = h, q_kind = ''log'', q_container_id = None, q_level = None, q_text = None, q_start = Some lo,
           q_end = Some hi, q_log_cursor = None, q_metric_cursor = None, q_limit = limit\<rparr>"
    and "exact_window (dt_us lo)" and "dt_aware lo" and "exact_window (dt_us hi)" and "dt_aware hi"
    and "stored = entries (pl_redis p) (stream_key h LOG)"
    and "\<forall>e\<in>set stored. between_ms (dt_us lo div 1000) (dt_us hi div 1000) e"
    and "int (length stored) < effective_limit (st_server (en_settings env)) limit"
    and "\<forall>r\<in>set (map snd (valid_entries (en_runtime env) stored)). dt_aware (rec_ts r)"
  shows "\<exists>page. fst (serve env rq (pl_redis p) (pl_redis p)) = (200, RecordsBody page) \<and>
    next_log_cursor page = None \<and> sorted (map (\<lambda>r. dt_us (rec_ts r)) (rp_records page)) \<and>
    (\<forall>t. subseq (filter (\<lambda>r. dt_us (rec_ts r) = t) (map LogRecord (listener_records (en_runtime env) h cid cn 1 lines)))
      (filter (\<lambda>r. dt_us (rec_ts r) = t) (rp_records page)))"
proof -
  let ?rt = "en_runtime env" and ?q = "rq_query rq" and ?lim = "effective_limit (st_server (en_settings env)) limit"
  let ?rs = "map snd (valid_entries ?rt stored)" and ?key = "\<lambda>r. dt_us (rec_ts r)"
  let ?page = "\<lparr>rp_records = sort_key ?key ?rs, next_log_cursor = None, next_metric_cursor = None\<rparr>"
  have q: "q_host ?q = h" "query_kinds (q_kind ?q) = [LOG]" "kind_pattern (q_kind ?q)" "q_log_cursor ?q = None" "q_limit ?q = limit"
    "q_container_id ?q = None" "q_level ?q = None" "q_text ?q = None" "range_of (en_now env) ?q = (lo, hi)"
    by (simp_all add: assms(16) query_kinds_def kind_pattern_def range_of_def)
  have "stream_ok stored"
    using streams_good_steps [OF assms(5,1,2) streams_good_start [where entries = entries, OF assms(4)]]
    by (simp add: streams_good_def good_stream_def assms(21))
  then have w: "in_range (cursor_bound (nat (dt_us lo div 1000)) None) (SID (nat (dt_us hi div 1000)) MAX_STREAM_SEQ) stored = stored"
    using assms(22) exact_window_div [OF assms(17)] exact_window_div [OF assms(19)] by (simp add: in_range_ms filter_id_conv)
  have len: "0 < ?lim" "length stored < nat ?lim" using assms(23) by linarith+
  have p: "log_page ?rt (en_local_timestamp env) (en_xrange env) (en_settings env) (en_now env) ?q (pl_redis p) =
      Inr (valid_entries ?rt stored, None)"
    unfolding log_page_def page_if_def q fst_conv snd_conv
    using fetch_kind_page_ok [where cur = None and rt = ?rt and s = "pl_redis p" and host = h and k = LOG and lts = "en_local_timestamp env",
        OF assms(3) exact_window_dates [OF assms(17-20)] len(1)] w len(2)
    by (simp add: assms(21) Let_def)
  have m: "metric_page ?rt (en_local_timestamp env) (en_xrange env) (en_settings env) (en_now env) ?q (pl_redis p) = Inr ([], None)"
    by (simp add: metric_page_def page_if_def q)
  have a: "sort_by_ts (?rs @ map snd []) = Inr (sort_key ?key ?rs)" using assms(24) by (simp add: sort_by_ts_def)
  have "get_permitted_daemons (auth_backend_of env (pl_redis p)) (rq_api_key rq) = Inr ds"
    using assms(12-15) unfolding auth_backend_of_def redis_auth.granted_iff permitted_daemons_Some by auto
  moreover have "require_daemon_access h ds = Inr ()" using assms(15) by (simp add: require_daemon_access_def)
  ultimately have "fst (serve env rq (pl_redis p) (pl_redis p)) = (200, RecordsBody ?page)"
    unfolding serve_def assms(11) using q p m a
    by (simp add: handle_def records_request_def get_records_def apply_filters_def)
  moreover have "subseq (map LogRecord (listener_records ?rt h cid cn 1 lines)) ?rs"
    unfolding assms(21) by (rule stored_output [OF assms(1,2,4-10)])
  then have "subseq (filter (\<lambda>r. ?key r = t) (map LogRecord (listener_records ?rt h cid cn 1 lines)))
      (filter (\<lambda>r. ?key r = t) (rp_records ?page))" for t
    by (simp add: sort_key_stable subseq_filter)
  ultimately show ?thesis by (intro exI [of _ ?page]) simp
qed

text \<open>One line of one container, on its way through the server in memory.\<close>

abbreviation demo_pipe :: "raw_item list \<Rightarrow> (string \<Rightarrow> entry list) \<Rightarrow> consumer_pc \<Rightarrow> (string \<times> string) set \<Rightarrow> mem pipeline" where
  "demo_pipe xs es c cs \<equiv> \<lparr>pl_redis = \<lparr>mem_items = xs, mem_entries = es\<rparr>, pl_consumer = c, pl_trimmer = TrSleep,
     pl_pushed = [Text ''R''], pl_sent = cs, pl_trims = {}\<rparr>"

abbreviation demo_entries :: "string \<Rightarrow> entry list" where
  "demo_entries \<equiv> (\<lambda>key. [])(stream_key ''d'' LOG := [(SID 1100000000001 0, [(''data'', ''R'')])])"

abbreviation demo_end :: "mem pipeline" where
  "demo_end \<equiv> demo_pipe [] demo_entries CWait {(stream_key ''d'' LOG, ''R'')}"

lemma demo_run:
  "pl_steps demo_rt mem_api mem_items mem_entries one_daemon 1 False
     (pl_start mem_items \<lparr>mem_items = [Text ''R''], mem_entries = (\<lambda>key. [])\<rparr>) demo_end"
proof -
  let ?step = "pl_step demo_rt mem_api mem_items mem_entries one_daemon 1 False"
  let ?cs = "{(stream_key ''d'' LOG, ''R'')}"
  let ?p0 = "demo_pipe [Text ''R''] (\<lambda>key. []) CWait {}"
  let ?p1 = "demo_pipe [] (\<lambda>key. []) (CPopped (Text ''R'')) {}"
  let ?p2 = "demo_pipe [] (\<lambda>key. []) (CSend [(stream_key ''d'' LOG, ''R'')] None) ?cs"
  let ?p3 = "demo_pipe [] demo_entries (CSend [] None) ?cs"
  have x: "batch_xadds demo_rt [Text ''R''] = [(stream_key ''d'' LOG, ''R'')]"
    by (simp add: batch_xadds_def map_filter_Cons item_xadd_def validate_json_def dump_json_def demo_rt_def List.map_filter_def)
  have "?step ?p0 ?p1"
    using pl_woken [where p = ?p0 and api = mem_api and x = "Text ''R''" and s' = "pl_redis ?p1"] by (simp add: mem_api_def)
  moreover have "?step ?p1 ?p2" using pl_single [where p = ?p1 and x = "Text ''R''" and b = 1 and rt = demo_rt] by (simp add: x)
  moreover have "?step ?p2 ?p3"
    using pl_sent [where p = ?p2 and api = mem_api and s' = "pl_redis ?p3"] by (simp add: mem_api_def mem_xadd_def fresh_id_def)
  moreover have "?step ?p3 demo_end" using pl_executed [where p = ?p3] by simp
  moreover have "pl_start mem_items \<lparr>mem_items = [Text ''R''], mem_entries = (\<lambda>key. [])\<rparr> = ?p0" by (simp add: pl_start_def)
  ultimately show ?thesis by (auto intro: rtranclp.intros)
qed

definition demo_env :: "mem app_env" where
  "demo_env = (mem_env {''d''})\<lparr>en_runtime := demo_rt\<rparr>"

definition demo_query :: records_query where
  "demo_query = \<lparr>q_host = ''d'', q_kind = ''log'', q_container_id = None, q_level = None, q_text = None,
     q_start = Some (utc 1100000000001000), q_end = Some (utc 1100000000002000), q_log_cursor = None, q_metric_cursor = None,
     q_limit = None\<rparr>"

theorem container_output_reaches_the_reader_witness:
  "\<exists>page. fst (serve demo_env (records_of (Some ''k1'') demo_query) (pl_redis demo_end) (pl_redis demo_end)) = (200, RecordsBody page) \<and>
     subseq (map LogRecord (listener_records demo_rt ''d'' ''c'' ''web'' 1 [demo_line]))
       (filter (\<lambda>r. dt_us (rec_ts r) = 0) (rp_records page))"
proof -
  let ?rq = "records_of (Some ''k1'') demo_query" and ?s = "\<lparr>mem_items = [Text ''R''], mem_entries = (\<lambda>key. [])\<rparr>"
  let ?stored = "[(SID 1100000000001 0, [(''data'', ''R'')])] :: entry list"
  have rt: "en_runtime demo_env = demo_rt" by (simp add: demo_env_def)
  have x: "adapter_stable (en_runtime demo_env)" "xrange_ok (en_xrange demo_env) mem_entries"
    "\<forall>h k. mem_entries ?s (stream_key h k) = []"
    using mem_xrange_ok by (auto simp: adapter_stable_def demo_env_def demo_rt_def)
  have i: "pl_consumer demo_end = CWait" "mem_items (pl_redis demo_end) = []" "\<forall>ms. (''d'', LOG, ms) \<notin> pl_trims demo_end"
    by simp_all
  have a: "adapter_roundtrips (en_runtime demo_env) (LogRecord ` set (listener_records (en_runtime demo_env) ''d'' ''c'' ''web'' 1 [demo_line]))"
    unfolding rt demo_records by (simp add: adapter_roundtrips_def demo_rt_def)
  have t: "subseq (map Text (run_container_listener (en_runtime demo_env) ''d'' ''c'' ''web'' [demo_line])) (pl_pushed demo_end)"
    unfolding rt run_container_listener_def demo_records by (simp add: dump_json_def demo_rt_def)
  have k: "rq_api_key ?rq = Some ''k1''" "''k1'' \<noteq> []"
    "en_smembers demo_env (pl_redis demo_end) (auth_key (en_hexdigest demo_env) ''k1'') = Inr {''d''}" "''d'' \<in> {''d''}"
    by (simp_all add: demo_env_def)
  have q: "rq_query ?rq = \<lparr>q_host = ''d'', q_kind = ''log'', q_container_id = None, q_level = None, q_text = None,
     q_start = Some (utc 1100000000001000), q_end = Some (utc 1100000000002000), q_log_cursor = None, q_metric_cursor = None,
     q_limit = None\<rparr>"
    by (simp add: demo_query_def)
  have st: "?stored = mem_entries (pl_redis demo_end) (stream_key ''d'' LOG)" by simp
  have w: "\<forall>e\<in>set ?stored. between_ms (dt_us (utc 1100000000001000) div 1000) (dt_us (utc 1100000000002000) div 1000) e"
    "int (length ?stored) < effective_limit (st_server (en_settings demo_env)) None"
    by (simp_all add: between_ms_def demo_env_def effective_limit_def default_settings_def server_defaults_def)
  have v: "\<forall>r\<in>set (map snd (valid_entries (en_runtime demo_env) ?stored)). dt_aware (rec_ts r)"
    by (auto simp: rt map_filter_Cons List.map_filter_def entry_record_def page_entry_def validate_json_def demo_rt_def)
  obtain page where "fst (serve demo_env ?rq (pl_redis demo_end) (pl_redis demo_end)) = (200, RecordsBody page)"
    "\<forall>t. subseq (filter (\<lambda>r. dt_us (rec_ts r) = t) (map LogRecord (listener_records demo_rt ''d'' ''c'' ''web'' 1 [demo_line])))
      (filter (\<lambda>r. dt_us (rec_ts r) = t) (rp_records page))"
    using container_output_reaches_the_reader [OF mem_api_ok x demo_run [folded rt] i a t records_of_simps(3) k
        q sample_exact(1) utc_simps(2) sample_exact(2) utc_simps(2) st w v] unfolding rt by blast
  moreover have "filter (\<lambda>r. dt_us (rec_ts r) = 0) (map LogRecord (listener_records demo_rt ''d'' ''c'' ''web'' 1 [demo_line])) =
      map LogRecord (listener_records demo_rt ''d'' ''c'' ''web'' 1 [demo_line])"
    unfolding demo_records by simp
  ultimately show ?thesis by (intro exI [of _ page] conjI) (simp, metis)
qed

section \<open>From one daemon's disk usage to the whole process\<close>



end
